(* ===== verification/Kernel_Prelude.thy ===== *)
theory Kernel_Prelude
  imports Main "HOL-Library.Word" "HOL-Library.Multiset" "HOL-Library.Sublist"
begin

text \<open>
  Shared vocabulary of the development: the fixed-width integers of
  \<^verbatim>\<open>common.hpp\<close>, the faults a kernel path can end in, byte-addressed
  memory with little-endian 32-bit access, and the generic lemmas on words,
  lists and memory that the component theories rest on.
\<close>

unbundle bit_operations_syntax

type_synonym u8 = "8 word"
type_synonym u16 = "16 word"
type_synonym u32 = "32 word"
type_synonym u64 = "64 word"

text \<open>
  Every way in which a path of the kernel stops without a result: a failed
  \<^verbatim>\<open>ASSERT\<close>, \<^verbatim>\<open>PANIC\<close> or \<^verbatim>\<open>kabort\<close>, the use of a null pointer, an access
  outside the bounds of an array, and a recursion that has used up its
  fuel, and a loop known never to end.
\<close>

datatype fault = AssertFailed | Panicked | NullDeref | OutOfBounds | OutOfFuel | Diverges

type_synonym 'a result = "fault + 'a"

definition bind_result :: "'a result \<Rightarrow> ('a \<Rightarrow> 'b result) \<Rightarrow> 'b result" where
  "bind_result r f = (case r of Inl e \<Rightarrow> Inl e | Inr x \<Rightarrow> f x)"

definition assert_that :: "bool \<Rightarrow> unit result" where
  "assert_that b = (if b then Inr () else Inl AssertFailed)"

text \<open>A loop that runs a fallible body for each element of a list.\<close>

fun fold_result :: "('i \<Rightarrow> 's \<Rightarrow> 's result) \<Rightarrow> 'i list \<Rightarrow> 's \<Rightarrow> 's result" where
  "fold_result f [] s = Inr s"
| "fold_result f (i # is) s = bind_result (f i s) (fold_result f is)"

named_theorems result_simps \<open>computation rules of the fault monad\<close>
named_theorems mem_simps \<open>reading memory after a write\<close>

lemma bind_result_Inr [simp, result_simps]: "bind_result (Inr x) f = f x"
  by (simp add: bind_result_def)

lemma bind_result_Inl [simp, result_simps]: "bind_result (Inl e) f = Inl e"
  by (simp add: bind_result_def)

lemma bind_result_eq_Inr [result_simps]:
  "bind_result r f = Inr y \<longleftrightarrow> (\<exists>x. r = Inr x \<and> f x = Inr y)"
  by (cases r) simp_all

lemma assert_that_eq_Inr [result_simps]: "assert_that b = Inr u \<longleftrightarrow> b"
  by (simp add: assert_that_def)

lemma assert_that_True [simp]: "assert_that True = Inr ()"
  by (simp add: assert_that_def)

lemma assert_that_False [simp]: "assert_that False = Inl AssertFailed"
  by (simp add: assert_that_def)


subsection \<open>Words\<close>

lemma u32_add_one_bound: "(x::u32) \<noteq> - 1 \<Longrightarrow> unat x + 1 < 2 ^ 32"
proof -
  assume "x \<noteq> - 1"
  then have "unat x \<noteq> unat (- 1 :: u32)"
    by (simp only: word_unat_eq_iff not_False_eq_True)
  moreover have "unat x < 2 ^ 32"
    using unsigned_less [of x] by simp
  ultimately show ?thesis
    by (simp add: unsigned_minus_1_eq_mask mask_eq_exp_minus_1)
qed

lemma unat_u32_Suc: "(x::u32) \<noteq> - 1 \<Longrightarrow> unat (x + 1) = Suc (unat x)"
  using u32_add_one_bound [of x] by (subst unat_add_lem [THEN iffD1]) simp_all

lemma unat_of_nat_u32: "n < 2 ^ 32 \<Longrightarrow> unat (word_of_nat n :: u32) = n"
  by (simp add: unsigned_of_nat take_bit_nat_eq_self)

lemma unat_u32_lt: "unat (x::u32) < 2 ^ 32"
  using unsigned_less [of x] by simp


subsection \<open>Byte-addressed memory\<close>

type_synonym mem = "u32 \<Rightarrow> u8"

definition load_u32 :: "mem \<Rightarrow> u32 \<Rightarrow> u32" where
  "load_u32 m a = ucast (m a) OR push_bit 8 (ucast (m (a + 1)))
     OR push_bit 16 (ucast (m (a + 2))) OR push_bit 24 (ucast (m (a + 3)))"

definition store_u32 :: "mem \<Rightarrow> u32 \<Rightarrow> u32 \<Rightarrow> mem" where
  "store_u32 m a v = m(a := ucast v, a + 1 := ucast (drop_bit 8 v),
     a + 2 := ucast (drop_bit 16 v), a + 3 := ucast (drop_bit 24 v))"

text \<open>
  \<open>in_block a n x\<close>: address \<open>x\<close> is one of the \<open>n\<close> bytes from \<open>a\<close> on, with the
  wrap-around of 32-bit address arithmetic.
\<close>

definition in_block :: "u32 \<Rightarrow> nat \<Rightarrow> u32 \<Rightarrow> bool" where
  "in_block a n x \<longleftrightarrow> unat (x - a) < n"

lemma u32_split_bytes:
  "(v::u32) = ucast (ucast v :: u8) OR push_bit 8 (ucast (ucast (drop_bit 8 v) :: u8))
     OR push_bit 16 (ucast (ucast (drop_bit 16 v) :: u8))
     OR push_bit 24 (ucast (ucast (drop_bit 24 v) :: u8))"
proof (rule bit_word_eqI)
  fix n assume "n < LENGTH(32)"
  then have "n < 32" by simp
  consider "n < 8" | "8 \<le> n \<and> n < 16" | "16 \<le> n \<and> n < 24" | "24 \<le> n \<and> n < 32"
    using \<open>n < 32\<close> by linarith
  then show "bit v n = bit ((ucast (ucast v :: u8) OR push_bit 8 (ucast (ucast (drop_bit 8 v) :: u8))
     OR push_bit 16 (ucast (ucast (drop_bit 16 v) :: u8))
     OR push_bit 24 (ucast (ucast (drop_bit 24 v) :: u8))) :: u32) n"
    by cases (auto simp: bit_simps)
qed

lemma load_store_u32_same [simp, mem_simps]: "load_u32 (store_u32 m a v) a = v"
  by (simp add: load_u32_def store_u32_def) (rule u32_split_bytes [symmetric])

lemma store_u32_other [mem_simps]:
  assumes "\<not> in_block a 4 x"
  shows "store_u32 m a v x = m x"
proof -
  have "x \<noteq> a" "x \<noteq> a + 1" "x \<noteq> a + 2" "x \<noteq> a + 3"
    using assms by (auto simp: in_block_def)
  then show ?thesis
    by (simp add: store_u32_def)
qed


subsection \<open>Addresses as numbers\<close>

text \<open>Addresses in proofs are natural numbers below \<open>2 ^ 32\<close>, seen as words by \<open>adr\<close>.\<close>

definition adr :: "nat \<Rightarrow> u32" where "adr n = word_of_nat n"

named_theorems addr_simps \<open>address arithmetic inside \<open>adr\<close>\<close>

lemma addr_plus [addr_simps]:
  "adr a + numeral k = adr (a + numeral k)" "adr a + adr b = adr (a + b)"
  by (simp_all add: adr_def)

lemma addr_plus_1: "adr a + 1 = adr (a + 1)"
  by (simp add: adr_def)

lemma addr_minus [addr_simps]:
  "numeral k \<le> a \<Longrightarrow> adr a - numeral k = adr (a - numeral k)"
  "b \<le> a \<Longrightarrow> adr a - adr b = adr (a - b)"
  by (simp_all add: adr_def of_nat_diff)

lemma unat_addr [simp]: "a < 2 ^ 32 \<Longrightarrow> unat (adr a) = a"
  by (simp add: adr_def unat_of_nat_u32)

lemma addr_unat [simp]: "adr (unat w) = w"
  by (simp add: adr_def)

lemma addr_inj [addr_simps]: "a < 2 ^ 32 \<Longrightarrow> b < 2 ^ 32 \<Longrightarrow> adr a = adr b \<longleftrightarrow> a = b"
  by (metis unat_addr)

lemma addr_less [addr_simps]:
  "a < 2 ^ 32 \<Longrightarrow> b < 2 ^ 32 \<Longrightarrow> adr a < adr b \<longleftrightarrow> a < b"
  "a < 2 ^ 32 \<Longrightarrow> b < 2 ^ 32 \<Longrightarrow> adr a \<le> adr b \<longleftrightarrow> a \<le> b"
  by (simp_all add: word_less_nat_alt word_le_nat_alt)

lemma unat_addr_sub:
  assumes "a < 2 ^ 32" "b < 2 ^ 32"
  shows "unat (adr a - adr b) = (if b \<le> a then a - b else 2 ^ 32 + a - b)"
proof (cases "b \<le> a")
  case True
  then show ?thesis
    using assms by (simp add: addr_minus)
next
  case False
  have "(word_of_nat (2 ^ 32) :: u32) = 0"
    by simp
  then have "adr a - adr b = adr (2 ^ 32 + a - b)"
    using assms(2) unfolding adr_def by (subst of_nat_diff) (simp, simp only: of_nat_add add_0)
  then show ?thesis
    using False assms by simp
qed


subsection \<open>Memory frames\<close>

definition agree :: "nat \<Rightarrow> nat \<Rightarrow> mem \<Rightarrow> mem \<Rightarrow> bool" where
  "agree lo hi m m' \<longleftrightarrow> (\<forall>x. lo \<le> x \<longrightarrow> x < hi \<longrightarrow> m (adr x) = m' (adr x))"

lemma agree_refl [simp]: "agree lo hi m m"
  by (simp add: agree_def)

lemma agree_trans: "agree lo hi m m' \<Longrightarrow> agree lo hi m' m'' \<Longrightarrow> agree lo hi m m''"
  by (simp add: agree_def)

lemma agree_mono: "agree lo hi m m' \<Longrightarrow> lo \<le> lo' \<Longrightarrow> hi' \<le> hi \<Longrightarrow> agree lo' hi' m m'"
  by (simp add: agree_def)

lemma load_agree:
  assumes "agree lo hi m m'" "lo \<le> a" "a + 4 \<le> hi"
  shows "load_u32 m (adr a) = load_u32 m' (adr a)"
proof -
  have "m (adr (a + k)) = m' (adr (a + k))" if "k < 4" for k
    using assms that by (simp add: agree_def)
  from this [of 0] this [of 1] this [of 2] this [of 3] show ?thesis
    by (simp add: load_u32_def addr_plus addr_plus_1)
qed

lemma agree_store:
  assumes "hi \<le> 2 ^ 32" "a + 4 \<le> 2 ^ 32" "hi \<le> a \<or> a + 4 \<le> lo"
  shows "agree lo hi (store_u32 m (adr a) v) m"
proof -
  have "store_u32 m (adr a) v (adr x) = m (adr x)"
    if "lo \<le> x" "x < hi" for x
  proof -
    have "adr x \<noteq> adr (a + k)" if "k < 4" for k
      using that assms \<open>lo \<le> x\<close> \<open>x < hi\<close> by (subst addr_inj) auto
    from this [of 0] this [of 1] this [of 2] this [of 3] show ?thesis
      by (simp add: store_u32_def addr_plus addr_plus_1)
  qed
  then show ?thesis
    by (simp add: agree_def)
qed

lemma agree_upd:
  assumes "hi \<le> 2 ^ 32" "a < 2 ^ 32" "hi \<le> a \<or> a < lo"
  shows "agree lo hi (m(adr a := v)) m"
  using assms by (auto simp: agree_def addr_inj)

lemma load_store_u32_disjoint [mem_simps]:
  assumes "a + 4 \<le> 2 ^ 32" "b + 4 \<le> 2 ^ 32" "b + 4 \<le> a \<or> a + 4 \<le> b"
  shows "load_u32 (store_u32 m (adr a) v) (adr b) = load_u32 m (adr b)"
  using assms by (intro load_agree [OF agree_store [of "b + 4" a b]]) auto

lemma load_upd_disjoint [mem_simps]:
  assumes "a < 2 ^ 32" "b + 4 \<le> 2 ^ 32" "b + 4 \<le> a \<or> a < b"
  shows "load_u32 (m(adr a := v)) (adr b) = load_u32 m (adr b)"
  using assms by (intro load_agree [OF agree_upd [of "b + 4" a b]]) auto

lemma upd_store_disjoint [mem_simps]:
  assumes "a + 4 \<le> 2 ^ 32" "b < 2 ^ 32" "b < a \<or> a + 4 \<le> b"
  shows "store_u32 m (adr a) v (adr b) = m (adr b)"
  using assms agree_store [of "b + 1" a b m v] by (auto simp: agree_def)

subsection \<open>Writing a header and a footer\<close>

definition same_outside :: "nat \<Rightarrow> nat \<Rightarrow> mem \<Rightarrow> mem \<Rightarrow> bool" where
  "same_outside lo hi m m' \<longleftrightarrow> agree 0 lo m m' \<and> agree hi (2 ^ 32) m m'"

lemma same_outside_refl [simp]: "same_outside lo hi m m"
  by (simp add: same_outside_def)

lemma same_outside_trans:
  "same_outside lo hi m'' m' \<Longrightarrow> same_outside lo hi m' m \<Longrightarrow> same_outside lo hi m'' m"
  by (auto simp: same_outside_def intro: agree_trans)

lemma same_outside_mono:
  "same_outside lo hi m m' \<Longrightarrow> lo' \<le> lo \<Longrightarrow> hi \<le> hi' \<Longrightarrow> same_outside lo' hi' m m'"
  by (auto simp: same_outside_def intro: agree_mono)

lemma same_outside_agree:
  "same_outside lo hi m m' \<Longrightarrow> b \<le> lo \<or> hi \<le> a \<Longrightarrow> b \<le> 2 ^ 32 \<Longrightarrow> agree a b m m'"
  by (auto simp: same_outside_def intro: agree_mono)

end
