(* ===== verification/Common_Lib.thy ===== *)
theory Common_Lib
  imports Kernel_Prelude
begin

text \<open>
  The helpers of \<^verbatim>\<open>common.hpp\<close>, \<^verbatim>\<open>common.cpp\<close>, \<^verbatim>\<open>algo.hpp\<close> and \<^verbatim>\<open>cpu.hpp\<close>: alignment,
  byte order, memory and string routines, and the interrupt flag.  A
  \<^verbatim>\<open>const char*\<close> that is only read is a function from offsets to bytes; routines
  that write take the memory and addresses.
\<close>

subsection \<open>Definitions\<close>

type_synonym cstr = "nat \<Rightarrow> u8"

definition align :: "u32 \<Rightarrow> u32 \<Rightarrow> u32" where
  "align val cnt = (val + cnt - 1) AND NOT (cnt - 1)"

definition cPageSize :: u32 where "cPageSize = 0x1000"
definition cPageMask :: u32 where "cPageMask = NOT 0xfff"

definition page_align :: "u32 \<Rightarrow> u32" where
  "page_align addr = (addr + cPageSize - 1) AND cPageMask"

definition algo_min :: "'a::linorder \<Rightarrow> 'a \<Rightarrow> 'a" where
  "algo_min a b = (if a < b then a else b)"

definition htons :: "u16 \<Rightarrow> u16" where
  "htons A = drop_bit 8 (A AND 0xff00) OR push_bit 8 (A AND 0x00ff)"

definition htonl :: "u32 \<Rightarrow> u32" where
  "htonl A = drop_bit 24 (A AND 0xff000000) OR drop_bit 8 (A AND 0x00ff0000)
     OR push_bit 8 (A AND 0x0000ff00) OR push_bit 24 (A AND 0x000000ff)"

fun memcpy :: "u32 \<Rightarrow> u32 \<Rightarrow> nat \<Rightarrow> mem \<Rightarrow> mem" where
  "memcpy dest src 0 m = m"
| "memcpy dest src (Suc len) m = memcpy (dest + 1) (src + 1) len (m(dest := m src))"

fun memset :: "u32 \<Rightarrow> u8 \<Rightarrow> nat \<Rightarrow> mem \<Rightarrow> mem" where
  "memset tmp val 0 m = m"
| "memset tmp val (Suc len) m = memset (tmp + 1) val len (m(tmp := val))"

partial_function (option) strcmp_from :: "cstr \<Rightarrow> cstr \<Rightarrow> nat \<Rightarrow> int option" where
  "strcmp_from str1 str2 i =
    (if str1 i \<noteq> 0 \<and> str2 i \<noteq> 0
     then if str1 i \<noteq> str2 i then Some 1 else strcmp_from str1 str2 (Suc i)
     else if str1 i = 0 \<and> str2 i \<noteq> 0 \<or> str1 i \<noteq> 0 \<and> str2 i = 0 then Some 1 else Some 0)"

definition strcmp :: "cstr \<Rightarrow> cstr \<Rightarrow> int option" where
  "strcmp str1 str2 = strcmp_from str1 str2 0"

function strncmp_from :: "cstr \<Rightarrow> cstr \<Rightarrow> nat \<Rightarrow> nat \<Rightarrow> int" where
  "strncmp_from str1 str2 len i =
    (if i < len
     then if str1 i = 0 then (if str2 i = 0 then 0 else - 1)
          else if str1 i \<noteq> str2 i then 1 else strncmp_from str1 str2 len (Suc i)
     else 0)"
  by pat_completeness auto
termination by (relation "measure (\<lambda>(_, _, len, i). len - i)") auto

definition strncmp :: "cstr \<Rightarrow> cstr \<Rightarrow> nat \<Rightarrow> int" where
  "strncmp str1 str2 len = strncmp_from str1 str2 len 0"

partial_function (option) strlen_from :: "cstr \<Rightarrow> nat \<Rightarrow> nat option" where
  "strlen_from str i = (if str i \<noteq> 0 then strlen_from str (Suc i) else Some i)"

definition strlen :: "cstr \<Rightarrow> nat option" where
  "strlen str = strlen_from str 0"

text \<open>The copying loop of \<^verbatim>\<open>strcpy\<close> and \<^verbatim>\<open>strcat\<close>: it returns the advanced \<^verbatim>\<open>dest\<close>.\<close>

partial_function (option) strcpy :: "u32 \<Rightarrow> u32 \<Rightarrow> mem \<Rightarrow> (u32 \<times> mem) option" where
  "strcpy dest src m =
    (let m' = m(dest := m src)
     in if m' (src + 1) \<noteq> 0 then strcpy (dest + 1) (src + 1) m' else Some (dest + 1, m'))"

partial_function (option) strcat_scan :: "u32 \<Rightarrow> mem \<Rightarrow> (u32 \<times> mem) option" where
  "strcat_scan dest m =
    (if m dest \<noteq> 0 then strcat_scan (dest + 1) (m(dest + 1 := m dest)) else Some (dest, m))"

definition strcat :: "u32 \<Rightarrow> u32 \<Rightarrow> mem \<Rightarrow> (u32 \<times> mem) option" where
  "strcat dest src m =
    (case strcat_scan dest m of None \<Rightarrow> None | Some (dest', m') \<Rightarrow> strcpy dest' src m')"

text \<open>
  The interrupt flag \<^verbatim>\<open>eIF\<close> of the processor, true when interrupts are delivered.
  \<^verbatim>\<open>sti\<close> and \<^verbatim>\<open>cli\<close> set and clear it.  The operations return their result with the new flag.
\<close>

definition enable_interrupts :: "bool \<Rightarrow> int \<times> bool" where
  "enable_interrupts enabled = (if enabled then (0, enabled) else (1, True))"

definition disable_interrupts :: "bool \<Rightarrow> int \<times> bool" where
  "disable_interrupts enabled = (if \<not> enabled then (1, enabled) else (0, False))"

definition restore_interrupts :: "int \<Rightarrow> bool \<Rightarrow> bool" where
  "restore_interrupts val enabled =
    (if val \<noteq> 0 then snd (disable_interrupts enabled) else snd (enable_interrupts enabled))"

declare strncmp_from.simps [simp del]


subsection \<open>Alignment and byte order\<close>

lemma and_not_mask_unat:
  fixes w :: u32
  shows "unat (w AND NOT (mask k)) = unat w div 2 ^ k * 2 ^ k"
proof -
  have eq: "w AND NOT (mask k) = push_bit k (drop_bit k w)"
    by (rule bit_word_eqI) (auto simp: bit_simps)
  have lt: "unat w < 2 ^ 32"
    using unsigned_less [of w] by simp
  then have "unat w div 2 ^ k * 2 ^ k < 2 ^ 32"
    by (intro le_less_trans [OF div_times_less_eq_dividend])
  with lt show ?thesis
    unfolding eq unsigned_push_bit_eq unsigned_drop_bit_eq
    by (simp add: push_bit_eq_mult drop_bit_eq_div take_bit_eq_mod)
qed

text \<open>\<^verbatim>\<open>align\<close> rounds up: for a power of two it gives the least multiple not below the argument.\<close>

lemma align_spec:
  assumes "k < 32" "unat val + 2 ^ k \<le> 2 ^ 32"
  shows "unat (align val (2 ^ k)) = (unat val + (2 ^ k - 1)) div 2 ^ k * 2 ^ k"
proof -
  have "word_of_nat (2 ^ k - 1) = (2 ^ k - 1 :: u32)"
    by (simp add: of_nat_diff)
  then have "val + 2 ^ k - 1 = word_of_nat (unat val + (2 ^ k - 1))"
    by (simp only: of_nat_add) simp
  moreover have "unat (word_of_nat (unat val + (2 ^ k - 1)) :: u32) = unat val + (2 ^ k - 1)"
    using assms by (intro unat_of_nat_u32) simp
  ultimately have "unat (val + 2 ^ k - 1) = unat val + (2 ^ k - 1)"
    by simp
  then show ?thesis
    using and_not_mask_unat [of "val + 2 ^ k - 1" k]
    by (simp add: align_def mask_eq_exp_minus_1)
qed

lemma page_align_eq_align: "page_align a = align a (2 ^ 12)"
  by (simp add: page_align_def align_def cPageSize_def cPageMask_def)

lemma round_up_least:
  fixes n d :: nat
  assumes "0 < d"
  shows "d dvd (n + (d - 1)) div d * d" "n \<le> (n + (d - 1)) div d * d"
    "(n + (d - 1)) div d * d < n + d" "d dvd n \<Longrightarrow> (n + (d - 1)) div d * d = n"
proof -
  have "(n + (d - 1)) div d * d + (n + (d - 1)) mod d = n + (d - 1)"
    by simp
  moreover have "(n + (d - 1)) mod d \<le> d - 1"
    using assms by (metis Suc_pred' less_Suc_eq_le mod_less_divisor)
  ultimately show "n \<le> (n + (d - 1)) div d * d" "(n + (d - 1)) div d * d < n + d"
    using assms by linarith+
  have "(d * c + (d - 1)) div d = c" for c
    by (rule div_nat_eqI) (use assms in \<open>auto simp: algebra_simps\<close>)
  then show "d dvd n \<Longrightarrow> (n + (d - 1)) div d * d = n"
    by (auto elim!: dvdE simp: mult.commute)
qed simp

lemma htons_swap: "htons a = drop_bit 8 a OR push_bit 8 a"
proof -
  have m: "(0xff00 :: u16) = push_bit 8 (mask 8)" "(0x00ff :: u16) = mask 8"
    by (simp_all add: mask_eq_exp_minus_1 push_bit_eq_mult)
  show ?thesis
    unfolding htons_def m
    by (rule bit_word_eqI) (auto simp: bit_simps dest: bit_imp_le_length)
qed

lemma htonl_swap:
  "htonl a = drop_bit 24 a OR push_bit 8 (drop_bit 16 a AND mask 8)
     OR push_bit 16 (drop_bit 8 a AND mask 8) OR push_bit 24 a"
proof -
  have m: "(0xff000000 :: u32) = push_bit 24 (mask 8)" "(0x00ff0000 :: u32) = push_bit 16 (mask 8)"
    "(0x0000ff00 :: u32) = push_bit 8 (mask 8)" "(0x000000ff :: u32) = mask 8"
    by (simp_all add: mask_eq_exp_minus_1 push_bit_eq_mult)
  show ?thesis
    unfolding htonl_def m
  proof (rule bit_word_eqI)
    fix n assume "n < LENGTH(32)"
    then consider "n < 8" | "8 \<le> n \<and> n < 16" | "16 \<le> n \<and> n < 24" | "24 \<le> n \<and> n < 32"
      by fastforce
    then show "bit (drop_bit 24 (a AND push_bit 24 (mask 8)) OR drop_bit 8 (a AND push_bit 16 (mask 8))
        OR push_bit 8 (a AND push_bit 8 (mask 8)) OR push_bit 24 (a AND mask 8)) n =
      bit (drop_bit 24 a OR push_bit 8 (drop_bit 16 a AND mask 8)
        OR push_bit 16 (drop_bit 8 a AND mask 8) OR push_bit 24 a) n"
      by cases (auto simp: bit_simps dest: bit_imp_le_length)
  qed
qed

lemma htons_involution: "htons (htons a) = a"
proof (rule bit_word_eqI)
  fix n assume "n < LENGTH(16)"
  then show "bit (htons (htons a)) n = bit a n"
    by (cases "n < 8") (auto simp: htons_swap bit_simps dest: bit_imp_le_length)
qed

lemma htonl_involution: "htonl (htonl a) = a"
proof (rule bit_word_eqI)
  fix n assume "n < LENGTH(32)"
  then have "n < 32" by simp
  then consider "n < 8" | "8 \<le> n \<and> n < 16" | "16 \<le> n \<and> n < 24" | "24 \<le> n \<and> n < 32"
    by linarith
  then show "bit (htonl (htonl a)) n = bit a n"
    by cases (auto simp: htonl_swap bit_simps dest: bit_imp_le_length)
qed


subsection \<open>Memory and strings\<close>

lemma unat_diff_step: "x \<noteq> a \<Longrightarrow> unat (x - a) = Suc (unat (x - (a + 1 :: u32)))"
  using unat_u32_Suc [of "x - a - 1"] by (simp add: algebra_simps eq_diff_eq)

lemma not_in_rest: "len < 2 ^ 32 \<Longrightarrow> \<not> unat (a - (a + 1 :: u32)) < len"
  by (simp add: unsigned_minus_1_eq_mask mask_eq_exp_minus_1)

lemma memset_other: "\<not> unat (x - tmp) < len \<Longrightarrow> memset tmp val len m x = m x"
proof (induction len arbitrary: tmp m)
  case (Suc len)
  then have "x \<noteq> tmp" by auto
  then show ?case
    using Suc by (simp add: unat_diff_step)
qed simp

lemma memset_sets: "unat (x - tmp) < len \<Longrightarrow> len \<le> 2 ^ 32 \<Longrightarrow> memset tmp val len m x = val"
proof (induction len arbitrary: tmp m)
  case (Suc len)
  show ?case
  proof (cases "x = tmp")
    case True
    then show ?thesis
      using Suc.prems not_in_rest [of len tmp] by (simp add: memset_other)
  next
    case False
    then show ?thesis
      using Suc by (simp add: unat_diff_step)
  qed
qed simp

text \<open>
  \<^verbatim>\<open>memcpy\<close> copies forwards, so it is correct unless the destination starts
  strictly inside the source.
\<close>

lemma memcpy_other:
  "\<not> unat (x - dest) < len \<Longrightarrow> memcpy dest src len m x = m x"
proof (induction len arbitrary: dest src m)
  case (Suc len)
  then have "x \<noteq> dest" by auto
  then show ?case
    using Suc by (simp add: unat_diff_step)
qed simp

lemma memcpy_copies:
  assumes "i < len" "len \<le> 2 ^ 32" "dest = src \<or> len \<le> unat (dest - src)"
  shows "memcpy dest src len m (dest + word_of_nat i) = m (src + word_of_nat i)"
  using assms
proof (induction len arbitrary: dest src m i)
  case (Suc len)
  show ?case
  proof (cases i)
    case 0
    then show ?thesis
      using Suc.prems not_in_rest [of len dest] by (simp add: memcpy_other)
  next
    case (Suc j)
    have j: "j < len" "unat (word_of_nat (Suc j) :: u32) = Suc j"
      using Suc Suc.prems unat_of_nat_u32 [of "Suc j"] by simp_all
    have "src + word_of_nat (Suc j) \<noteq> dest" if "dest \<noteq> src"
    proof
      assume "src + word_of_nat (Suc j) = dest"
      then have "dest - src = word_of_nat (Suc j)"
        by (simp add: algebra_simps)
      then show False
        using j Suc.prems(3) that by simp
    qed
    then have "(m(dest := m src)) (src + 1 + word_of_nat j) = m (src + word_of_nat i)"
      using Suc by (cases "dest = src") (auto simp: algebra_simps)
    moreover have "memcpy (dest + 1) (src + 1) len (m(dest := m src)) (dest + 1 + word_of_nat j) =
        (m(dest := m src)) (src + 1 + word_of_nat j)"
      using j Suc.prems by (intro Suc.IH) auto
    ultimately show ?thesis
      using Suc by (simp add: add.assoc)
  qed
qed simp

text \<open>\<open>is_cstr s bs\<close>: the characters before the terminator of \<open>s\<close> are \<open>bs\<close>.\<close>

definition is_cstr :: "cstr \<Rightarrow> u8 list \<Rightarrow> bool" where
  "is_cstr s bs \<longleftrightarrow> (\<forall>i < length bs. s i = bs ! i) \<and> 0 \<notin> set bs \<and> s (length bs) = 0"

lemma is_cstr_nth: "is_cstr s bs \<Longrightarrow> i < length bs \<Longrightarrow> s i = bs ! i"
  by (simp add: is_cstr_def)

lemma is_cstr_zero: "is_cstr s bs \<Longrightarrow> i \<le> length bs \<Longrightarrow> s i = 0 \<longleftrightarrow> i = length bs"
  by (metis is_cstr_def le_neq_implies_less nth_mem)

lemma is_cstr_end: "is_cstr s bs \<Longrightarrow> s (length bs) = 0"
  by (simp add: is_cstr_def)

lemma is_cstr_drop:
  "is_cstr s bs \<Longrightarrow> i < length bs \<Longrightarrow> drop i bs = s i # drop (Suc i) bs"
  by (simp add: is_cstr_def Cons_nth_drop_Suc)

lemma strlen_from_correct:
  "is_cstr s bs \<Longrightarrow> i \<le> length bs \<Longrightarrow> strlen_from s i = Some (length bs)"
proof (induction "length bs - i" arbitrary: i)
  case 0
  then show ?case
    by (subst strlen_from.simps) (simp add: is_cstr_zero)
next
  case (Suc d)
  then have "i < length bs" by simp
  then show ?case
    using Suc by (subst strlen_from.simps) (simp add: is_cstr_zero)
qed

lemma strlen_correct: "is_cstr s bs \<Longrightarrow> strlen s = Some (length bs)"
  by (simp add: strlen_def strlen_from_correct)

lemma strcmp_from_correct:
  assumes "is_cstr s a" "is_cstr t b" "i \<le> length a" "i \<le> length b"
  shows "strcmp_from s t i = Some (if drop i a = drop i b then 0 else 1)"
  using assms
proof (induction "length a - i" arbitrary: i)
  case 0
  then have "i = length a" by simp
  then show ?case
    using 0 by (subst strcmp_from.simps) (auto simp: is_cstr_zero)
next
  case (Suc d)
  then have i: "i < length a" by simp
  show ?case
  proof (cases "i < length b \<and> s i = t i")
    case True
    then have "strcmp_from s t i = strcmp_from s t (Suc i)"
      using Suc i by (subst strcmp_from.simps) (auto simp: is_cstr_zero)
    then show ?thesis
      using Suc True i by (simp add: is_cstr_drop)
  next
    case False
    then have "drop i a \<noteq> drop i b"
      using Suc i by (cases "i < length b") (auto simp: is_cstr_drop)
    moreover have "strcmp_from s t i = Some 1"
      using Suc i False by (subst strcmp_from.simps) (auto simp: is_cstr_zero)
    ultimately show ?thesis
      by simp
  qed
qed

lemma strcmp_correct:
  "is_cstr s a \<Longrightarrow> is_cstr t b \<Longrightarrow> strcmp s t = Some (if a = b then 0 else 1)"
  by (simp add: strcmp_def strcmp_from_correct)

text \<open>\<^verbatim>\<open>strncmp\<close> gives zero exactly when the strings agree on their first \<open>len\<close> characters.\<close>

lemma strncmp_from_zero:
  assumes "is_cstr s a" "is_cstr t b" "i \<le> length a" "i \<le> length b"
  shows "strncmp_from s t len i = 0 \<longleftrightarrow> take (len - i) (drop i a) = take (len - i) (drop i b)"
  using assms
proof (induction s t len i rule: strncmp_from.induct)
  case (1 s t len i)
  consider "\<not> i < len" | "i < len" "i = length a" | "i < len" "i < length a" "i = length b"
    | "i < len" "i < length a" "i < length b" "s i \<noteq> t i"
    | "i < len" "i < length a" "i < length b" "s i = t i"
    using "1.prems" by linarith
  then show ?case
  proof cases
    case 4
    then show ?thesis
      using 1 by (subst strncmp_from.simps) (auto simp: is_cstr_zero is_cstr_drop take_Cons')
  next
    case 5
    then have nz: "s i \<noteq> 0"
      using 1 by (simp add: is_cstr_zero)
    have "take (len - i) (drop i a) = s i # take (len - Suc i) (drop (Suc i) a)"
      "take (len - i) (drop i b) = t i # take (len - Suc i) (drop (Suc i) b)"
      using 5 1 by (simp_all add: is_cstr_drop take_Cons')
    moreover have "strncmp_from s t len i = strncmp_from s t len (Suc i)"
      using 5 nz by (subst strncmp_from.simps) simp
    ultimately show ?thesis
      using 1 5 nz by auto
  qed (use 1 in \<open>auto simp: is_cstr_zero is_cstr_end strncmp_from.simps [of s t len "length a"]
        strncmp_from.simps [of s t len "length b"] strncmp_from.simps [of s t len i]\<close>)
qed

lemma strncmp_zero:
  "is_cstr s a \<Longrightarrow> is_cstr t b \<Longrightarrow> strncmp s t len = 0 \<longleftrightarrow> take len a = take len b"
  by (simp add: strncmp_def strncmp_from_zero)

text \<open>\<^verbatim>\<open>strcat\<close> never reaches the terminator of a non-empty destination.\<close>

lemma strcat_scan_diverges:
  assumes "strcat_scan d m = Some r"
  shows "m d = 0"
proof (rule strcat_scan.raw_induct [where P = "\<lambda>d m r. m d = 0", OF _ assms])
  fix scan and d :: u32 and m :: mem and r
  assume IH: "\<And>d m r. scan d m = Some r \<Longrightarrow> m d = 0"
    and body: "(if m d \<noteq> 0 then scan (d + 1) (m(d + 1 := m d)) else Some (d, m)) = Some r"
  show "m d = 0"
    using body IH [of "d + 1" "m(d + 1 := m d)" r] by (cases "m d = 0") simp_all
qed

lemma strcat_nonempty_diverges: "m dest \<noteq> 0 \<Longrightarrow> strcat dest src m = None"
  using strcat_scan_diverges [of dest m] by (cases "strcat_scan dest m") (auto simp: strcat_def)


subsection \<open>Interrupts\<close>

lemma restore_disable: "restore_interrupts (fst (disable_interrupts f)) (snd (disable_interrupts f)) = f"
  by (simp add: restore_interrupts_def disable_interrupts_def enable_interrupts_def)

lemma restore_enable: "restore_interrupts (fst (enable_interrupts f)) (snd (enable_interrupts f)) = f"
  by (simp add: restore_interrupts_def disable_interrupts_def enable_interrupts_def)

end
