(* ===== verification/Ordered_Array.thy ===== *)
theory Ordered_Array
  imports Kernel_Prelude
begin

text \<open>
  The ordered array of \<^verbatim>\<open>ordered_array.hpp\<close>, the index structure of the kernel
  heap.  The buffer is the pointer \<^verbatim>\<open>T* array\<close>: C++ does not check an index
  against \<^verbatim>\<open>max_size\<close>, so it is a total function from indices to elements.  The
  template parameter \<^verbatim>\<open>sorter\<close> is the argument \<open>lt\<close> of the operations; its
  contract is the locale \<open>sorter\<close>, under which insertion keeps the array sorted.
\<close>

subsection \<open>State and operations\<close>

record 'a ordered_array =
  oa_array :: "nat \<Rightarrow> 'a"
  oa_size :: u32
  oa_max_size :: u32

function oa_scan :: "('a \<Rightarrow> 'a \<Rightarrow> bool) \<Rightarrow> (nat \<Rightarrow> 'a) \<Rightarrow> nat \<Rightarrow> 'a \<Rightarrow> nat \<Rightarrow> nat" where
  "oa_scan lt arr sz item iterator =
    (if iterator < sz \<and> lt (arr iterator) item
     then oa_scan lt arr sz item (Suc iterator) else iterator)"
  by pat_completeness auto
termination by (relation "measure (\<lambda>(_, _, sz, _, it). sz - it)") auto

function oa_shift_up :: "(nat \<Rightarrow> 'a) \<Rightarrow> nat \<Rightarrow> nat \<Rightarrow> 'a \<Rightarrow> (nat \<Rightarrow> 'a)" where
  "oa_shift_up arr sz iterator tmp =
    (if iterator < sz
     then oa_shift_up (arr(Suc iterator := tmp)) sz (Suc iterator) (arr (Suc iterator))
     else arr)"
  by pat_completeness auto
termination by (relation "measure (\<lambda>(_, sz, it, _). sz - it)") auto

definition oa_insert :: "('a \<Rightarrow> 'a \<Rightarrow> bool) \<Rightarrow> 'a \<Rightarrow> 'a ordered_array \<Rightarrow> 'a ordered_array" where
  "oa_insert lt item oa =
    (let sz = unat (oa_size oa);
         iterator = oa_scan lt (oa_array oa) sz item 0
     in if iterator = sz
        then oa\<lparr>oa_array := (oa_array oa)(sz := item), oa_size := oa_size oa + 1\<rparr>
        else let tmp = oa_array oa iterator;
                 arr = (oa_array oa)(iterator := item)
             in oa\<lparr>oa_array := oa_shift_up arr sz iterator tmp, oa_size := oa_size oa + 1\<rparr>)"

definition oa_lookup :: "nat \<Rightarrow> 'a ordered_array \<Rightarrow> 'a result" where
  "oa_lookup i oa = (if i < unat (oa_size oa) then Inr (oa_array oa i) else Inl AssertFailed)"

function oa_shift_down :: "(nat \<Rightarrow> 'a) \<Rightarrow> nat \<Rightarrow> nat \<Rightarrow> (nat \<Rightarrow> 'a)" where
  "oa_shift_down arr sz i =
    (if i < sz then oa_shift_down (arr(i := arr (Suc i))) sz (Suc i) else arr)"
  by pat_completeness auto
termination by (relation "measure (\<lambda>(_, sz, i). sz - i)") auto

definition oa_remove :: "nat \<Rightarrow> 'a ordered_array \<Rightarrow> 'a ordered_array" where
  "oa_remove i oa =
    oa\<lparr>oa_array := oa_shift_down (oa_array oa) (unat (oa_size oa)) i, oa_size := oa_size oa - 1\<rparr>"

text \<open>
  \<^verbatim>\<open>place_ordered_array\<close> clears \<open>max_size\<close> elements with \<^verbatim>\<open>memset\<close> in whatever the
  memory held before; \<open>zero\<close> is the element whose bytes are all zero.
\<close>

definition place_ordered_array :: "'a \<Rightarrow> (nat \<Rightarrow> 'a) \<Rightarrow> u32 \<Rightarrow> 'a ordered_array" where
  "place_ordered_array zero old max_size =
    \<lparr>oa_array = (\<lambda>i. if i < unat max_size then zero else old i), oa_size = 0,
     oa_max_size = max_size\<rparr>"

definition oa_default_less_than :: "'a::ord \<Rightarrow> 'a \<Rightarrow> bool" where
  "oa_default_less_than a b \<longleftrightarrow> a < b"

declare oa_scan.simps [simp del] oa_shift_up.simps [simp del] oa_shift_down.simps [simp del]


subsection \<open>The list an ordered array holds\<close>

definition oa_list :: "'a ordered_array \<Rightarrow> 'a list" where
  "oa_list oa = map (oa_array oa) [0..<unat (oa_size oa)]"

definition list_insert :: "('a \<Rightarrow> 'a \<Rightarrow> bool) \<Rightarrow> 'a \<Rightarrow> 'a list \<Rightarrow> 'a list" where
  "list_insert lt x xs =
    takeWhile (\<lambda>y. lt y x) xs @ x # dropWhile (\<lambda>y. lt y x) xs"

definition list_remove :: "nat \<Rightarrow> 'a list \<Rightarrow> 'a list" where
  "list_remove i xs = take i xs @ drop (Suc i) xs"

lemma length_oa_list [simp]: "length (oa_list oa) = unat (oa_size oa)"
  by (simp add: oa_list_def)

lemma nth_oa_list [simp]: "i < unat (oa_size oa) \<Longrightarrow> oa_list oa ! i = oa_array oa i"
  by (simp add: oa_list_def)

lemma oa_list_place [simp]: "oa_list (place_ordered_array z old m) = []"
  by (simp add: oa_list_def place_ordered_array_def)

lemma oa_scan_step: "it < sz \<Longrightarrow> lt (arr it) x \<Longrightarrow> oa_scan lt arr sz x it = oa_scan lt arr sz x (Suc it)"
  by (subst oa_scan.simps) simp

lemma oa_scan_done: "\<not> (it < sz \<and> lt (arr it) x) \<Longrightarrow> oa_scan lt arr sz x it = it"
  by (subst oa_scan.simps) auto

lemma oa_scan_bounds: "it \<le> sz \<Longrightarrow> it \<le> oa_scan lt arr sz x it \<and> oa_scan lt arr sz x it \<le> sz"
  by (induction lt arr sz x it rule: oa_scan.induct) (subst (1 2) oa_scan.simps, auto)

lemma oa_scan_less: "it \<le> j \<Longrightarrow> j < oa_scan lt arr sz x it \<Longrightarrow> lt (arr j) x"
proof (induction lt arr sz x it rule: oa_scan.induct)
  case (1 lt arr sz x it)
  then show ?case
    by (cases "it < sz \<and> lt (arr it) x"; cases "j = it") (auto simp: oa_scan_step oa_scan_done)
qed

lemma oa_scan_stop: "oa_scan lt arr sz x it < sz \<Longrightarrow> \<not> lt (arr (oa_scan lt arr sz x it)) x"
proof (induction lt arr sz x it rule: oa_scan.induct)
  case (1 lt arr sz x it)
  then show ?case
    by (cases "it < sz \<and> lt (arr it) x") (auto simp: oa_scan_step oa_scan_done)
qed

lemma oa_scan_takeWhile:
  "oa_scan lt arr sz x 0 = length (takeWhile (\<lambda>y. lt y x) (map arr [0..<sz]))"
proof -
  let ?k = "oa_scan lt arr sz x 0"
  have le: "?k \<le> sz" using oa_scan_bounds [of 0 sz] by simp
  have "takeWhile (\<lambda>y. lt y x) (map arr [0..<sz]) = take ?k (map arr [0..<sz])"
  proof (rule takeWhile_eq_take_P_nth)
    fix i assume "i < ?k" "i < length (map arr [0..<sz])"
    then show "lt (map arr [0..<sz] ! i) x"
      using oa_scan_less [of 0 i lt arr sz x] by simp
  next
    assume "?k < length (map arr [0..<sz])"
    then show "\<not> lt (map arr [0..<sz] ! ?k) x"
      using oa_scan_stop [of lt arr sz x 0] by simp
  qed
  then show ?thesis
    using le by simp
qed

lemma oa_shift_up_nth:
  "oa_shift_up arr sz it tmp j =
    (if it < j \<and> j \<le> sz then (if j = Suc it then tmp else arr (j - 1)) else arr j)"
proof (induction arr sz it tmp rule: oa_shift_up.induct)
  case (1 arr sz it tmp)
  show ?case
  proof (cases "it < sz")
    case True
    then show ?thesis
      by (subst oa_shift_up.simps) (auto simp: 1)
  next
    case False
    then show ?thesis
      by (subst oa_shift_up.simps) auto
  qed
qed

lemma oa_shift_down_nth:
  "oa_shift_down arr sz i j = (if i \<le> j \<and> j < sz then arr (Suc j) else arr j)"
proof (induction arr sz i rule: oa_shift_down.induct)
  case (1 arr sz i)
  show ?case
    by (subst oa_shift_down.simps) (auto simp: 1)
qed

lemma oa_list_insert:
  assumes "oa_size oa \<noteq> - 1"
  shows "oa_list (oa_insert lt x oa) = list_insert lt x (oa_list oa)"
proof -
  let ?n = "unat (oa_size oa)" and ?xs = "oa_list oa"
  let ?k = "oa_scan lt (oa_array oa) ?n x 0"
  have k: "?k = length (takeWhile (\<lambda>y. lt y x) ?xs)"
    by (simp add: oa_scan_takeWhile oa_list_def)
  then have kn: "?k \<le> ?n"
    using length_takeWhile_le [of _ ?xs] by simp
  have spec: "list_insert lt x ?xs = take ?k ?xs @ x # drop ?k ?xs"
    unfolding list_insert_def k by (simp add: takeWhile_eq_take [symmetric] dropWhile_eq_drop [symmetric])
  have sz: "unat (oa_size oa + 1) = Suc ?n"
    using assms by (rule unat_u32_Suc)
  have len: "length (oa_list (oa_insert lt x oa)) = Suc ?n"
    by (simp add: oa_insert_def Let_def sz)
  have "oa_list (oa_insert lt x oa) ! j = (take ?k ?xs @ x # drop ?k ?xs) ! j" if "j < Suc ?n" for j
    using that kn sz
    by (auto simp: oa_insert_def Let_def oa_shift_up_nth nth_append nth_Cons' min_def)
  then show ?thesis
    unfolding spec using len kn by (intro nth_equalityI) auto
qed

lemma oa_list_remove:
  assumes "i < unat (oa_size oa)"
  shows "oa_list (oa_remove i oa) = list_remove i (oa_list oa)"
proof -
  have sz: "unat (oa_size oa - 1) = unat (oa_size oa) - 1"
    using assms by (simp add: unat_minus_one unat_gt_0 [symmetric])
  show ?thesis
    using assms
    by (intro nth_equalityI)
       (auto simp: oa_remove_def sz oa_shift_down_nth list_remove_def nth_append)
qed

lemma oa_lookup_Inr [result_simps]:
  "oa_lookup i oa = Inr x \<longleftrightarrow> i < length (oa_list oa) \<and> x = oa_list oa ! i"
  by (auto simp: oa_lookup_def)

lemma mset_list_insert [simp]: "mset (list_insert lt x xs) = add_mset x (mset xs)"
proof -
  have "mset (takeWhile (\<lambda>y. lt y x) xs @ dropWhile (\<lambda>y. lt y x) xs) = mset xs"
    by simp
  then show ?thesis
    by (simp add: list_insert_def del: takeWhile_dropWhile_id)
qed

lemma set_list_insert [simp]: "set (list_insert lt x xs) = insert x (set xs)"
  by (simp only: set_mset_mset [symmetric] mset_list_insert set_mset_add_mset_insert)

lemma mset_list_remove: "i < length xs \<Longrightarrow> mset (list_remove i xs) = mset xs - {#xs ! i#}"
  by (subst (2) id_take_nth_drop [of i xs]) (simp_all add: list_remove_def)


subsection \<open>The contract of the sorter\<close>

locale sorter =
  fixes lt :: "'a \<Rightarrow> 'a \<Rightarrow> bool"
  assumes asym: "lt a b \<Longrightarrow> \<not> lt b a"
    and neg_trans: "\<not> lt a b \<Longrightarrow> \<not> lt b c \<Longrightarrow> \<not> lt a c"
begin

definition ordered :: "'a list \<Rightarrow> bool" where
  "ordered xs = sorted_wrt (\<lambda>a b. \<not> lt b a) xs"

lemma ordered_insert:
  assumes "ordered xs"
  shows "ordered (list_insert lt x xs)"
proof -
  let ?P = "\<lambda>y. lt y x"
  have split: "xs = takeWhile ?P xs @ dropWhile ?P xs"
    by simp
  have srt: "sorted_wrt (\<lambda>a b. \<not> lt b a) (takeWhile ?P xs @ dropWhile ?P xs)"
    using assms by (simp add: ordered_def)
  have before: "\<not> lt x y" if "y \<in> set (takeWhile ?P xs)" for y
    using that by (auto dest: set_takeWhileD asym)
  have after: "\<not> lt y x" if y: "y \<in> set (dropWhile ?P xs)" for y
  proof (cases "dropWhile ?P xs")
    case Nil
    then show ?thesis
      using y by (simp del: dropWhile_eq_Nil_conv)
  next
    case (Cons z zs)
    have z: "\<not> lt z x"
      using Cons by (metis dropWhile_eq_Cons_conv)
    have "y = z \<or> \<not> lt y z"
      using srt y Cons by (auto simp: sorted_wrt_append)
    then show ?thesis
      using z neg_trans by blast
  qed
  from srt [unfolded sorted_wrt_append] before after show ?thesis
    unfolding ordered_def list_insert_def sorted_wrt_append sorted_wrt.simps set_simps ball_simps
    by blast
qed

lemma ordered_remove:
  assumes "ordered xs"
  shows "ordered (list_remove i xs)"
proof (cases "i < length xs")
  case True
  have "sorted_wrt (\<lambda>a b. \<not> lt b a) (take i xs @ xs ! i # drop (Suc i) xs)"
    using assms id_take_nth_drop [OF True] by (simp add: ordered_def)
  then show ?thesis
    by (simp add: ordered_def list_remove_def sorted_wrt_append)
qed (use assms in \<open>simp add: list_remove_def\<close>)

end

interpretation default_sorter: sorter "oa_default_less_than :: u32 \<Rightarrow> u32 \<Rightarrow> bool"
  by unfold_locales (simp_all add: oa_default_less_than_def not_less)

end
