(* ===== verification/Kernel_Heap.thy ===== *)
theory Kernel_Heap
  imports Common_Lib Ordered_Array
begin

text \<open>
  The kernel heap of \<^verbatim>\<open>kheap.hpp\<close> and \<^verbatim>\<open>kheap.cpp\<close>: blocks and holes laid out in
  memory between \<^verbatim>\<open>start_address\<close> and \<^verbatim>\<open>end_address\<close>, each with a header and a
  footer, and an ordered array of the holes.  Headers and footers are read and
  written byte by byte in the memory \<open>h_mem\<close>.  The calls to the virtual memory
  manager are recorded in order in \<open>vm_calls\<close>.
\<close>

subsection \<open>Headers and footers in memory\<close>

definition HEAP_MAGIC :: u32 where "HEAP_MAGIC = 0x123890AB"
definition HEAP_MIN_SIZE :: u32 where "HEAP_MIN_SIZE = 0x70000"
definition HEAP_INDEX_SIZE :: u32 where "HEAP_INDEX_SIZE = 0x20000"

text \<open>\<^verbatim>\<open>struct header { u32 magic; u8 is_hole; u32 size; }\<close>: offsets 0, 4 and 8, 12 bytes.\<close>

definition hdr_magic :: "mem \<Rightarrow> u32 \<Rightarrow> u32" where "hdr_magic m h = load_u32 m h"
definition hdr_is_hole :: "mem \<Rightarrow> u32 \<Rightarrow> u8" where "hdr_is_hole m h = m (h + 4)"
definition hdr_size :: "mem \<Rightarrow> u32 \<Rightarrow> u32" where "hdr_size m h = load_u32 m (h + 8)"
definition set_hdr_magic :: "u32 \<Rightarrow> u32 \<Rightarrow> mem \<Rightarrow> mem" where "set_hdr_magic h v m = store_u32 m h v"
definition set_hdr_is_hole :: "u32 \<Rightarrow> u8 \<Rightarrow> mem \<Rightarrow> mem" where "set_hdr_is_hole h v m = m(h + 4 := v)"
definition set_hdr_size :: "u32 \<Rightarrow> u32 \<Rightarrow> mem \<Rightarrow> mem" where "set_hdr_size h v m = store_u32 m (h + 8) v"

text \<open>\<^verbatim>\<open>struct footer { u32 magic; header* hdr; }\<close>: offsets 0 and 4, 8 bytes.\<close>

definition ftr_magic :: "mem \<Rightarrow> u32 \<Rightarrow> u32" where "ftr_magic m f = load_u32 m f"
definition ftr_hdr :: "mem \<Rightarrow> u32 \<Rightarrow> u32" where "ftr_hdr m f = load_u32 m (f + 4)"
definition set_ftr_magic :: "u32 \<Rightarrow> u32 \<Rightarrow> mem \<Rightarrow> mem" where "set_ftr_magic f v m = store_u32 m f v"
definition set_ftr_hdr :: "u32 \<Rightarrow> u32 \<Rightarrow> mem \<Rightarrow> mem" where "set_ftr_hdr f v m = store_u32 m (f + 4) v"

definition header_less_than :: "mem \<Rightarrow> u32 \<Rightarrow> u32 \<Rightarrow> bool" where
  "header_less_than m a b \<longleftrightarrow> hdr_size m a < hdr_size m b"


subsection \<open>The heap and its operations\<close>

datatype vm_call = VmAllocFrame u32 bool bool | VmFreeFrame u32

record heap =
  h_index :: "u32 ordered_array"
  start_address :: u32
  end_address :: u32
  max_address :: u32
  supervisor :: u8
  readonly :: u8
  h_mem :: mem
  vm_calls :: "vm_call list"

definition heap_index_insert :: "u32 \<Rightarrow> heap \<Rightarrow> heap" where
  "heap_index_insert hdr h = h\<lparr>h_index := oa_insert (header_less_than (h_mem h)) hdr (h_index h)\<rparr>"

definition heap_index_remove :: "nat \<Rightarrow> heap \<Rightarrow> heap" where
  "heap_index_remove i h = h\<lparr>h_index := oa_remove i (h_index h)\<rparr>"

definition heap_mem_update :: "(mem \<Rightarrow> mem) \<Rightarrow> heap \<Rightarrow> heap" where
  "heap_mem_update f h = h\<lparr>h_mem := f (h_mem h)\<rparr>"

text \<open>
  The page loops of \<^verbatim>\<open>expand\<close> and \<^verbatim>\<open>contract\<close>.  A 32-bit counter that wraps while
  the loop condition holds runs through the same values again, so the loop never ends.
\<close>

function expand_loop :: "u32 \<Rightarrow> u32 \<Rightarrow> heap \<Rightarrow> heap result" where
  "expand_loop i new_size h =
    (if i < new_size
     then let h' = h\<lparr>vm_calls := vm_calls h @
                [VmAllocFrame (start_address h + i) (supervisor h \<noteq> 0) (readonly h = 0)]\<rparr>
          in if unat i + 0x1000 < 2 ^ 32 then expand_loop (i + 0x1000) new_size h' else Inl Diverges
     else Inr h)"
  by pat_completeness auto
termination
proof (relation "measure (\<lambda>(i, n, _). unat n - unat i)")
  fix i n :: u32 and h h' :: heap
  assume "i < n" "unat i + 0x1000 < 2 ^ 32"
  then show "((i + 0x1000, n, h'), i, n, h) \<in> measure (\<lambda>(i, n, _). unat n - unat i)"
    by (simp add: unat_add_lem [THEN iffD1] word_less_nat_alt)
qed simp

function contract_loop :: "u32 \<Rightarrow> u32 \<Rightarrow> heap \<Rightarrow> heap result" where
  "contract_loop i new_size h =
    (if new_size < i
     then let h' = h\<lparr>vm_calls := vm_calls h @ [VmFreeFrame (start_address h + i)]\<rparr>
          in if 0x1000 \<le> i then contract_loop (i - 0x1000) new_size h' else Inl Diverges
     else Inr h)"
  by pat_completeness auto
termination
proof (relation "measure (\<lambda>(i, _, _). unat i)")
  fix i n :: u32 and h h' :: heap
  assume "n < i" "0x1000 \<le> i"
  then show "((i - 0x1000, n, h'), i, n, h) \<in> measure (\<lambda>(i, _, _). unat i)"
    by (simp add: unat_sub word_le_nat_alt)
qed simp

definition expand :: "u32 \<Rightarrow> heap \<Rightarrow> heap result" where
  "expand new_size0 h =
    (let old_size = end_address h - start_address h;
         new_size = (if new_size0 AND 0xFFFFF000 \<noteq> 0 then (new_size0 AND 0xFFFFF000) + 0x1000
                     else new_size0)
     in if \<not> old_size < new_size0 then Inl AssertFailed
        else if \<not> start_address h + new_size \<le> max_address h then Inl AssertFailed
        else bind_result (expand_loop old_size new_size h) (\<lambda>h.
          Inr (h\<lparr>end_address := start_address h + new_size\<rparr>)))"

definition contract :: "u32 \<Rightarrow> heap \<Rightarrow> (u32 \<times> heap) result" where
  "contract new_size0 h =
    (let old_size = end_address h - start_address h;
         new_size1 = (if new_size0 AND 0x1000 \<noteq> 0 then (new_size0 AND 0x1000) + 0x1000
                      else new_size0);
         new_size = (if new_size1 < HEAP_MIN_SIZE then HEAP_MIN_SIZE else new_size1)
     in if \<not> new_size0 < old_size then Inl AssertFailed
        else bind_result (contract_loop (old_size - 0x1000) new_size h) (\<lambda>h.
          Inr (new_size, h\<lparr>end_address := start_address h + new_size\<rparr>)))"

declare expand_loop.simps [simp del] contract_loop.simps [simp del]

text \<open>\<^verbatim>\<open>find_smallest_hole\<close>: the result -1 is \<open>None\<close>; the sizes are compared as \<^verbatim>\<open>s32\<close>.\<close>

definition hole_fits :: "mem \<Rightarrow> u32 \<Rightarrow> u8 \<Rightarrow> u32 \<Rightarrow> bool" where
  "hole_fits m sz pa header =
    (if pa > 0
     then let offset = (if (header + 12) AND 0xFFFFF000 \<noteq> 0 then 0x1000 - (header + 12) mod 0x1000
                        else 0)
          in sint sz \<le> sint (hdr_size m header - offset)
     else sz \<le> hdr_size m header)"

function find_hole_from :: "nat \<Rightarrow> u32 \<Rightarrow> u8 \<Rightarrow> heap \<Rightarrow> nat option" where
  "find_hole_from iterator sz pa h =
    (if iterator < unat (oa_size (h_index h))
     then if hole_fits (h_mem h) sz pa (oa_array (h_index h) iterator) then Some iterator
          else find_hole_from (Suc iterator) sz pa h
     else None)"
  by pat_completeness auto
termination by (relation "measure (\<lambda>(it, _, _, h). unat (oa_size (h_index h)) - it)") auto

definition find_smallest_hole :: "u32 \<Rightarrow> u8 \<Rightarrow> heap \<Rightarrow> nat option" where
  "find_smallest_hole sz pa h = find_hole_from 0 sz pa h"

declare find_hole_from.simps [simp del]

text \<open>\<^verbatim>\<open>Heap::create\<close>: \<open>m\<close> and \<open>old\<close> are what the memory and the index area held before;
  28 is \<^verbatim>\<open>sizeof(Heap)\<close>, 4 is \<^verbatim>\<open>sizeof(void*)\<close>.\<close>

definition heap_create :: "mem \<Rightarrow> (nat \<Rightarrow> u32) \<Rightarrow> u32 \<Rightarrow> u32 \<Rightarrow> u32 \<Rightarrow> u8 \<Rightarrow> u8 \<Rightarrow> heap result" where
  "heap_create m old start0 end_addr max_addr svr ro =
    (let start1 = page_align (start0 + 28) in
     if start1 mod 0x1000 \<noteq> 0 then Inl AssertFailed
     else if end_addr mod 0x1000 \<noteq> 0 then Inl AssertFailed
     else
       let index = place_ordered_array 0 old HEAP_INDEX_SIZE;
           start2 = start1 + 4 * HEAP_INDEX_SIZE;
           start = (if start2 AND 0xFFFFF000 \<noteq> 0 then (start2 AND 0xFFFFF000) + 0x1000 else start2);
           h = \<lparr>h_index = index, start_address = start, end_address = end_addr, max_address = max_addr,
                supervisor = svr, readonly = ro, h_mem = m, vm_calls = []\<rparr>;
           h = heap_mem_update (set_hdr_size start (end_addr - start)) h;
           h = heap_mem_update (set_hdr_magic start HEAP_MAGIC) h;
           h = heap_mem_update (set_hdr_is_hole start 1) h
       in Inr (heap_index_insert start h))"

text \<open>
  The branch of \<^verbatim>\<open>Heap::alloc\<close> that grows the heap: the scan for the hole header
  with the highest address (\<^verbatim>\<open>idx\<close> is -1, here \<open>None\<close>, when there is none), and the
  adjustment after \<^verbatim>\<open>expand\<close>.
\<close>

function endmost_from :: "nat \<Rightarrow> nat option \<Rightarrow> u32 \<Rightarrow> u32 ordered_array \<Rightarrow> nat option" where
  "endmost_from iterator idx val oa =
    (if iterator < unat (oa_size oa)
     then if oa_array oa iterator > val
          then endmost_from (Suc iterator) (Some iterator) (oa_array oa iterator) oa
          else endmost_from (Suc iterator) idx val oa
     else idx)"
  by pat_completeness auto
termination by (relation "measure (\<lambda>(it, _, _, oa). unat (oa_size oa) - it)") auto

declare endmost_from.simps [simp del]

definition alloc_grow :: "u32 \<Rightarrow> heap \<Rightarrow> heap result" where
  "alloc_grow new_size h0 =
    (let old_length = end_address h0 - start_address h0;
         old_end_address = end_address h0
     in bind_result (expand (old_length + new_size) h0) (\<lambda>h.
       let new_length = end_address h - start_address h in
       case endmost_from 0 None 0 (h_index h) of
         None \<Rightarrow>
           let header = old_end_address;
               h = heap_mem_update (set_hdr_magic header HEAP_MAGIC) h
           in if \<not> old_length > new_length then Inl AssertFailed
              else
                let h = heap_mem_update (set_hdr_size header (new_length - old_length)) h;
                    h = heap_mem_update (set_hdr_is_hole header 1) h;
                    footer = old_end_address + hdr_size (h_mem h) header - 8;
                    h = heap_mem_update (set_ftr_magic footer HEAP_MAGIC) h;
                    h = heap_mem_update (set_ftr_hdr footer header) h
                in Inr (heap_index_insert header h)
       | Some idx \<Rightarrow>
           bind_result (oa_lookup idx (h_index h)) (\<lambda>header.
             if \<not> new_length > old_length then Inl AssertFailed
             else
               let h = heap_mem_update
                     (set_hdr_size header (hdr_size (h_mem h) header + (new_length - old_length))) h;
                   footer = header + hdr_size (h_mem h) header - 8;
                   h = heap_mem_update (set_ftr_hdr footer header) h;
                   h = heap_mem_update (set_ftr_magic footer HEAP_MAGIC) h
               in Inr h)))"

text \<open>The branch of \<^verbatim>\<open>Heap::alloc\<close> that has found a hole, by its index \<open>iterator\<close>.\<close>

definition alloc_write_block :: "u32 \<Rightarrow> u32 \<Rightarrow> u32 \<Rightarrow> heap \<Rightarrow> heap" where
  "alloc_write_block pos sz new_size h =
    (let h = heap_mem_update (set_hdr_magic pos HEAP_MAGIC) h;
         h = heap_mem_update (set_hdr_is_hole pos 0) h;
         h = heap_mem_update (set_hdr_size pos new_size) h;
         footer = pos + 12 + sz;
         h = heap_mem_update (set_ftr_magic footer HEAP_MAGIC) h
     in heap_mem_update (set_ftr_hdr footer pos) h)"

definition alloc_write_rest :: "u32 \<Rightarrow> u32 \<Rightarrow> u32 \<Rightarrow> u32 \<Rightarrow> heap \<Rightarrow> heap" where
  "alloc_write_rest pos sz new_size hole_size h =
    (if hole_size > new_size
     then let hole_header = pos + 12 + sz + 8;
              h = heap_mem_update (set_hdr_magic hole_header HEAP_MAGIC) h;
              h = heap_mem_update (set_hdr_is_hole hole_header 1) h;
              h = heap_mem_update (set_hdr_size hole_header (hole_size - new_size)) h;
              hole_footer = hole_header + hole_size - new_size - 8;
              h = (if hole_footer < end_address h
                   then heap_mem_update (set_ftr_hdr hole_footer hole_header)
                          (heap_mem_update (set_ftr_magic hole_footer HEAP_MAGIC) h)
                   else h)
          in heap_index_insert hole_header h
     else h)"

definition alloc_from_hole :: "nat \<Rightarrow> u32 \<Rightarrow> u8 \<Rightarrow> heap \<Rightarrow> (u32 \<times> heap) result" where
  "alloc_from_hole iterator size0 pa h =
    bind_result (oa_lookup iterator (h_index h)) (\<lambda>orig_hole_pos.
      let new_size0 = size0 + 12 + 8;
          orig_hole_size = hdr_size (h_mem h) orig_hole_pos
      in if \<not> orig_hole_size \<ge> new_size0 then Inl AssertFailed
         else
           let small = orig_hole_size - new_size0 < 12 + 8;
               sz = (if small then size0 + (orig_hole_size - new_size0) else size0);
               new_size = (if small then orig_hole_size else new_size0)
           in if pa \<noteq> 0 \<and> orig_hole_pos AND 0xFFFFF000 \<noteq> 0
              then
                let new_location = orig_hole_pos + cPageSize - (orig_hole_pos AND 0xFFF) - 12;
                    h = heap_mem_update (set_hdr_size orig_hole_pos
                          (cPageSize - (orig_hole_pos AND 0xFFF) - 12)) h;
                    h = heap_mem_update (set_hdr_magic orig_hole_pos HEAP_MAGIC) h;
                    h = heap_mem_update (set_hdr_is_hole orig_hole_pos 1) h;
                    hole_footer = new_location - 8;
                    h = heap_mem_update (set_ftr_magic hole_footer HEAP_MAGIC) h;
                    h = heap_mem_update (set_ftr_hdr hole_footer orig_hole_pos) h;
                    left = hdr_size (h_mem h) orig_hole_pos
                in if \<not> orig_hole_size > left then Inl AssertFailed
                   else let h = alloc_write_block new_location sz new_size h;
                            h = alloc_write_rest new_location sz new_size (orig_hole_size - left) h
                        in Inr (new_location + 12, h)
              else
                let h = heap_index_remove iterator h;
                    h = alloc_write_block orig_hole_pos sz new_size h;
                    h = alloc_write_rest orig_hole_pos sz new_size orig_hole_size h
                in Inr (orig_hole_pos + 12, h))"

text \<open>\<^verbatim>\<open>Heap::alloc\<close>; \<open>fuel\<close> bounds its recursion, one level per expansion of the heap.\<close>

fun heap_alloc :: "nat \<Rightarrow> u32 \<Rightarrow> u8 \<Rightarrow> heap \<Rightarrow> (u32 \<times> heap) result" where
  "heap_alloc 0 sz pa h = Inl OutOfFuel"
| "heap_alloc (Suc fuel) sz pa h =
    (case find_smallest_hole (sz + 12 + 8) pa h of
       None \<Rightarrow> bind_result (alloc_grow (sz + 12 + 8) h) (heap_alloc fuel sz pa)
     | Some iterator \<Rightarrow> alloc_from_hole iterator sz pa h)"

text \<open>
  \<^verbatim>\<open>Heap::free\<close>, in the steps of the source: merge with the hole on the left, merge
  with the hole on the right, give memory back at the end of the heap, insert
  into the index.  The search loops for a header in the index are \<open>index_search\<close>.
\<close>

function index_search :: "nat \<Rightarrow> u32 \<Rightarrow> u32 ordered_array \<Rightarrow> nat" where
  "index_search iterator header oa =
    (if iterator < unat (oa_size oa) \<and> oa_array oa iterator \<noteq> header
     then index_search (Suc iterator) header oa else iterator)"
  by pat_completeness auto
termination by (relation "measure (\<lambda>(it, _, oa). unat (oa_size oa) - it)") auto

declare index_search.simps [simp del]

definition free_unify_left :: "u32 \<Rightarrow> u32 \<Rightarrow> heap \<Rightarrow> u32 \<times> bool \<times> heap" where
  "free_unify_left header footer h =
    (let test_footer = header - 8 in
     if ftr_magic (h_mem h) test_footer = HEAP_MAGIC
        \<and> hdr_is_hole (h_mem h) (ftr_hdr (h_mem h) test_footer) = 1
     then let cache_size = hdr_size (h_mem h) header;
              header = ftr_hdr (h_mem h) test_footer;
              h = heap_mem_update (set_ftr_hdr footer header) h;
              h = heap_mem_update (set_hdr_size header (hdr_size (h_mem h) header + cache_size)) h
          in (header, False, h)
     else (header, True, h))"

definition free_unify_right :: "u32 \<Rightarrow> u32 \<Rightarrow> heap \<Rightarrow> (u32 \<times> heap) result" where
  "free_unify_right header footer h =
    (let test_header = footer + 8 in
     if hdr_magic (h_mem h) test_header = HEAP_MAGIC \<and> hdr_is_hole (h_mem h) test_header \<noteq> 0
     then let h = heap_mem_update (set_hdr_size header
                    (hdr_size (h_mem h) header + hdr_size (h_mem h) test_header)) h;
              test_footer = test_header + hdr_size (h_mem h) test_header - 8;
              iterator = index_search 0 test_header (h_index h)
          in if \<not> iterator < unat (oa_size (h_index h)) then Inl AssertFailed
             else Inr (test_footer, heap_index_remove iterator h)
     else Inr (footer, h))"

definition free_contract :: "u32 \<Rightarrow> u32 \<Rightarrow> u32 \<Rightarrow> heap \<Rightarrow> heap result" where
  "free_contract header footer test_header h =
    (if footer + 8 = end_address h
     then let old_length = end_address h - start_address h in
       bind_result (contract (header - start_address h) h) (\<lambda>(new_length, h).
         if hdr_size (h_mem h) header - (old_length - new_length) > 0
         then let h = heap_mem_update (set_hdr_size header
                        (hdr_size (h_mem h) header - (old_length - new_length))) h;
                  footer = header + hdr_size (h_mem h) header - 8;
                  h = heap_mem_update (set_ftr_magic footer HEAP_MAGIC) h
              in Inr (heap_mem_update (set_ftr_hdr footer header) h)
         else let iterator = index_search 0 test_header (h_index h)
              in if iterator < unat (oa_size (h_index h)) then Inr (heap_index_remove iterator h)
                 else Inr h)
     else Inr h)"

definition heap_free :: "u32 \<Rightarrow> heap \<Rightarrow> heap result" where
  "heap_free p h =
    (if p = 0 then Inr h
     else
       let header = p - 12;
           footer = header + hdr_size (h_mem h) header - 8
       in if hdr_magic (h_mem h) header \<noteq> HEAP_MAGIC then Inl AssertFailed
          else if ftr_magic (h_mem h) footer \<noteq> HEAP_MAGIC then Inl AssertFailed
          else
            let h = heap_mem_update (set_hdr_is_hole header 1) h;
                (header, do_add, h) = free_unify_left header footer h;
                test_header = footer + 8
            in bind_result (free_unify_right header footer h) (\<lambda>(footer, h).
               bind_result (free_contract header footer test_header h) (\<lambda>h.
               Inr (if do_add then heap_index_insert header h else h))))"

text \<open>
  The entry points.  \<open>phys_of\<close> is what \<^verbatim>\<open>vmem.get_kernel_page\<close> gives for an address:
  the physical frame number of its page.
\<close>

definition kmalloc_int :: "nat \<Rightarrow> u32 \<Rightarrow> bool \<Rightarrow> (u32 \<Rightarrow> u32) \<Rightarrow> heap \<Rightarrow> (u32 \<times> u32 \<times> heap) result" where
  "kmalloc_int fuel sz0 aligned phys_of h =
    (let sz = (if aligned \<and> sz0 < 0x1000 then 0x1000 else sz0) in
     bind_result (heap_alloc fuel sz (if aligned then 1 else 0) h) (\<lambda>(addr, h).
       Inr (addr, phys_of addr * 0x1000 + (addr AND 0xFFF), h)))"

definition krealloc_vp :: "nat \<Rightarrow> u32 \<Rightarrow> u32 \<Rightarrow> heap \<Rightarrow> (u32 \<times> heap) result" where
  "krealloc_vp fuel ptr sz h =
    bind_result (heap_alloc fuel sz 0 h) (\<lambda>(new_ptr, h).
      Inr (new_ptr, heap_mem_update (memcpy new_ptr ptr (unat sz)) h))"

end
