(* ===== verification/Heap_Layout.thy ===== *)
theory Heap_Layout
  imports Kernel_Heap
begin

text \<open>
  The shape of a well-formed kernel heap: which bytes an update of a header or a
  footer touches, the heap as a sequence of chunks that tile the memory between
  \<^verbatim>\<open>start_address\<close> and \<^verbatim>\<open>end_address\<close>, the invariant \<open>heap_inv\<close> that ties that
  sequence to memory and to the index of holes, and that a fresh heap satisfies it.
\<close>

subsection \<open>Frames of header and footer updates\<close>

lemma same_outside_hdr:
  assumes "lo \<le> a" "a + 12 \<le> hi" "a + 12 \<le> 2 ^ 32"
  shows "same_outside lo hi (set_hdr_magic (adr a) v m) m"
    "same_outside lo hi (set_hdr_is_hole (adr a) b m) m"
    "same_outside lo hi (set_hdr_size (adr a) v m) m"
  using assms
  by (auto simp: same_outside_def set_hdr_magic_def set_hdr_is_hole_def set_hdr_size_def addr_plus
      intro!: agree_store agree_upd)

lemma same_outside_ftr:
  assumes "lo \<le> f" "f + 8 \<le> hi" "f + 8 \<le> 2 ^ 32"
  shows "same_outside lo hi (set_ftr_magic (adr f) v m) m"
    "same_outside lo hi (set_ftr_hdr (adr f) v m) m"
  using assms
  by (auto simp: same_outside_def set_ftr_magic_def set_ftr_hdr_def addr_plus intro!: agree_store)

definition hdr_at :: "mem \<Rightarrow> nat \<Rightarrow> u8 \<Rightarrow> nat \<Rightarrow> bool" where
  "hdr_at m a hole sz \<longleftrightarrow> hdr_magic m (adr a) = HEAP_MAGIC
     \<and> hdr_is_hole m (adr a) = hole \<and> hdr_size m (adr a) = adr sz"

definition ftr_at :: "mem \<Rightarrow> nat \<Rightarrow> nat \<Rightarrow> bool" where
  "ftr_at m f a \<longleftrightarrow> ftr_magic m (adr f) = HEAP_MAGIC \<and> ftr_hdr m (adr f) = adr a"

lemma hdr_at_agree:
  assumes "agree lo hi m m'" "lo \<le> a" "a + 12 \<le> hi"
  shows "hdr_at m a hole sz \<longleftrightarrow> hdr_at m' a hole sz"
proof -
  have "m (adr (a + 4)) = m' (adr (a + 4))"
    using assms by (simp add: agree_def)
  then show ?thesis
    using load_agree [OF assms(1), of a] load_agree [OF assms(1), of "a + 8"] assms
    by (simp add: hdr_at_def hdr_magic_def hdr_is_hole_def hdr_size_def addr_plus)
qed

lemma ftr_at_agree:
  assumes "agree lo hi m m'" "lo \<le> f" "f + 8 \<le> hi"
  shows "ftr_at m f a \<longleftrightarrow> ftr_at m' f a"
  using load_agree [OF assms(1), of f] load_agree [OF assms(1), of "f + 4"] assms
  by (simp add: ftr_at_def ftr_magic_def ftr_hdr_def addr_plus)

lemmas hdr_defs = hdr_magic_def hdr_is_hole_def hdr_size_def set_hdr_magic_def
  set_hdr_is_hole_def set_hdr_size_def ftr_magic_def ftr_hdr_def set_ftr_magic_def set_ftr_hdr_def

lemma hdr_at_write:
  assumes "a + 12 \<le> 2 ^ 32"
  shows "hdr_at (set_hdr_size (adr a) (adr sz)
    (set_hdr_is_hole (adr a) hole (set_hdr_magic (adr a) HEAP_MAGIC m))) a hole sz"
  using assms by (simp add: hdr_at_def hdr_defs addr_plus mem_simps)

lemma ftr_at_write:
  assumes "f + 8 \<le> 2 ^ 32"
  shows "ftr_at (set_ftr_hdr (adr f) (adr a) (set_ftr_magic (adr f) HEAP_MAGIC m)) f a"
  using assms by (simp add: ftr_at_def hdr_defs addr_plus mem_simps)

subsection \<open>The layout of the heap\<close>

text \<open>
  The heap as a sequence of chunks.  A hole carries a flag: whether its last
  eight bytes are a footer that points back to its header.
\<close>

datatype chunk = Block nat | Hole nat bool

fun csize :: "chunk \<Rightarrow> nat" where
  "csize (Block s) = s"
| "csize (Hole s _) = s"

fun is_hole_byte :: "chunk \<Rightarrow> u8" where
  "is_hole_byte (Block _) = 0"
| "is_hole_byte (Hole _ _) = 1"

fun has_footer :: "chunk \<Rightarrow> bool" where
  "has_footer (Block _) = True"
| "has_footer (Hole _ f) = f"

definition csizes :: "chunk list \<Rightarrow> nat" where
  "csizes cs = sum_list (map csize cs)"

definition chunk_ok :: "mem \<Rightarrow> nat \<Rightarrow> chunk \<Rightarrow> bool" where
  "chunk_ok m a c \<longleftrightarrow> 20 \<le> csize c \<and> hdr_at m a (is_hole_byte c) (csize c)
     \<and> (has_footer c \<longrightarrow> ftr_at m (a + csize c - 8) a)"

fun chunks_ok :: "mem \<Rightarrow> nat \<Rightarrow> chunk list \<Rightarrow> bool" where
  "chunks_ok m a [] = True"
| "chunks_ok m a (c # cs) = (chunk_ok m a c \<and> chunks_ok m (a + csize c) cs)"

fun hole_addrs :: "nat \<Rightarrow> chunk list \<Rightarrow> nat list" where
  "hole_addrs a [] = []"
| "hole_addrs a (Block s # cs) = hole_addrs (a + s) cs"
| "hole_addrs a (Hole s f # cs) = a # hole_addrs (a + s) cs"

definition heap_inv :: "chunk list \<Rightarrow> heap \<Rightarrow> bool" where
  "heap_inv cs h \<longleftrightarrow>
     chunks_ok (h_mem h) (unat (start_address h)) cs
     \<and> unat (start_address h) + csizes cs = unat (end_address h)
     \<and> mset (oa_list (h_index h)) = mset (map adr (hole_addrs (unat (start_address h)) cs))
     \<and> 8 \<le> unat (start_address h)
     \<and> ftr_magic (h_mem h) (start_address h - 8) \<noteq> HEAP_MAGIC"

lemma csizes_simps [simp]:
  "csizes [] = 0" "csizes (c # cs) = csize c + csizes cs" "csizes (cs @ ds) = csizes cs + csizes ds"
  by (simp_all add: csizes_def)

lemma chunks_ok_append [simp]:
  "chunks_ok m a (cs @ ds) \<longleftrightarrow> chunks_ok m a cs \<and> chunks_ok m (a + csizes cs) ds"
  by (induction cs arbitrary: a) (auto simp: add.assoc)

lemma hole_addrs_append [simp]:
  "hole_addrs a (cs @ ds) = hole_addrs a cs @ hole_addrs (a + csizes cs) ds"
  by (induction a cs rule: hole_addrs.induct) (auto simp: add.assoc)

lemma chunk_ok_agree:
  assumes "agree a (a + csize c) m m'"
  shows "chunk_ok m a c \<longleftrightarrow> chunk_ok m' a c"
  unfolding chunk_ok_def
  using hdr_at_agree [OF assms] ftr_at_agree [OF assms, of "a + csize c - 8"]
  by (cases "20 \<le> csize c") auto

lemma chunks_ok_agree:
  "agree a (a + csizes cs) m m' \<Longrightarrow> chunks_ok m a cs \<longleftrightarrow> chunks_ok m' a cs"
proof (induction cs arbitrary: a)
  case (Cons c cs)
  have "agree a (a + csize c) m m'" "agree (a + csize c) (a + csize c + csizes cs) m m'"
    using Cons.prems by (auto elim: agree_mono)
  then show ?case
    using Cons.IH chunk_ok_agree by simp
qed simp

lemma hole_addrs_split:
  assumes "x \<in> set (hole_addrs a cs)"
  shows "\<exists>pre s f post. cs = pre @ Hole s f # post \<and> x = a + csizes pre"
  using assms
proof (induction a cs rule: hole_addrs.induct)
  case (2 a s cs)
  then obtain pre s' f post where "cs = pre @ Hole s' f # post" "x = a + s + csizes pre"
    by auto
  then show ?case
    by (intro exI [of _ "Block s # pre"]) auto
next
  case (3 a s g cs)
  show ?case
  proof (cases "x = a")
    case True
    then show ?thesis
      by (intro exI [of _ "[]"]) auto
  next
    case False
    then obtain pre s' f post where "cs = pre @ Hole s' f # post" "x = a + s + csizes pre"
      using 3 by auto
    then show ?thesis
      by (intro exI [of _ "Hole s g # pre"]) auto
  qed
qed simp

lemma chunks_ok_same_outside:
  "same_outside lo hi m' m \<Longrightarrow> st + csizes cs \<le> lo \<or> hi \<le> st \<Longrightarrow> st + csizes cs \<le> 2 ^ 32
    \<Longrightarrow> chunks_ok m' st cs \<longleftrightarrow> chunks_ok m st cs"
  by (intro chunks_ok_agree same_outside_agree) auto

subsection \<open>The heap record\<close>

lemma heap_mem_update_simps [simp]:
  "h_mem (heap_mem_update f h) = f (h_mem h)" "h_index (heap_mem_update f h) = h_index h"
  "start_address (heap_mem_update f h) = start_address h"
  "end_address (heap_mem_update f h) = end_address h"
  "heap_mem_update f (heap_mem_update g h) = heap_mem_update (\<lambda>m. f (g m)) h"
  by (simp_all add: heap_mem_update_def)

lemma heap_index_simps [simp]:
  "h_mem (heap_index_insert x h) = h_mem h" "h_mem (heap_index_remove i h) = h_mem h"
  "start_address (heap_index_insert x h) = start_address h"
  "start_address (heap_index_remove i h) = start_address h"
  "end_address (heap_index_insert x h) = end_address h"
  "end_address (heap_index_remove i h) = end_address h"
  "h_index (heap_index_insert x h) = oa_insert (header_less_than (h_mem h)) x (h_index h)"
  "h_index (heap_index_remove i h) = oa_remove i (h_index h)"
  by (simp_all add: heap_index_insert_def heap_index_remove_def)

subsection \<open>Keeping the invariant\<close>

text \<open>Replacing one chunk of a well-formed heap, with memory changed only inside it.\<close>

lemma chunks_ok_replace:
  assumes "chunks_ok m st (pre @ c # post)" "chunks_ok m' (st + csizes pre) new"
    "csizes new = csize c" "st + csizes pre + csize c + csizes post < 2 ^ 32"
    "same_outside (st + csizes pre) (st + csizes pre + csize c) m' m"
  shows "chunks_ok m' st (pre @ new @ post)"
proof -
  have "chunks_ok m' st pre \<longleftrightarrow> chunks_ok m st pre"
    using assms by (intro chunks_ok_agree same_outside_agree) auto
  moreover have "chunks_ok m' (st + csizes pre + csize c) post
      \<longleftrightarrow> chunks_ok m (st + csizes pre + csize c) post"
    using assms by (intro chunks_ok_agree same_outside_agree) auto
  ultimately show ?thesis
    using assms by (simp add: add.assoc)
qed

lemma heap_inv_replace:
  assumes inv: "heap_inv (pre @ c # post) h"
    and same: "start_address h' = start_address h" "end_address h' = end_address h"
    and a: "a = unat (start_address h) + csizes pre"
    and new: "chunks_ok (h_mem h') a new" "csizes new = csize c"
    and mem: "same_outside a (a + csize c) (h_mem h') (h_mem h)"
    and idx: "mset (oa_list (h_index h')) = mset (map adr (hole_addrs (unat (start_address h)) (pre @ new @ post)))"
  shows "heap_inv (pre @ new @ post) h'"
proof -
  let ?st = "unat (start_address h)"
  have tot: "?st + csizes pre + csize c + csizes post = unat (end_address h)" and st: "8 \<le> ?st"
    using inv by (auto simp: heap_inv_def)
  have bound: "unat (end_address h) < 2 ^ 32"
    by (rule unat_u32_lt)
  have "chunks_ok (h_mem h') ?st (pre @ new @ post)"
    using inv new mem tot bound unfolding a by (intro chunks_ok_replace) (auto simp: heap_inv_def)
  moreover have "start_address h - 8 = adr (?st - 8)"
    using st by (metis addr_minus(1) addr_unat)
  then have "ftr_magic (h_mem h') (start_address h - 8) = ftr_magic (h_mem h) (start_address h - 8)"
    using mem st tot bound unfolding a ftr_magic_def
    by (auto intro!: load_agree [OF same_outside_agree [OF mem [unfolded a]], of "?st" "?st - 8"])
  ultimately show ?thesis
    using inv new tot idx same unfolding heap_inv_def by simp
qed

lemma edge_kept:
  assumes "same_outside b e m' m" "8 \<le> st" "st \<le> b" "b < 2 ^ 32" "ftr_magic m (adr (st - 8)) \<noteq> HEAP_MAGIC"
  shows "ftr_magic m' (adr (st - 8)) \<noteq> HEAP_MAGIC"
  using assms load_agree [OF same_outside_agree [OF assms(1)], of st "st - 8" "st - 8"]
  by (auto simp: ftr_magic_def)

subsection \<open>A fresh heap\<close>

lemma heap_create_inv:
  assumes run: "heap_create m old start0 e mx sv ro = Inr h"
    and st: "8 \<le> unat (start_address h)" "unat (start_address h) + 20 \<le> unat e"
    and edge: "ftr_magic m (start_address h - 8) \<noteq> HEAP_MAGIC"
  shows "heap_inv [Hole (unat e - unat (start_address h)) False] h"
proof -
  define st where "st = unat (start_address h)"
  have a: "start_address h = adr st"
    by (simp add: st_def)
  have bound: "unat e < 2 ^ 32"
    by (rule unat_u32_lt)
  have size: "e - start_address h = adr (unat e - st)"
    using st unfolding a by (metis addr_minus(2) addr_unat a add_leD1 st_def)
  obtain mx' where h: "h = heap_index_insert (adr st) \<lparr>h_index = place_ordered_array 0 old HEAP_INDEX_SIZE,
      start_address = adr st, end_address = e, max_address = mx', supervisor = sv, readonly = ro,
      h_mem = set_hdr_is_hole (adr st) 1 (set_hdr_magic (adr st) HEAP_MAGIC
        (set_hdr_size (adr st) (adr (unat e - st)) m)), vm_calls = []\<rparr>"
    using run size a
    by (auto simp: heap_create_def Let_def heap_mem_update_def heap_index_insert_def split: if_splits)
  have m: "h_mem h = set_hdr_is_hole (adr st) 1 (set_hdr_magic (adr st) HEAP_MAGIC
        (set_hdr_size (adr st) (adr (unat e - st)) m))"
    by (simp add: h)
  have b12: "st + 12 \<le> 2 ^ 32"
    using st bound by (simp add: st_def)
  then have "hdr_at (h_mem h) st 1 (unat e - st)"
    unfolding m by (simp add: hdr_at_def hdr_defs addr_plus mem_simps)
  moreover have "same_outside st (st + 12) (h_mem h) m"
    unfolding m using b12
    by (intro same_outside_trans [OF same_outside_hdr(2)] same_outside_trans [OF same_outside_hdr(1)]
        same_outside_hdr(3)) auto
  moreover have "oa_size (place_ordered_array 0 old HEAP_INDEX_SIZE :: u32 ordered_array) \<noteq> - 1"
    by (simp add: place_ordered_array_def)
  then have "oa_list (h_index h) = [adr st]"
    by (simp add: h oa_list_insert list_insert_def)
  moreover have "end_address h = e"
    by (simp add: h)
  moreover have st': "8 \<le> st" "st + 20 \<le> unat e"
    using st by (simp_all only: st_def [symmetric])
  moreover have "ftr_magic m (adr (st - 8)) \<noteq> HEAP_MAGIC"
    using edge st' by (simp add: a addr_minus)
  ultimately show ?thesis
    using edge_kept [of st "st + 12" "h_mem h" m st] bound
    by (auto simp: heap_inv_def chunk_ok_def a addr_minus)
qed


lemma no_magic_in_zeros: "ftr_magic (\<lambda>_. 0) a \<noteq> HEAP_MAGIC"
proof -
  have "load_u32 (\<lambda>_. 0) a = 0"
    by (rule bit_word_eqI) (simp add: load_u32_def bit_simps)
  then show ?thesis
    by (simp add: ftr_magic_def HEAP_MAGIC_def)
qed

lemma boot_heap:
  "\<exists>h. heap_create (\<lambda>_. 0) (\<lambda>_. 0) 0xC0000000 0xC0100000 0xCFFFF000 0 0 = Inr h
    \<and> heap_inv [Hole 0x7E000 False] h"
proof -
  have r: "page_align 0xC000001C = 0xC0001000"
    by (simp add: page_align_def cPageSize_def cPageMask_def)
  obtain h where h: "heap_create (\<lambda>_. 0) (\<lambda>_. 0) 0xC0000000 0xC0100000 0xCFFFF000 0 0 = Inr h"
    "start_address h = 0xC0082000"
    by (simp add: heap_create_def r Let_def HEAP_INDEX_SIZE_def)
  then have "heap_inv [Hole (unat (0xC0100000 :: u32) - unat (start_address h)) False] h"
    using no_magic_in_zeros by (intro heap_create_inv) simp_all
  then show ?thesis
    using h by auto
qed

end
