(* ===== verification/Heap_Alloc.thy ===== *)
theory Heap_Alloc
  imports Heap_Layout
begin

text \<open>
  Correctness of \<^verbatim>\<open>Heap::alloc\<close> on the path that finds a hole: the hole found is the
  first that fits, carving it up keeps the invariant, and the memory handed out
  is disjoint from every block in use.
\<close>

subsection \<open>Finding a hole\<close>

lemma find_hole_from_hit:
  "it < unat (oa_size (h_index h)) \<Longrightarrow> hole_fits (h_mem h) sz pa (oa_array (h_index h) it)
    \<Longrightarrow> find_hole_from it sz pa h = Some it"
  by (subst find_hole_from.simps) simp

lemma find_hole_from_miss:
  "it < unat (oa_size (h_index h)) \<Longrightarrow> \<not> hole_fits (h_mem h) sz pa (oa_array (h_index h) it)
    \<Longrightarrow> find_hole_from it sz pa h = find_hole_from (Suc it) sz pa h"
  by (subst find_hole_from.simps) simp

lemma find_hole_from_end: "\<not> it < unat (oa_size (h_index h)) \<Longrightarrow> find_hole_from it sz pa h = None"
  by (subst find_hole_from.simps) simp

lemma find_hole_from_correct:
  "case find_hole_from it sz pa h of
     None \<Rightarrow> \<forall>j \<ge> it. j < unat (oa_size (h_index h)) \<longrightarrow> \<not> hole_fits (h_mem h) sz pa (oa_array (h_index h) j)
   | Some i \<Rightarrow> it \<le> i \<and> i < unat (oa_size (h_index h))
       \<and> hole_fits (h_mem h) sz pa (oa_array (h_index h) i)
       \<and> (\<forall>j \<ge> it. j < i \<longrightarrow> \<not> hole_fits (h_mem h) sz pa (oa_array (h_index h) j))"
  (is "case _ of None \<Rightarrow> ?N it | Some i \<Rightarrow> ?S it i")
proof (induction "unat (oa_size (h_index h)) - it" arbitrary: it)
  case 0
  then show ?case
    by (simp add: find_hole_from_end)
next
  case (Suc d)
  then have it: "it < unat (oa_size (h_index h))" and d: "d = unat (oa_size (h_index h)) - Suc it"
    by simp_all
  show ?case
  proof (cases "hole_fits (h_mem h) sz pa (oa_array (h_index h) it)")
    case True
    then show ?thesis
      using it by (simp add: find_hole_from_hit)
  next
    case False
    have ge: "it \<le> j \<longleftrightarrow> j = it \<or> Suc it \<le> j" for j
      by auto
    show ?thesis
      using Suc.hyps(1) [OF d] False it unfolding find_hole_from_miss [OF it False]
      by (auto simp: ge split: option.splits)
  qed
qed

lemma find_smallest_hole_Some:
  assumes "find_smallest_hole sz pa h = Some i"
  shows "i < length (oa_list (h_index h))" "hole_fits (h_mem h) sz pa (oa_list (h_index h) ! i)"
    "\<And>j. j < i \<Longrightarrow> \<not> hole_fits (h_mem h) sz pa (oa_list (h_index h) ! j)"
  using find_hole_from_correct [where it = 0 and sz = sz and pa = pa and h = h] assms by (auto simp: find_smallest_hole_def)

lemma find_smallest_hole_None:
  assumes "find_smallest_hole sz pa h = None" "x \<in> set (oa_list (h_index h))"
  shows "\<not> hole_fits (h_mem h) sz pa x"
  using find_hole_from_correct [where it = 0 and sz = sz and pa = pa and h = h] assms
  by (auto simp: find_smallest_hole_def in_set_conv_nth)

subsection \<open>Allocation\<close>

text \<open>What becomes of a hole of \<open>s\<close> bytes from which \<open>n\<close> bytes are taken.\<close>

definition carve :: "nat \<Rightarrow> nat \<Rightarrow> chunk list" where
  "carve n s = (if s - n < 20 then [Block s] else [Block n, Hole (s - n) True])"

lemma csizes_carve: "n \<le> s \<Longrightarrow> csizes (carve n s) = s"
  by (simp add: carve_def)

lemma write_block_spec:
  assumes "20 \<le> s" "a + s \<le> 2 ^ 32" "unat sz + 20 = s"
  shows "chunk_ok (h_mem (alloc_write_block (adr a) sz (adr s) h)) a (Block s)"
    "same_outside a (a + s) (h_mem (alloc_write_block (adr a) sz (adr s) h)) (h_mem h)"
    "h_index (alloc_write_block (adr a) sz (adr s) h) = h_index h"
    "start_address (alloc_write_block (adr a) sz (adr s) h) = start_address h"
    "end_address (alloc_write_block (adr a) sz (adr s) h) = end_address h"
proof -
  let ?m1 = "set_hdr_size (adr a) (adr s) (set_hdr_is_hole (adr a) 0 (set_hdr_magic (adr a) HEAP_MAGIC (h_mem h)))"
  let ?f = "adr (a + s - 8)"
  have "sz = adr (s - 20)"
    using assms(3) by (metis add_diff_cancel_right' addr_unat)
  then have foot: "adr a + 12 + sz = ?f"
    using assms by (simp add: addr_simps add.commute)
  have m: "h_mem (alloc_write_block (adr a) sz (adr s) h) =
      set_ftr_hdr ?f (adr a) (set_ftr_magic ?f HEAP_MAGIC ?m1)" (is "_ = ?m2")
    by (simp add: alloc_write_block_def Let_def foot)
  have "agree a (a + 12) ?m2 ?m1"
    using assms by (intro same_outside_agree [of "a + s - 8" "a + s"] same_outside_trans
      [OF same_outside_ftr(2) same_outside_ftr(1)]) auto
  moreover have "hdr_at ?m1 a 0 s"
    using assms by (intro hdr_at_write) auto
  moreover have "ftr_at ?m2 (a + s - 8) a"
    using assms by (intro ftr_at_write) auto
  ultimately show "chunk_ok (h_mem (alloc_write_block (adr a) sz (adr s) h)) a (Block s)"
    using assms by (simp add: m chunk_ok_def hdr_at_agree [of a "a + 12" ?m2 ?m1])
  show "same_outside a (a + s) (h_mem (alloc_write_block (adr a) sz (adr s) h)) (h_mem h)"
    unfolding m using assms
    by (intro same_outside_trans [OF same_outside_ftr(2)] same_outside_trans [OF same_outside_ftr(1)]
      same_outside_trans [OF same_outside_hdr(3)] same_outside_trans [OF same_outside_hdr(2)]
      same_outside_hdr(1)) auto
qed (simp_all add: alloc_write_block_def Let_def)

lemma write_rest_spec:
  assumes "20 \<le> r" "a + n + r \<le> unat (end_address h)" "unat sz + 20 = n"
    "oa_size (h_index h) \<noteq> - 1"
  defines "h' \<equiv> alloc_write_rest (adr a) sz (adr n) (adr (n + r)) h"
  shows "chunk_ok (h_mem h') (a + n) (Hole r True)"
    "same_outside (a + n) (a + n + r) (h_mem h') (h_mem h)"
    "mset (oa_list (h_index h')) = add_mset (adr (a + n)) (mset (oa_list (h_index h)))"
    "start_address h' = start_address h" "end_address h' = end_address h"
proof -
  let ?b = "adr (a + n)" and ?f = "adr (a + n + r - 8)"
  let ?m1 = "set_hdr_size ?b (adr r) (set_hdr_is_hole ?b 1 (set_hdr_magic ?b HEAP_MAGIC (h_mem h)))"
  let ?m2 = "set_ftr_hdr ?f ?b (set_ftr_magic ?f HEAP_MAGIC ?m1)"
  have bound: "unat (end_address h) < 2 ^ 32"
    by (rule unat_u32_lt)
  have sz: "sz = adr (n - 20)"
    using assms(3) by (metis add_diff_cancel_right' addr_unat)
  have "a + 12 + (n - 20) + 8 = a + n" "a + n + (n + r) - n - 8 = a + n + r - 8"
    using assms(1,3) by simp_all
  then have b: "adr a + 12 + sz + 8 = ?b" and f: "?b + adr (n + r) - adr n - 8 = ?f"
    using assms(1) by (simp_all only: sz addr_plus) (simp add: addr_simps)
  have gt: "adr (n + r) > adr n" "adr (n + r) - adr n = adr r" "?f < end_address h"
    using assms(1,2) bound by (simp_all add: addr_simps word_less_nat_alt)
  have h': "h' = heap_index_insert ?b (heap_mem_update (\<lambda>m. set_ftr_hdr ?f ?b (set_ftr_magic ?f HEAP_MAGIC
      (set_hdr_size ?b (adr r) (set_hdr_is_hole ?b 1 (set_hdr_magic ?b HEAP_MAGIC m))))) h)"
    unfolding h'_def alloc_write_rest_def Let_def b f using gt by simp
  have m: "h_mem h' = ?m2"
    by (simp add: h')
  have "agree (a + n) (a + n + 12) ?m2 ?m1"
    using assms(1,2) bound by (intro same_outside_agree [of "a + n + r - 8" "a + n + r"] same_outside_trans
      [OF same_outside_ftr(2) same_outside_ftr(1)]) auto
  moreover have "hdr_at ?m1 (a + n) 1 r" "ftr_at ?m2 (a + n + r - 8) (a + n)"
    using assms(1,2) bound by (auto intro!: hdr_at_write ftr_at_write)
  ultimately show "chunk_ok (h_mem h') (a + n) (Hole r True)"
    using assms(1) by (simp add: m chunk_ok_def hdr_at_agree [of "a + n" "a + n + 12" ?m2 ?m1])
  show "same_outside (a + n) (a + n + r) (h_mem h') (h_mem h)"
    unfolding m using assms(1,2) bound
    by (intro same_outside_trans [OF same_outside_ftr(2)] same_outside_trans [OF same_outside_ftr(1)]
      same_outside_trans [OF same_outside_hdr(3)] same_outside_trans [OF same_outside_hdr(2)]
      same_outside_hdr(1)) auto
  show "mset (oa_list (h_index h')) = add_mset ?b (mset (oa_list (h_index h)))"
    using assms(4) by (simp add: h' oa_list_insert)
qed (simp_all add: h'_def alloc_write_rest_def Let_def)

lemma index_remove_spec:
  assumes "i < length (oa_list (h_index h))"
  shows "mset (oa_list (h_index (heap_index_remove i h))) = mset (oa_list (h_index h)) - {#oa_list (h_index h) ! i#}"
    "oa_size (h_index (heap_index_remove i h)) \<noteq> - 1"
proof -
  have pos: "0 < unat (oa_size (h_index h))"
    using assms by simp
  show "mset (oa_list (h_index (heap_index_remove i h))) = mset (oa_list (h_index h)) - {#oa_list (h_index h) ! i#}"
    using assms by (simp add: oa_list_remove mset_list_remove)
  have "oa_size (h_index (heap_index_remove i h)) = oa_size (h_index h) - 1"
    by (simp add: oa_remove_def)
  then show "oa_size (h_index (heap_index_remove i h)) \<noteq> - 1"
    using pos by auto
qed

text \<open>
  The heart of allocation: taking \<open>unat sz + 20\<close> bytes from the hole \<open>c = Hole s f\<close>
  leaves a well-formed heap in which the hole is carved up, and changes memory
  only inside that hole.
\<close>

lemma alloc_from_hole_correct:
  assumes inv: "heap_inv (pre @ Hole s f # post) h"
    and a: "a = unat (start_address h) + csizes pre"
    and i: "i < length (oa_list (h_index h))" "oa_list (h_index h) ! i = adr a"
    and fits: "unat sz + 20 \<le> s"
  shows "\<exists>h'. alloc_from_hole i sz 0 h = Inr (adr (a + 12), h')
    \<and> heap_inv (pre @ carve (unat sz + 20) s @ post) h'
    \<and> same_outside a (a + s) (h_mem h') (h_mem h)
    \<and> start_address h' = start_address h \<and> end_address h' = end_address h"
proof -
  let ?n = "unat sz + 20" and ?st = "unat (start_address h)"
  let ?h1 = "heap_index_remove i h"
  let ?sz = "if s - ?n < 20 then adr (s - 20) else sz"
  let ?ns = "if s - ?n < 20 then s else ?n"
  let ?h2 = "alloc_write_block (adr a) ?sz (adr ?ns) ?h1"
  let ?h3 = "alloc_write_rest (adr a) ?sz (adr ?ns) (adr s) ?h2"
  have bound: "unat (end_address h) < 2 ^ 32"
    by (rule unat_u32_lt)
  have tot: "a + s + csizes post = unat (end_address h)" and ok: "chunk_ok (h_mem h) a (Hole s f)"
    using inv by (auto simp: heap_inv_def a)
  have s: "s < 2 ^ 32" "hdr_size (h_mem h) (adr a) = adr s"
    using tot bound ok by (auto simp: chunk_ok_def hdr_at_def)
  have n: "sz + 12 + 8 = adr ?n"
    by (simp add: adr_def)
  have cmp: "adr ?n \<le> adr s" "adr s - adr ?n = adr (s - ?n)"
    "adr (s - ?n) < 12 + 8 \<longleftrightarrow> s - ?n < 20"
    "sz + adr (s - ?n) = adr (s - 20)"
    using fits s(1) by (auto simp: addr_simps word_less_nat_alt) (simp add: adr_def of_nat_diff)
  have run: "alloc_from_hole i sz 0 h = Inr (adr (a + 12), ?h3)"
    using i n cmp s fits by (simp add: alloc_from_hole_def oa_lookup_def Let_def addr_plus)
  have sz: "unat ?sz + 20 = ?ns"
    using fits s(1) by auto
  have blk: "chunk_ok (h_mem ?h2) a (Block ?ns)" "same_outside a (a + ?ns) (h_mem ?h2) (h_mem h)"
    "h_index ?h2 = h_index ?h1" "start_address ?h2 = start_address h" "end_address ?h2 = end_address h"
    using write_block_spec [of ?ns a ?sz ?h1] sz fits tot bound by auto
  have hs: "hole_addrs ?st (pre @ Hole s f # post) = hole_addrs ?st pre @ a # hole_addrs (a + s) post"
    by (simp add: a)
  have idx1: "mset (oa_list (h_index ?h1)) = mset (map adr (hole_addrs ?st pre @ hole_addrs (a + s) post))"
    using index_remove_spec(1) [OF i(1)] inv hs i(2) by (simp add: heap_inv_def)
  show ?thesis
  proof (cases "s - ?n < 20")
    case True
    then have h3: "?h3 = ?h2"
      by (simp add: alloc_write_rest_def)
    have "heap_inv (pre @ [Block s] @ post) ?h2"
      by (rule heap_inv_replace [OF inv _ _ a]) (use True blk idx1 a in auto)
    then show ?thesis
      using run blk True h3 by (auto simp: carve_def)
  next
    case False
    let ?r = "s - ?n"
    have rest: "chunk_ok (h_mem ?h3) (a + ?n) (Hole ?r True)"
      "same_outside (a + ?n) (a + s) (h_mem ?h3) (h_mem ?h2)"
      "mset (oa_list (h_index ?h3)) = add_mset (adr (a + ?n)) (mset (oa_list (h_index ?h1)))"
      "start_address ?h3 = start_address h" "end_address ?h3 = end_address h"
      using write_rest_spec [of ?r a ?n ?h2 sz] False fits tot blk index_remove_spec(2) [OF i(1)]
      by (auto simp: add.assoc)
    have "chunk_ok (h_mem ?h3) a (Block ?n)"
      using blk(1) chunk_ok_agree [of a "Block ?n" "h_mem ?h3" "h_mem ?h2"] False
        same_outside_agree [OF rest(2), of "a + ?n" a] tot bound fits by auto
    moreover have "same_outside a (a + s) (h_mem ?h3) (h_mem h)"
      using same_outside_trans [OF same_outside_mono [OF rest(2)] same_outside_mono [OF blk(2)], of a "a + s"]
        False fits by auto
    moreover from calculation have "heap_inv (pre @ [Block ?n, Hole ?r True] @ post) ?h3"
      by (intro heap_inv_replace [OF inv rest(4) rest(5) a])
        (use rest False fits idx1 a in \<open>auto simp: add.assoc\<close>)
    ultimately show ?thesis
      using run rest False by (auto simp: carve_def)
  qed
qed

text \<open>The memory the blocks of a heap hand out: from behind the header up to the footer.\<close>

fun payloads :: "nat \<Rightarrow> chunk list \<Rightarrow> (nat \<times> nat) list" where
  "payloads a [] = []"
| "payloads a (Block s # cs) = (a + 12, a + s - 8) # payloads (a + s) cs"
| "payloads a (Hole s f # cs) = payloads (a + s) cs"

lemma payloads_append [simp]:
  "payloads a (cs @ ds) = payloads a cs @ payloads (a + csizes cs) ds"
  by (induction a cs rule: payloads.induct) (auto simp: add.assoc)

lemma payloads_bounds:
  "chunks_ok m a cs \<Longrightarrow> (lo, hi) \<in> set (payloads a cs) \<Longrightarrow> a \<le> lo \<and> hi \<le> a + csizes cs"
  by (induction a cs rule: payloads.induct) (force simp: chunk_ok_def)+

lemma payloads_carve:
  assumes "n \<le> s"
  shows "payloads a (carve n s) = [(a + 12, a + (if s - n < 20 then s else n) - 8)]"
  using assms by (simp add: carve_def)

lemma heap_inv_index_set:
  "heap_inv cs h \<Longrightarrow> set (oa_list (h_index h)) = adr ` set (hole_addrs (unat (start_address h)) cs)"
  by (metis heap_inv_def mset_eq_setD set_map)

lemma hole_in_index:
  assumes "heap_inv (pre @ Hole s f # post) h"
  shows "adr (unat (start_address h) + csizes pre) \<in> set (oa_list (h_index h))"
    "hdr_size (h_mem h) (adr (unat (start_address h) + csizes pre)) = adr s" "s < 2 ^ 32"
proof -
  show "adr (unat (start_address h) + csizes pre) \<in> set (oa_list (h_index h))"
    using heap_inv_index_set [OF assms] by simp
  show "hdr_size (h_mem h) (adr (unat (start_address h) + csizes pre)) = adr s"
    using assms by (simp add: heap_inv_def chunk_ok_def hdr_at_def)
  show "s < 2 ^ 32"
    using assms unat_u32_lt [of "end_address h"] by (simp add: heap_inv_def)
qed

lemma index_hole:
  assumes "heap_inv cs h" "x \<in> set (oa_list (h_index h))"
  obtains pre s f post where "cs = pre @ Hole s f # post"
    "x = adr (unat (start_address h) + csizes pre)"
proof -
  obtain y where y: "y \<in> set (hole_addrs (unat (start_address h)) cs)" "x = adr y"
    using heap_inv_index_set [OF assms(1)] assms(2) by auto
  from hole_addrs_split [OF y(1)] y(2) show thesis
    by (auto intro: that)
qed

lemma hole_fits_plain: "hole_fits m sz 0 x \<longleftrightarrow> sz \<le> hdr_size m x"
  by (simp add: hole_fits_def)

lemma find_hole_exists:
  assumes inv: "heap_inv cs h" and c: "Hole s f \<in> set cs" "unat sz + 20 \<le> s"
  shows "\<exists>i. find_smallest_hole (sz + 12 + 8) 0 h = Some i"
proof (rule ccontr)
  assume "\<not> ?thesis"
  then have none: "find_smallest_hole (sz + 12 + 8) 0 h = None"
    by simp
  obtain pre post where cs: "cs = pre @ Hole s f # post"
    using c(1) by (meson split_list)
  have "sz + 12 + 8 = adr (unat sz + 20)"
    by (simp add: adr_def)
  then show False
    using find_smallest_hole_None [OF none hole_in_index(1) [OF inv [unfolded cs]]]
      hole_in_index(2,3) [OF inv [unfolded cs]] c(2)
    by (simp add: hole_fits_plain addr_less)
qed

lemma heap_alloc_run:
  assumes inv: "heap_inv cs h" and c: "Hole s0 f0 \<in> set cs" "unat sz + 20 \<le> s0"
  obtains pre s f post a h' where "cs = pre @ Hole s f # post" "unat sz + 20 \<le> s"
    "a = unat (start_address h) + csizes pre"
    "heap_alloc (Suc fuel) sz 0 h = Inr (adr (a + 12), h')"
    "heap_inv (pre @ carve (unat sz + 20) s @ post) h'"
    "same_outside a (a + s) (h_mem h') (h_mem h)"
    "start_address h' = start_address h" "end_address h' = end_address h"
proof -
  obtain i where i: "find_smallest_hole (sz + 12 + 8) 0 h = Some i"
    using find_hole_exists [OF assms] by blast
  note found = find_smallest_hole_Some [OF i]
  obtain pre s f post where cs: "cs = pre @ Hole s f # post"
    and x: "oa_list (h_index h) ! i = adr (unat (start_address h) + csizes pre)"
    using index_hole [OF inv] found(1) by (metis nth_mem)
  have "unat sz + 20 < 2 ^ 32" "sz + 12 + 8 = adr (unat sz + 20)"
    using c hole_in_index(3) inv by (force simp: adr_def dest!: split_list)+
  then have fits: "unat sz + 20 \<le> s"
    using found(2) hole_in_index(2,3) [OF inv [unfolded cs]] x
    by (simp add: hole_fits_plain addr_less)
  have "heap_alloc (Suc fuel) sz 0 h = alloc_from_hole i sz 0 h"
    using i by simp
  then show thesis
    using alloc_from_hole_correct [OF inv [unfolded cs] refl found(1) x fits] that [OF cs fits refl]
    by auto
qed

text \<open>
  C1: If some hole is large enough, \<^verbatim>\<open>Heap::alloc\<close> without page alignment succeeds
  in its first pass, keeps the heap well formed, and hands out a range of memory
  of at least the requested size that overlaps no block in use; the contents
  of every block in use are unchanged.
\<close>

theorem heap_alloc_safe:
  assumes "heap_inv cs h" "Hole s0 f0 \<in> set cs" "unat sz + 20 \<le> s0"
  shows "\<exists>p h' cs' hi. heap_alloc (Suc fuel) sz 0 h = Inr (p, h') \<and> heap_inv cs' h'
    \<and> unat p + unat sz \<le> hi
    \<and> mset (payloads (unat (start_address h)) cs') =
        add_mset (unat p, hi) (mset (payloads (unat (start_address h)) cs))
    \<and> (\<forall>(l, u) \<in> set (payloads (unat (start_address h)) cs).
         (u \<le> unat p \<or> hi \<le> l) \<and> agree l u (h_mem h') (h_mem h))"
proof -
  let ?st = "unat (start_address h)"
  obtain pre s f post a h' where cs: "cs = pre @ Hole s f # post" and fits: "unat sz + 20 \<le> s"
    and a: "a = ?st + csizes pre"
    and run: "heap_alloc (Suc fuel) sz 0 h = Inr (adr (a + 12), h')"
    and inv': "heap_inv (pre @ carve (unat sz + 20) s @ post) h'"
    and mem: "same_outside a (a + s) (h_mem h') (h_mem h)"
    using heap_alloc_run [OF assms, of fuel] by metis
  define hi where "hi = a + (if s - (unat sz + 20) < 20 then s else unat sz + 20) - 8"
  have ok: "chunks_ok (h_mem h) ?st pre" "chunks_ok (h_mem h) (a + s) post"
    and tot: "a + s + csizes post = unat (end_address h)"
    using assms(1) by (auto simp: heap_inv_def cs a)
  have bound: "unat (end_address h) < 2 ^ 32"
    by (rule unat_u32_lt)
  have p: "unat (adr (a + 12)) = a + 12"
    using tot bound fits by (intro unat_addr) auto
  have ps: "payloads ?st cs = payloads ?st pre @ payloads (a + s) post"
    "payloads ?st (pre @ carve (unat sz + 20) s @ post) = payloads ?st pre @ (a + 12, hi) # payloads (a + s) post"
    using fits by (simp_all add: cs a payloads_carve csizes_carve hi_def add.assoc)
  have "(u \<le> a \<or> a + s \<le> l) \<and> u \<le> unat (end_address h)" if "(l, u) \<in> set (payloads ?st cs)" for l u
    using that payloads_bounds [OF ok(1)] payloads_bounds [OF ok(2)] tot unfolding ps a by fastforce
  moreover have "hi \<le> a + s" "a + 12 + unat sz \<le> hi"
    using fits by (auto simp: hi_def)
  ultimately have "(u \<le> a + 12 \<or> hi \<le> l) \<and> agree l u (h_mem h') (h_mem h)"
    if "(l, u) \<in> set (payloads ?st cs)" for l u
    using that bound by (fastforce intro!: same_outside_agree [OF mem])
  then show ?thesis
    using run inv' p ps \<open>a + 12 + unat sz \<le> hi\<close>
    by (intro exI [of _ "adr (a + 12)"] exI [of _ h'] exI [of _ "pre @ carve (unat sz + 20) s @ post"]
        exI [of _ hi]) auto
qed

theorem heap_alloc_safe_witness:
  "\<exists>h p h' cs' hi. heap_inv [Hole 0x7E000 False] h \<and> heap_alloc 1 100 0 h = Inr (p, h')
     \<and> heap_inv cs' h' \<and> unat p + 100 \<le> hi
     \<and> mset (payloads (unat (start_address h)) cs') = {#(unat p, hi)#}"
proof -
  obtain h where h: "heap_inv [Hole 0x7E000 False] h"
    using boot_heap by blast
  have "unat (100 :: u32) = 100" "Hole 0x7E000 False \<in> set [Hole 0x7E000 False]"
    by simp_all
  with heap_alloc_safe [OF h, of "0x7E000" False 100 0] show ?thesis
    using h unfolding One_nat_def payloads.simps mset.simps by fastforce
qed

interpretation hdr_sorter: sorter "header_less_than m" for m
  by unfold_locales (auto simp: header_less_than_def)

text \<open>With an ordered index, the hole taken is no larger than any hole that fits.\<close>

lemma smallest_hole_size:
  assumes "heap_inv (pre @ Hole s f # post) h" "unat sz + 20 \<le> s"
    "hdr_sorter.ordered (h_mem h) (oa_list (h_index h))"
    "heap_alloc (Suc fuel) sz 0 h = Inr (p, h')"
  shows "hdr_size (h_mem h) (p - 12) \<le> adr s"
proof -
  let ?xs = "oa_list (h_index h)"
  have "Hole s f \<in> set (pre @ Hole s f # post)" by simp
  from find_hole_exists [OF assms(1) this assms(2)]
  obtain i where i: "find_smallest_hole (sz + 12 + 8) 0 h = Some i"
    by blast
  note found = find_smallest_hole_Some [OF i]
  have "p = ?xs ! i + 12"
    using assms(4) i found(1)
    by (auto simp: alloc_from_hole_def oa_lookup_def Let_def split: if_splits)
  moreover obtain j where j: "j < length ?xs" "?xs ! j = adr (unat (start_address h) + csizes pre)"
    using hole_in_index(1) [OF assms(1)] by (metis in_set_conv_nth)
  have "sz + 12 + 8 = adr (unat sz + 20)"
    by (simp add: adr_def)
  then have "hole_fits (h_mem h) (sz + 12 + 8) 0 (?xs ! j)"
    using hole_in_index(2,3) [OF assms(1)] assms(2) j by (simp add: hole_fits_plain addr_less)
  then have "i \<le> j"
    using found(3) by (meson not_le)
  then have "\<not> header_less_than (h_mem h) (?xs ! j) (?xs ! i)"
    using assms(3) j(1) unfolding hdr_sorter.ordered_def
    by (cases "i = j") (auto simp: sorted_wrt_iff_nth_less header_less_than_def)
  ultimately show ?thesis
    using j(2) hole_in_index(2) [OF assms(1)] by (simp add: header_less_than_def not_less)
qed

end
