(* ===== verification/Heap_Free.thy ===== *)
theory Heap_Free
  imports Heap_Alloc
begin

text \<open>
  Correctness of \<^verbatim>\<open>Heap::free\<close> for a block inside the heap: it becomes a hole, merged
  with its neighbours, and no other block is touched.
\<close>

subsection \<open>Release\<close>

text \<open>
  The chunks after freeing a block of \<open>s\<close> bytes.  A hole on the left is merged
  through its footer; a hole on the right is swallowed, and since its footer is
  not rewritten the merged hole has no valid footer.
\<close>

fun merge_right :: "nat \<Rightarrow> chunk list \<Rightarrow> chunk list" where
  "merge_right t (Hole r g # post) = Hole (t + r) False # post"
| "merge_right t post = Hole t True # post"

definition free_chunks :: "chunk list \<Rightarrow> nat \<Rightarrow> chunk list \<Rightarrow> chunk list" where
  "free_chunks pre s post =
    (case rev pre of
       Hole l True # rpre \<Rightarrow> rev rpre @ merge_right (l + s) post
     | _ \<Rightarrow> pre @ merge_right s post)"

definition left_footer_valid :: "chunk list \<Rightarrow> bool" where
  "left_footer_valid pre = (case rev pre of Hole _ f # _ \<Rightarrow> f | _ \<Rightarrow> True)"

fun inner :: "chunk list \<Rightarrow> bool" where
  "inner [] = False"
| "inner [Hole _ _] = False"
| "inner _ = True"

text \<open>The first two steps of \<open>heap_free\<close> on a block: mark it, then merge to the left.\<close>

lemma mark_hole_spec:
  assumes "chunk_ok m a (Block s)" "a + s < 2 ^ 32"
  shows "chunk_ok (set_hdr_is_hole (adr a) 1 m) a (Hole s True)"
    "same_outside a (a + 12) (set_hdr_is_hole (adr a) 1 m) m"
proof -
  have s: "20 \<le> s" and ftr: "ftr_at m (a + s - 8) a" and hdr: "hdr_at m a 0 s"
    using assms by (auto simp: chunk_ok_def)
  show out: "same_outside a (a + 12) (set_hdr_is_hole (adr a) 1 m) m"
    using s assms(2) by (intro same_outside_hdr) auto
  have "ftr_at (set_hdr_is_hole (adr a) 1 m) (a + s - 8) a"
    using ftr ftr_at_agree [OF same_outside_agree [OF out], of "a + s" "a + s - 8" "a + s - 8"] s assms(2)
    by auto
  moreover have "hdr_at (set_hdr_is_hole (adr a) 1 m) a 1 s"
    using hdr s assms(2) by (simp add: hdr_at_def hdr_defs addr_plus mem_simps)
  ultimately show "chunk_ok (set_hdr_is_hole (adr a) 1 m) a (Hole s True)"
    using s by (simp add: chunk_ok_def)
qed

lemma merge_left_spec:
  assumes "chunk_ok m b (Hole l True)" "chunk_ok m (b + l) (Hole s True)" "b + l + s < 2 ^ 32"
  defines "m' \<equiv> set_hdr_size (adr b) (adr l + adr s) (set_ftr_hdr (adr (b + l + s - 8)) (adr b) m)"
  shows "chunk_ok m' b (Hole (l + s) True)" "same_outside b (b + l + s) m' m"
proof -
  let ?f = "b + l + s - 8"
  have sz: "20 \<le> l" "20 \<le> s" and hdr: "hdr_at m b 1 l" and ftr: "ftr_at m ?f (b + l)"
    using assms by (auto simp: chunk_ok_def)
  obtain f where f: "?f = f" "b + 32 \<le> f" "f + 8 < 2 ^ 32"
    using sz assms(3) by simp
  have "hdr_at m' b 1 (l + s)" "ftr_at m' ?f b"
    using hdr ftr f(2,3) unfolding m'_def f(1)
    by (simp_all add: hdr_at_def ftr_at_def hdr_defs addr_plus mem_simps)
  then show "chunk_ok m' b (Hole (l + s) True)"
    using sz by (simp add: chunk_ok_def add.assoc)
  show "same_outside b (b + l + s) m' m"
    unfolding m'_def using sz assms(3)
    by (intro same_outside_trans [OF same_outside_hdr(3)] same_outside_ftr(2)) auto
qed

lemma merge_right_spec:
  assumes "chunk_ok m b (Hole t g)" "chunk_ok m (b + t) (Hole r g')" "b + t + r < 2 ^ 32"
  defines "m' \<equiv> set_hdr_size (adr b) (adr t + adr r) m"
  shows "chunk_ok m' b (Hole (t + r) False)" "same_outside b (b + 12) m' m"
    "hdr_size m' (adr (b + t)) = adr r"
proof -
  have sz: "20 \<le> t" "20 \<le> r" and hdr: "hdr_at m b 1 t" "hdr_at m (b + t) 1 r"
    using assms by (auto simp: chunk_ok_def)
  then have "hdr_at m' b 1 (t + r)" "hdr_size m' (adr (b + t)) = adr r"
    using assms(3) unfolding m'_def by (simp_all add: hdr_at_def hdr_defs addr_plus mem_simps)
  then show "chunk_ok m' b (Hole (t + r) False)" "hdr_size m' (adr (b + t)) = adr r"
    using sz by (simp_all add: chunk_ok_def)
  show "same_outside b (b + 12) m' m"
    unfolding m'_def using sz assms(3) by (intro same_outside_hdr) auto
qed

text \<open>The search for a header in the index.\<close>

lemma index_search_spec:
  assumes "x \<in> set (oa_list oa)"
  shows "index_search 0 x oa < unat (oa_size oa)" "oa_list oa ! index_search 0 x oa = x"
proof -
  obtain j where j: "j < unat (oa_size oa)" "oa_array oa j = x"
    using assms by (auto simp: oa_list_def)
  have "index_search it x oa < unat (oa_size oa) \<and> oa_array oa (index_search it x oa) = x"
    if "it \<le> j" for it
    using that
  proof (induction "j - it" arbitrary: it)
    case 0
    then show ?case
      using j by (subst (1 2) index_search.simps) simp
  next
    case (Suc d)
    show ?case
    proof (cases "oa_array oa it = x")
      case True
      then show ?thesis
        using Suc j by (subst (1 2) index_search.simps) simp
    next
      case False
      then have "index_search it x oa = index_search (Suc it) x oa"
        using Suc j by (subst index_search.simps) simp
      then show ?thesis
        using Suc by simp
    qed
  qed
  from this [of 0] show "index_search 0 x oa < unat (oa_size oa)" "oa_list oa ! index_search 0 x oa = x"
    by simp_all
qed

lemma hole_count: "chunks_ok m a cs \<Longrightarrow> 20 * length (hole_addrs a cs) \<le> csizes cs"
  by (induction a cs rule: hole_addrs.induct) (auto simp: chunk_ok_def)

lemma unify_left_spec:
  assumes ok: "chunks_ok (h_mem h) st (pre @ Hole s True # post)" and a: "a = st + csizes pre"
    and bound: "a + s + csizes post < 2 ^ 32" "8 \<le> st"
    and edge: "ftr_magic (h_mem h) (adr (st - 8)) \<noteq> HEAP_MAGIC" and left: "left_footer_valid pre"
  shows "(free_unify_left (adr a) (adr (a + s - 8)) h = (adr a, True, h) \<and> (\<forall>l rpre. rev pre \<noteq> Hole l True # rpre))
    \<or> (\<exists>pre' l h'. pre = pre' @ [Hole l True]
        \<and> free_unify_left (adr a) (adr (a + s - 8)) h = (adr (st + csizes pre'), False, h')
        \<and> chunks_ok (h_mem h') st (pre' @ Hole (l + s) True # post)
        \<and> same_outside (st + csizes pre') (a + s) (h_mem h') (h_mem h)
        \<and> h_index h' = h_index h \<and> start_address h' = start_address h \<and> end_address h' = end_address h)"
proof (cases "rev pre")
  case Nil
  then show ?thesis
    using edge a bound by (simp add: free_unify_left_def Let_def addr_simps)
next
  case (Cons c rpre)
  then have pre: "pre = rev rpre @ [c]"
    by (metis rev.simps(2) rev_swap)
  define b where "b = st + csizes (rev rpre)"
  have ab: "a = b + csize c"
    by (simp add: a pre b_def)
  have okc: "chunk_ok (h_mem h) b c" and oks: "chunk_ok (h_mem h) a (Hole s True)"
    and okl: "chunks_ok (h_mem h) st (rev rpre)" and okp: "chunks_ok (h_mem h) (a + s) post"
    using ok by (simp_all add: pre b_def a add.assoc)
  have t: "adr a - 8 = adr (b + csize c - 8)"
    using okc by (simp add: ab chunk_ok_def addr_minus)
  show ?thesis
  proof (cases c)
    case (Block l)
    then show ?thesis
      using okc Cons by (simp add: free_unify_left_def Let_def t chunk_ok_def ftr_at_def hdr_at_def)
  next
    case (Hole l f)
    then have f: "f = True"
      using left Cons by (simp add: left_footer_valid_def)
    let ?m = "set_hdr_size (adr b) (adr l + adr s) (set_ftr_hdr (adr (b + l + s - 8)) (adr b) (h_mem h))"
    let ?h = "heap_mem_update (\<lambda>m. set_hdr_size (adr b) (adr l + adr s)
        (set_ftr_hdr (adr (b + l + s - 8)) (adr b) m)) h"
    have c: "chunk_ok (h_mem h) b (Hole l True)" "chunk_ok (h_mem h) (b + l) (Hole s True)"
      "b + l + s < 2 ^ 32"
      using okc oks Hole f ab bound by auto
    have merged: "chunk_ok ?m b (Hole (l + s) True)" "same_outside b (b + l + s) ?m (h_mem h)"
      using merge_left_spec [OF c] by auto
    have sz: "hdr_size (set_ftr_hdr (adr (b + l + s - 8)) (adr b) (h_mem h)) (adr b) = adr l"
    proof -
      obtain f where "b + l + s - 8 = f" "b + 32 \<le> f" "f + 8 < 2 ^ 32"
        using c by (auto simp: chunk_ok_def)
      then show ?thesis
        using c by (simp add: chunk_ok_def hdr_at_def hdr_defs addr_plus mem_simps)
    qed
    have run: "free_unify_left (adr a) (adr (a + s - 8)) h = (adr b, False, ?h)"
      using c Hole f sz unfolding free_unify_left_def Let_def t
      by (simp add: ab chunk_ok_def ftr_at_def hdr_at_def)
    have "chunks_ok ?m st (rev rpre)"
      using okl chunks_ok_same_outside [OF merged(2), of st "rev rpre"] c by (auto simp: b_def)
    moreover have "chunks_ok ?m (b + l + s) post"
      using okp chunks_ok_same_outside [OF merged(2), of "b + l + s" post] bound by (auto simp: ab Hole)
    ultimately have "chunks_ok ?m st (rev rpre @ Hole (l + s) True # post)"
      using merged(1) by (simp add: b_def add.assoc)
    then show ?thesis
      using run merged(2) Hole f pre by (intro disjI2 exI [of _ "rev rpre"] exI [of _ l] exI [of _ ?h])
        (simp add: b_def ab)
  qed
qed

lemma unify_right_Block:
  assumes "chunks_ok (h_mem h) (b + t) (Block r # post)" "20 \<le> t"
  shows "free_unify_right (adr b) (adr (b + t - 8)) h = Inr (adr (b + t - 8), h)"
  using assms by (simp add: free_unify_right_def Let_def addr_plus chunk_ok_def hdr_at_def)

lemma unify_right_Hole:
  assumes ok: "chunks_ok (h_mem h) st (pre @ Hole t True # Hole r g # post)" and b: "b = st + csizes pre"
    and bound: "b + t + r + csizes post < 2 ^ 32"
    and mem: "adr (b + t) \<in> set (oa_list (h_index h))"
  shows "\<exists>h'. free_unify_right (adr b) (adr (b + t - 8)) h = Inr (adr (b + t + r - 8), h')
    \<and> chunks_ok (h_mem h') st (pre @ Hole (t + r) False # post)
    \<and> same_outside b (b + 12) (h_mem h') (h_mem h)
    \<and> mset (oa_list (h_index h')) = mset (oa_list (h_index h)) - {#adr (b + t)#}
    \<and> oa_size (h_index h') \<noteq> - 1
    \<and> start_address h' = start_address h \<and> end_address h' = end_address h"
proof -
  have c: "chunk_ok (h_mem h) b (Hole t True)" "chunk_ok (h_mem h) (b + t) (Hole r g)" "b + t + r < 2 ^ 32"
    and ok': "chunks_ok (h_mem h) st pre" "chunks_ok (h_mem h) (b + t + r) post"
    using ok b bound by (auto simp: add.assoc)
  have sz: "20 \<le> t" "20 \<le> r" "hdr_size (h_mem h) (adr b) = adr t"
    "hdr_size (h_mem h) (adr (b + t)) = adr r" "hdr_magic (h_mem h) (adr (b + t)) = HEAP_MAGIC"
    "hdr_is_hole (h_mem h) (adr (b + t)) = 1"
    using c by (auto simp: chunk_ok_def hdr_at_def)
  let ?m = "set_hdr_size (adr b) (adr t + adr r) (h_mem h)"
  let ?h = "heap_mem_update (set_hdr_size (adr b) (adr t + adr r)) h"
  note spec = merge_right_spec [OF c]
  let ?i = "index_search 0 (adr (b + t)) (h_index h)"
  note found = index_search_spec [OF mem]
  have t: "adr (b + t - 8) + 8 = adr (b + t)" "adr (b + t) + adr r - 8 = adr (b + t + r - 8)"
    using sz by (simp_all add: addr_simps)
  have run: "free_unify_right (adr b) (adr (b + t - 8)) h = Inr (adr (b + t + r - 8), heap_index_remove ?i ?h)"
    using sz found(1) spec(3) unfolding free_unify_right_def Let_def t by (simp add: t(2))
  have "chunks_ok ?m st pre"
    using ok'(1) chunks_ok_same_outside [OF spec(2), of st pre] c by (auto simp: b)
  moreover have "chunks_ok ?m (b + t + r) post"
    using ok'(2) chunks_ok_same_outside [OF spec(2), of "b + t + r" post] bound sz by auto
  ultimately have "chunks_ok ?m st (pre @ Hole (t + r) False # post)"
    using spec(1) by (simp add: b add.assoc)
  moreover have "mset (oa_list (h_index (heap_index_remove ?i ?h))) = mset (oa_list (h_index h)) - {#adr (b + t)#}"
    "oa_size (h_index (heap_index_remove ?i ?h)) \<noteq> - 1"
    using index_remove_spec [of ?i ?h] found by simp_all
  ultimately show ?thesis
    using run spec(2) by auto
qed

lemma merge_right_holes:
  "hole_addrs b (merge_right t post) = b # tl (hole_addrs b (merge_right t post))"
  by (cases "(t, post)" rule: merge_right.cases) simp_all

lemma merge_right_csizes [simp]: "csizes (merge_right t post) = t + csizes post"
  by (cases "(t, post)" rule: merge_right.cases) simp_all

lemma unify_right_spec:
  assumes ok: "chunks_ok (h_mem h) st (pre @ Hole t True # post)" and b: "b = st + csizes pre"
    and bound: "b + t + csizes post < 2 ^ 32" and inner: "inner post"
    and idx: "mset (oa_list (h_index h)) = X + mset (map adr (hole_addrs (b + t) post))"
    and small: "oa_size (h_index h) \<noteq> - 1"
  shows "\<exists>f h'. free_unify_right (adr b) (adr (b + t - 8)) h = Inr (adr f, h') \<and> f + 8 < b + t + csizes post
    \<and> chunks_ok (h_mem h') st (pre @ merge_right t post)
    \<and> same_outside b (b + 12) (h_mem h') (h_mem h)
    \<and> mset (oa_list (h_index h')) = X + mset (map adr (tl (hole_addrs b (merge_right t post))))
    \<and> oa_size (h_index h') \<noteq> - 1
    \<and> start_address h' = start_address h \<and> end_address h' = end_address h"
proof (cases post)
  case Nil
  then show ?thesis
    using inner by simp
next
  case (Cons c post')
  have t: "20 \<le> t" "chunk_ok (h_mem h) (b + t) c"
    using ok Cons by (auto simp: b chunk_ok_def add.assoc)
  show ?thesis
  proof (cases c)
    case (Block r)
    have "chunks_ok (h_mem h) (b + t) (Block r # post')"
      using ok Cons Block by (simp add: b add.assoc)
    from unify_right_Block [OF this t(1)] show ?thesis
      using ok idx small t Cons Block by (auto simp: chunk_ok_def intro!: exI [of _ "b + t - 8"])
  next
    case (Hole r g)
    have "20 \<le> csizes post'"
      using inner ok Cons Hole by (cases post') (auto simp: chunk_ok_def)
    moreover have "adr (b + t) \<in> set (oa_list (h_index h))"
      using arg_cong [OF idx, of set_mset] Cons Hole by simp
    ultimately show ?thesis
      using unify_right_Hole [of h st pre t r g post' b] ok b bound idx Cons Hole t
      by (auto simp: chunk_ok_def add.assoc intro!: exI [of _ "b + (t + r) - 8"])
  qed
qed

lemma index_not_full:
  assumes "heap_inv cs h"
  shows "oa_size (h_index h) \<noteq> - 1"
proof -
  have "length (oa_list (h_index h)) = length (hole_addrs (unat (start_address h)) cs)"
    using assms unfolding heap_inv_def by (metis length_map size_mset)
  then have "20 * length (oa_list (h_index h)) \<le> unat (end_address h)"
    using assms hole_count [of "h_mem h" "unat (start_address h)" cs] by (simp add: heap_inv_def)
  then have "unat (oa_size (h_index h)) < 2 ^ 32 - 1"
    using unat_u32_lt [of "end_address h"] by simp
  then show ?thesis
    by (auto simp: unsigned_minus_1_eq_mask mask_eq_exp_minus_1)
qed

text \<open>After the merges: insertion into the index closes the invariant.\<close>

lemma free_finish:
  assumes ok: "chunks_ok (h_mem h) (unat (start_address h)) (pre @ merge_right t post)"
    and b: "b = unat (start_address h) + csizes pre"
    and tot: "b + t + csizes post = unat (end_address h)"
    and edge: "8 \<le> unat (start_address h)" "ftr_magic (h_mem h) (start_address h - 8) \<noteq> HEAP_MAGIC"
    and idx: "mset (oa_list (h_index h)) = mset (map adr (hole_addrs (unat (start_address h)) pre))
        + (if do_add then {#} else {#adr b#}) + mset (map adr (tl (hole_addrs b (merge_right t post))))"
    and small: "oa_size (h_index h) \<noteq> - 1"
  shows "heap_inv (pre @ merge_right t post) (if do_add then heap_index_insert (adr b) h else h)"
proof -
  have "mset (map adr (hole_addrs (unat (start_address h)) (pre @ merge_right t post))) =
      mset (map adr (hole_addrs (unat (start_address h)) pre)) + {#adr b#}
        + mset (map adr (tl (hole_addrs b (merge_right t post))))"
    by (simp add: b [symmetric]) (subst merge_right_holes, simp)
  then show ?thesis
    using ok tot edge idx small unfolding heap_inv_def
    by (cases do_add) (auto simp: oa_list_insert b)
qed

lemma heap_free_tail:
  assumes ok: "chunks_ok (h_mem h) st (pre @ Hole t True # post)"
    and st: "st = unat (start_address h)" and b: "b = st + csizes pre"
    and tot: "b + t + csizes post = unat (end_address h)" and inner: "inner post"
    and edge: "8 \<le> st" "ftr_magic (h_mem h) (start_address h - 8) \<noteq> HEAP_MAGIC"
    and idx: "mset (oa_list (h_index h)) = mset (map adr (hole_addrs st pre))
        + (if do_add then {#} else {#adr b#}) + mset (map adr (hole_addrs (b + t) post))"
    and small: "oa_size (h_index h) \<noteq> - 1"
  shows "\<exists>h'. bind_result (free_unify_right (adr b) (adr (b + t - 8)) h) (\<lambda>(footer, h).
      bind_result (free_contract (adr b) footer th h) (\<lambda>h.
      Inr (if do_add then heap_index_insert (adr b) h else h))) = Inr h'
    \<and> heap_inv (pre @ merge_right t post) h' \<and> same_outside b (b + 12) (h_mem h') (h_mem h)"
proof -
  have bound: "unat (end_address h) < 2 ^ 32"
    by (rule unat_u32_lt)
  obtain f h1 where r: "free_unify_right (adr b) (adr (b + t - 8)) h = Inr (adr f, h1)"
    "f + 8 < b + t + csizes post" "chunks_ok (h_mem h1) st (pre @ merge_right t post)"
    "same_outside b (b + 12) (h_mem h1) (h_mem h)"
    "mset (oa_list (h_index h1)) = mset (map adr (hole_addrs st pre))
        + (if do_add then {#} else {#adr b#}) + mset (map adr (tl (hole_addrs b (merge_right t post))))"
    "oa_size (h_index h1) \<noteq> - 1" "start_address h1 = start_address h" "end_address h1 = end_address h"
    using unify_right_spec [OF ok b _ inner idx small] tot bound by auto
  have "adr f + 8 \<noteq> end_address h1"
    using r(2,8) tot bound by (metis addr_plus(1) less_irrefl less_trans unat_addr)
  then have c: "free_contract (adr b) (adr f) th h1 = Inr h1"
    by (simp add: free_contract_def)
  have "start_address h - 8 = adr (st - 8)"
    using edge(1) st by (metis addr_minus(1) addr_unat)
  then have "ftr_magic (h_mem h1) (start_address h1 - 8) \<noteq> HEAP_MAGIC"
    using edge r(7) tot bound load_agree [OF same_outside_agree [OF r(4)], of st "st - 8" "st - 8"] b
    by (auto simp: ftr_magic_def)
  then have "heap_inv (pre @ merge_right t post) (if do_add then heap_index_insert (adr b) h1 else h1)"
    using r edge tot by (intro free_finish) (simp_all add: st [symmetric] b)
  then show ?thesis
    using r(1,4) c by auto
qed

lemma payloads_merge_right [simp]: "payloads b (merge_right t post) = payloads (b + t) post"
  by (cases "(t, post)" rule: merge_right.cases) (simp_all add: add.assoc)

lemma payloads_kept:
  assumes "chunks_ok m st pre" "chunks_ok m (b + t) post" "b = st + csizes pre"
    "b + t + csizes post < 2 ^ 32" "same_outside b (b + t) m' m"
    "(l, u) \<in> set (payloads st (pre @ merge_right t post))"
  shows "agree l u m' m"
proof -
  have "(l, u) \<in> set (payloads st pre) \<or> (l, u) \<in> set (payloads (b + t) post)"
    using assms(3,6) by auto
  then have "u \<le> b \<or> b + t \<le> l \<and> u \<le> b + t + csizes post"
    using payloads_bounds [OF assms(1)] payloads_bounds [OF assms(2)] assms(3) by fastforce
  then show ?thesis
    using assms(4) by (intro same_outside_agree [OF assms(5)]) auto
qed

lemma heap_free_start:
  assumes "heap_inv (pre @ Block s # post) h" "a = unat (start_address h) + csizes pre"
  defines "h1 \<equiv> heap_mem_update (set_hdr_is_hole (adr a) 1) h"
  shows "heap_free (adr (a + 12)) h =
      (let (header, do_add, h2) = free_unify_left (adr a) (adr (a + s - 8)) h1
       in bind_result (free_unify_right header (adr (a + s - 8)) h2) (\<lambda>(footer, h).
          bind_result (free_contract header footer (adr (a + s)) h) (\<lambda>h.
          Inr (if do_add then heap_index_insert header h else h))))"
    "chunks_ok (h_mem h1) (unat (start_address h)) (pre @ Hole s True # post)"
    "ftr_magic (h_mem h1) (start_address h - 8) \<noteq> HEAP_MAGIC" "8 \<le> unat (start_address h)"
    "same_outside a (a + s) (h_mem h1) (h_mem h)"
    "a + s + csizes post = unat (end_address h)"
proof -
  let ?st = "unat (start_address h)"
  have bound: "unat (end_address h) < 2 ^ 32"
    by (rule unat_u32_lt)
  have ok: "chunks_ok (h_mem h) ?st pre" "chunk_ok (h_mem h) a (Block s)" "chunks_ok (h_mem h) (a + s) post"
    and edge: "ftr_magic (h_mem h) (start_address h - 8) \<noteq> HEAP_MAGIC" "8 \<le> ?st"
    and tot: "a + s + csizes post = unat (end_address h)"
    using assms(1) by (auto simp: heap_inv_def assms(2) add.assoc)
  then have as: "20 \<le> s" "a + s < 2 ^ 32" "20 \<le> a + s"
    using bound by (auto simp: chunk_ok_def)
  note mark = mark_hole_spec [OF ok(2) as(2)]
  have m: "h_mem h1 = set_hdr_is_hole (adr a) 1 (h_mem h)"
    by (simp add: h1_def)
  show out: "same_outside a (a + s) (h_mem h1) (h_mem h)"
    unfolding m using mark(2) as by (elim same_outside_mono) auto
  show "chunks_ok (h_mem h1) ?st (pre @ Hole s True # post)"
    using ok mark(1) chunks_ok_same_outside [OF out, of ?st pre]
      chunks_ok_same_outside [OF out, of "a + s" post] tot bound as m
    by (simp add: assms(2) add.assoc)
  have "start_address h - 8 = adr (?st - 8)"
    using edge(2) by (metis addr_minus(1) addr_unat)
  then show "ftr_magic (h_mem h1) (start_address h - 8) \<noteq> HEAP_MAGIC"
    using edge as load_agree [OF same_outside_agree [OF out], of ?st "?st - 8" "?st - 8"] assms(2)
    by (auto simp: ftr_magic_def)
  have hd: "adr (a + 12) - 12 = adr a" "adr a + adr s - 8 = adr (a + s - 8)"
    "adr (a + s - 8) + 8 = adr (a + s)"
    using as by (simp_all add: addr_simps)
  have "unat (adr (a + 12)) = a + 12"
    using as by (intro unat_addr) simp
  then have nz: "adr (a + 12) \<noteq> 0"
    by (auto simp del: unat_addr)
  have r: "hdr_magic (h_mem h) (adr a) = HEAP_MAGIC" "hdr_size (h_mem h) (adr a) = adr s"
    "ftr_magic (h_mem h) (adr (a + s - 8)) = HEAP_MAGIC"
    using ok(2) by (auto simp: chunk_ok_def hdr_at_def ftr_at_def)
  show "heap_free (adr (a + 12)) h =
      (let (header, do_add, h2) = free_unify_left (adr a) (adr (a + s - 8)) h1
       in bind_result (free_unify_right header (adr (a + s - 8)) h2) (\<lambda>(footer, h).
          bind_result (free_contract header footer (adr (a + s)) h) (\<lambda>h.
          Inr (if do_add then heap_index_insert header h else h))))"
    unfolding heap_free_def using nz by (simp add: hd r h1_def Let_def)
qed (use assms(1) in \<open>auto simp: heap_inv_def assms(2) add.assoc\<close>)

lemma heap_free_case:
  assumes ok2: "chunks_ok (h_mem h2) st (pre @ Hole t True # post)"
    and st: "st = unat (start_address h2)" and b: "b = st + csizes pre"
    and tot: "b + t + csizes post = unat (end_address h2)" and inner: "inner post"
    and edge: "8 \<le> st" "ftr_magic m (adr (st - 8)) \<noteq> HEAP_MAGIC"
    and idx: "mset (oa_list (h_index h2)) = mset (map adr (hole_addrs st pre))
        + (if do_add then {#} else {#adr b#}) + mset (map adr (hole_addrs (b + t) post))"
    and small: "oa_size (h_index h2) \<noteq> - 1"
    and mem2: "same_outside b (b + t) (h_mem h2) m"
    and okm: "chunks_ok m st pre" "chunks_ok m (b + t) post"
  shows "\<exists>h'. bind_result (free_unify_right (adr b) (adr (b + t - 8)) h2) (\<lambda>(footer, h).
      bind_result (free_contract (adr b) footer th h) (\<lambda>h.
      Inr (if do_add then heap_index_insert (adr b) h else h))) = Inr h'
    \<and> heap_inv (pre @ merge_right t post) h'
    \<and> (\<forall>(l, u) \<in> set (payloads st (pre @ merge_right t post)). agree l u (h_mem h') m)"
proof -
  have bound: "b + t + csizes post < 2 ^ 32"
    using tot unat_u32_lt [of "end_address h2"] by simp
  have t: "20 \<le> t"
    using ok2 by (simp add: chunk_ok_def)
  have "start_address h2 - 8 = adr (st - 8)"
    using edge(1) st by (metis addr_minus(1) addr_unat)
  then have e: "ftr_magic (h_mem h2) (start_address h2 - 8) \<noteq> HEAP_MAGIC"
    using edge_kept [OF mem2 edge(1) _ _ edge(2)] b bound by simp
  obtain h' where h': "bind_result (free_unify_right (adr b) (adr (b + t - 8)) h2) (\<lambda>(footer, h).
      bind_result (free_contract (adr b) footer th h) (\<lambda>h.
      Inr (if do_add then heap_index_insert (adr b) h else h))) = Inr h'"
    "heap_inv (pre @ merge_right t post) h'" "same_outside b (b + 12) (h_mem h') (h_mem h2)"
    using heap_free_tail [OF ok2 st b tot inner edge(1) e idx small, of th] by blast
  have "same_outside b (b + t) (h_mem h') (h_mem h2)"
    using h'(3) t by (elim same_outside_mono) simp_all
  from payloads_kept [OF okm b bound same_outside_trans [OF this mem2]] show ?thesis
    using h' by auto
qed

lemma heap_free_run:
  assumes inv: "heap_inv (pre @ Block s # post) h"
    and p: "unat p = unat (start_address h) + csizes pre + 12"
    and inner: "inner post" and left: "left_footer_valid pre"
  shows "\<exists>h'. heap_free p h = Inr h' \<and> heap_inv (free_chunks pre s post) h'
    \<and> (\<forall>(l, u) \<in> set (payloads (unat (start_address h)) (free_chunks pre s post)).
          agree l u (h_mem h') (h_mem h))"
proof -
  define st a where "st = unat (start_address h)" and "a = st + csizes pre"
  define h1 where "h1 = heap_mem_update (set_hdr_is_hole (adr a) 1) h"
  have p': "p = adr (a + 12)"
    using p by (metis a_def addr_unat st_def)
  note start = heap_free_start [OF inv, of a, folded h1_def st_def, OF a_def]
  have bound: "a + s + csizes post < 2 ^ 32"
    using start(6) unat_u32_lt [of "end_address h"] by simp
  have ok: "chunks_ok (h_mem h) st pre" "chunks_ok (h_mem h) (a + s) post"
    and idx: "mset (oa_list (h_index h1)) = mset (map adr (hole_addrs st pre)) + mset (map adr (hole_addrs (a + s) post))"
    and edge: "ftr_magic (h_mem h) (adr (st - 8)) \<noteq> HEAP_MAGIC"
    using inv by (auto simp: heap_inv_def st_def a_def h1_def add.assoc)
      (metis addr_minus(1) addr_unat)
  have small: "oa_size (h_index h1) \<noteq> - 1"
    using index_not_full [OF inv] by (simp add: h1_def)
  have edge1: "ftr_magic (h_mem h1) (adr (st - 8)) \<noteq> HEAP_MAGIC"
    using edge_kept [OF start(5,4) _ _ edge] bound by (simp add: a_def)
  from unify_left_spec [OF start(2) a_def bound start(4) edge1 left]
  show ?thesis
  proof (elim disjE conjE exE)
    assume l: "free_unify_left (adr a) (adr (a + s - 8)) h1 = (adr a, True, h1)"
      and none: "\<forall>l rpre. rev pre \<noteq> Hole l True # rpre"
    have "free_chunks pre s post = pre @ merge_right s post"
      using none by (auto simp: free_chunks_def split: list.splits chunk.splits bool.splits)
    then show ?thesis
      using heap_free_case [OF start(2) _ a_def _ inner start(4) edge _ small start(5) ok, of True "adr (a + s)"]
        start(1,6) l idx by (auto simp: p' h1_def st_def [symmetric])
  next
    fix pre' l h2
    assume pre: "pre = pre' @ [Hole l True]"
      and left: "free_unify_left (adr a) (adr (a + s - 8)) h1 = (adr (st + csizes pre'), False, h2)"
      and ok2: "chunks_ok (h_mem h2) st (pre' @ Hole (l + s) True # post)"
      and mem2: "same_outside (st + csizes pre') (a + s) (h_mem h2) (h_mem h1)"
      and h2: "h_index h2 = h_index h1" "start_address h2 = start_address h1" "end_address h2 = end_address h1"
    have fc: "free_chunks pre s post = pre' @ merge_right (l + s) post"
      by (simp add: free_chunks_def pre)
    have as: "a + s = st + csizes pre' + (l + s)"
      by (simp add: a_def pre)
    have mem: "same_outside (st + csizes pre') (a + s) (h_mem h2) (h_mem h)"
      using same_outside_trans [OF mem2 same_outside_mono [OF start(5)]] by (simp add: a_def pre)
    show ?thesis
      using heap_free_case [OF ok2 _ refl _ inner start(4) edge _ _ mem [unfolded as] _ ok(2) [unfolded as],
          of False "adr (a + s)"] start(1,6) left idx small ok(1) h2
      by (auto simp: p' fc [unfolded pre] as pre h1_def st_def [symmetric])
  qed
qed

lemma alloc_at_end:
  assumes "heap_inv (bs @ [Hole r f]) h" "\<And>t g. Hole t g \<notin> set bs" "140 \<le> r"
  shows "\<exists>h'. heap_inv (bs @ [Block 120, Hole (r - 120) True]) h'"
proof (rule heap_alloc_run [OF assms(1), of r f 100 0])
  fix pre s g post h'
  assume cs: "bs @ [Hole r f] = pre @ Hole s g # post" "heap_inv (pre @ carve (unat (100 :: u32) + 20) s @ post) h'"
  then have "post = [] \<and> pre = bs \<and> s = r"
    using assms(2) [of s g] by (cases post rule: rev_cases) auto
  then show ?thesis
    using cs(2) assms(3) by (auto simp: carve_def split: if_splits)
qed (use assms(3) in simp_all)

lemma block_position:
  assumes "heap_inv (pre @ Block s # post) h"
  shows "unat (adr (unat (start_address h) + csizes pre + 12)) = unat (start_address h) + csizes pre + 12"
  using assms unat_u32_lt [of "end_address h"] by (intro unat_addr) (auto simp: heap_inv_def chunk_ok_def)

lemma four_block_heap: "\<exists>h r. heap_inv [Block 120, Block 120, Block 120, Block 120, Hole r True] h"
proof -
  obtain h0 where "heap_inv ([] @ [Hole 0x7E000 False]) h0"
    using boot_heap by auto
  from alloc_at_end [OF this] obtain h1 where "heap_inv ([Block 120] @ [Hole (0x7E000 - 120) True]) h1"
    by auto
  from alloc_at_end [OF this] obtain h2 where "heap_inv ([Block 120, Block 120] @ [Hole (0x7E000 - 240) True]) h2"
    by auto
  from alloc_at_end [OF this] obtain h3 where "heap_inv ([Block 120, Block 120, Block 120] @ [Hole (0x7E000 - 360) True]) h3"
    by auto
  from alloc_at_end [OF this] show ?thesis
    by auto
qed

text \<open>
  C2: Freeing a block succeeds and keeps the heap well formed, on two conditions.
  The block is not at the end of the heap: more follows it than a single hole.
  The footer of a hole directly before it points to the header of that hole.
  Then the block becomes a hole merged with the holes on both sides of it, the index
  lists exactly the holes, and the contents of every remaining block are
  unchanged.  The second condition does not hold on every heap the code reaches:
  a merge to the right leaves the old footer in place, so the merged hole is
  \<open>Hole _ False\<close> in \<^const>\<open>merge_right\<close>, and a later free of the block after it is not covered.
\<close>

theorem heap_free_correct:
  assumes inv: "heap_inv (pre @ Block s # post) h"
    and p: "unat p = unat (start_address h) + csizes pre + 12"
    and inner: "inner post" and left: "left_footer_valid pre"
  shows "\<exists>h'. heap_free p h = Inr h' \<and> heap_inv (free_chunks pre s post) h'
    \<and> (\<forall>(l, u) \<in> set (payloads (unat (start_address h)) (free_chunks pre s post)).
          agree l u (h_mem h') (h_mem h))"
  by (rule heap_free_run [OF assms])

theorem heap_free_correct_witness:
  "\<exists>h p h' r. heap_inv [Hole 120 True, Block 120, Hole 120 True, Block 120, Hole r True] h
     \<and> unat p = unat (start_address h) + 132 \<and> heap_free p h = Inr h'
     \<and> heap_inv [Hole 360 False, Block 120, Hole r True] h'"
proof -
  obtain h0 r where h0: "heap_inv ([] @ Block 120 # [Block 120, Block 120, Block 120, Hole r True]) h0"
    using four_block_heap by auto
  from heap_free_correct [OF h0 block_position [OF h0]]
  obtain h1 where h1: "heap_inv ([Hole 120 True, Block 120] @ Block 120 # [Block 120, Hole r True]) h1"
    by (auto simp: left_footer_valid_def free_chunks_def)
  from heap_free_correct [OF h1 block_position [OF h1]]
  obtain h where h: "heap_inv ([Hole 120 True] @ Block 120 # [Hole 120 True, Block 120, Hole r True]) h"
    by (auto simp: left_footer_valid_def free_chunks_def)
  define p where "p = adr (unat (start_address h) + 120 + 12)"
  have p: "unat p = unat (start_address h) + 132"
    using block_position [OF h] by (simp add: p_def)
  then have "unat p = unat (start_address h) + csizes [Hole 120 True] + 12"
    by simp
  from heap_free_correct [OF h this]
  obtain h' where "heap_free p h = Inr h'" "heap_inv [Hole 360 False, Block 120, Hole r True] h'"
    by (auto simp: left_footer_valid_def free_chunks_def)
  then show ?thesis
    using h p by auto
qed

lemma two_hole_heap:
  "\<exists>h r. heap_inv [Hole 120 True, Block 120, Hole r True] h \<and> 120 < r
    \<and> hdr_sorter.ordered (h_mem h) (oa_list (h_index h))"
proof -
  obtain h0 where "heap_inv ([] @ [Hole 0x7E000 False]) h0"
    using boot_heap by auto
  from alloc_at_end [OF this] obtain h1 where "heap_inv ([Block 120] @ [Hole (0x7E000 - 120) True]) h1"
    by auto
  from alloc_at_end [OF this] obtain h2 where h2: "heap_inv ([] @ Block 120 # [Block 120, Hole (0x7E000 - 240) True]) h2"
    by auto
  from heap_free_run [OF h2 block_position [OF h2]]
  obtain h where h: "heap_inv [Hole 120 True, Block 120, Hole (0x7E000 - 240) True] h"
    by (auto simp: left_footer_valid_def free_chunks_def)
  let ?st = "unat (start_address h)"
  let ?h = "h\<lparr>h_index := (h_index h)\<lparr>oa_array := \<lambda>i. if i = 0 then adr ?st else adr (240 + ?st)\<rparr>\<rparr>"
  have "mset (oa_list (h_index h)) = {#adr ?st, adr (240 + ?st)#}"
    using h by (simp add: heap_inv_def)
  then have n: "unat (oa_size (h_index h)) = 2"
    by (metis length_oa_list size_mset size_add_mset size_empty numeral_2_eq_2)
  then have list: "oa_list (h_index ?h) = [adr ?st, adr (240 + ?st)]"
    by (simp add: oa_list_def upt_rec)
  then have inv: "heap_inv [Hole 120 True, Block 120, Hole (0x7E000 - 240) True] ?h"
    using h by (simp add: heap_inv_def)
  moreover have "hdr_size (h_mem h) (adr ?st) = adr 120" "hdr_size (h_mem h) (adr (240 + ?st)) = adr (0x7E000 - 240)"
    using h by (simp_all add: heap_inv_def chunk_ok_def hdr_at_def)
  then have "hdr_sorter.ordered (h_mem ?h) (oa_list (h_index ?h))"
    unfolding list by (simp add: hdr_sorter.ordered_def header_less_than_def adr_def)
  ultimately show ?thesis
    by (intro exI [of _ ?h] exI [of _ "0x7E000 - 240"]) simp
qed



end
