(* ===== verification/Kstring.thy ===== *)
theory Kstring
  imports Common_Lib
begin

text \<open>
  \<^verbatim>\<open>sys::FixedString\<close> and \<^verbatim>\<open>sys::String\<close> of \<^verbatim>\<open>string.hpp\<close>.  A character buffer, and the
  characters behind a pointer, are functions from offsets to bytes; \<^verbatim>\<open>data_\<close> of a
  string is \<open>None\<close> when the pointer is null.
\<close>

subsection \<open>FixedString\<close>

record fixed_string =
  fx_data :: cstr
  fx_size :: nat

function fixed_copy :: "nat \<Rightarrow> cstr \<Rightarrow> nat \<Rightarrow> cstr \<Rightarrow> nat \<times> cstr" where
  "fixed_copy capacity str i data =
    (if i < capacity
     then if str i = 0 then (i, data) else fixed_copy capacity str (Suc i) (data(i := str i))
     else (i, data))"
  by pat_completeness auto
termination by (relation "measure (\<lambda>(c, _, i, _). c - i)") auto

definition fixed_set :: "nat \<Rightarrow> cstr \<Rightarrow> fixed_string \<Rightarrow> fixed_string" where
  "fixed_set capacity str fx =
    (let (i, data) = fixed_copy capacity str 0 (fx_data fx)
     in fx\<lparr>fx_size := i, fx_data := data(i := 0)\<rparr>)"

definition fixed_of :: "nat \<Rightarrow> cstr \<Rightarrow> nat \<Rightarrow> fixed_string \<Rightarrow> fixed_string" where
  "fixed_of capacity str sz0 fx =
    (let sz = (if sz0 > capacity then capacity else sz0);
         data = (\<lambda>i. if i < sz then str i else fx_data fx i)
     in fx\<lparr>fx_size := sz, fx_data := data(sz := 0)\<rparr>)"

definition fixed_eq :: "fixed_string \<Rightarrow> cstr \<Rightarrow> bool option" where
  "fixed_eq fx str = map_option (\<lambda>r. r = 0) (strcmp (fx_data fx) str)"

definition fixed_push :: "nat \<Rightarrow> u8 \<Rightarrow> fixed_string \<Rightarrow> fixed_string result" where
  "fixed_push capacity c fx =
    (let idx = fx_size fx;
         fx = fx\<lparr>fx_size := fx_size fx + 1\<rparr>
     in if \<not> fx_size fx \<le> capacity then Inl AssertFailed
        else let fx = fx\<lparr>fx_data := (fx_data fx)(idx := c)\<rparr>
             in Inr (fx\<lparr>fx_data := (fx_data fx)(fx_size fx := 0)\<rparr>))"


subsection \<open>String\<close>

definition eOwn :: u32 where "eOwn = 1"
definition eMalloc :: u32 where "eMalloc = 2"
definition eFreeable :: u32 where "eFreeable = eOwn OR eMalloc"
definition cLocalBuffer :: nat where "cLocalBuffer = 15"

record kstring =
  st_flags :: u32
  st_size :: nat
  st_data :: "cstr option"
  st_local :: cstr

text \<open>\<^verbatim>\<open>memcpy(dst, src, n); dst[n] = 0\<close> on a buffer that held \<open>old\<close>.\<close>

definition copy_terminated :: "cstr \<Rightarrow> nat \<Rightarrow> cstr \<Rightarrow> cstr" where
  "copy_terminated src n old = (\<lambda>i. if i < n then src i else if i = n then 0 else old i)"

text \<open>
  \<^verbatim>\<open>String::set(str, size, own)\<close>.  A null \<^verbatim>\<open>str\<close> is \<open>None\<close>; \<open>fresh\<close> is what the block
  from \<^verbatim>\<open>kmalloc\<close> holds; the result is \<open>None\<close> when \<^verbatim>\<open>strlen\<close> does not end.
\<close>

definition string_set :: "cstr \<Rightarrow> cstr option \<Rightarrow> nat \<Rightarrow> bool \<Rightarrow> kstring \<Rightarrow> kstring option" where
  "string_set fresh str size0 own s =
    (case str of
       None \<Rightarrow> Some (s\<lparr>st_size := 0, st_data := None, st_flags := 0\<rparr>)
     | Some p \<Rightarrow>
         (case (if size0 = 0 then strlen p else Some size0) of
            None \<Rightarrow> None
          | Some sz \<Rightarrow>
              let s = s\<lparr>st_size := sz\<rparr> in
              if own
              then let s = s\<lparr>st_flags := 0\<rparr> in
                if sz > 0
                then let s = (if sz < cLocalBuffer
                              then s\<lparr>st_data := None, st_local := copy_terminated p sz (st_local s)\<rparr>
                              else s\<lparr>st_data := Some (copy_terminated p sz fresh),
                                     st_flags := st_flags s OR eMalloc\<rparr>)
                     in Some (s\<lparr>st_flags := st_flags s OR eOwn\<rparr>)
                else Some (s\<lparr>st_data := None\<rparr>)
              else Some (s\<lparr>st_flags := eMalloc, st_data := Some p\<rparr>)))"

text \<open>\<^verbatim>\<open>data()\<close>; the pointer is followed only for a string with characters.\<close>

definition string_data :: "kstring \<Rightarrow> cstr" where
  "string_data s =
    (if st_flags s AND eMalloc \<noteq> 0 then (case st_data s of Some p \<Rightarrow> p | None \<Rightarrow> (\<lambda>_. 0)) else st_local s)"

definition string_copy :: "cstr \<Rightarrow> kstring \<Rightarrow> kstring \<Rightarrow> kstring" where
  "string_copy fresh other s =
    (let s = s\<lparr>st_flags := 0, st_size := st_size other\<rparr>;
         s = (if st_size s < cLocalBuffer
              then s\<lparr>st_data := None,
                     st_local := copy_terminated (string_data other) (st_size s) (st_local s)\<rparr>
              else s\<lparr>st_data := Some (copy_terminated (string_data other) (st_size s) fresh),
                     st_flags := st_flags s OR eMalloc\<rparr>)
     in s\<lparr>st_flags := st_flags s OR eOwn\<rparr>)"

text \<open>The destructor: whether \<^verbatim>\<open>kfree(data_)\<close> is called.\<close>

definition string_frees :: "kstring \<Rightarrow> bool" where
  "string_frees s \<longleftrightarrow> st_flags s AND eFreeable = eFreeable"

definition string_eq :: "kstring \<Rightarrow> kstring \<Rightarrow> bool" where
  "string_eq a b \<longleftrightarrow>
    (if st_size b \<noteq> st_size a then False else strncmp (string_data a) (string_data b) (st_size a) = 0)"

definition FNVOffsetBasis :: u32 where "FNVOffsetBasis = 2166136261"
definition FNVHashPrime :: u32 where "FNVHashPrime = 16777619"

definition update_hash :: "u32 \<Rightarrow> u8 \<Rightarrow> u32" where
  "update_hash hv byte = (hv XOR ucast byte) * FNVHashPrime"

definition finish_hash :: "u32 \<Rightarrow> u32" where
  "finish_hash hv = drop_bit 31 hv XOR (hv AND NOT 0)"

fun hash_loop :: "cstr \<Rightarrow> nat \<Rightarrow> nat \<Rightarrow> u32 \<Rightarrow> u32" where
  "hash_loop bp i 0 hv = hv"
| "hash_loop bp i (Suc n) hv = hash_loop bp (Suc i) n (update_hash hv (bp i))"

definition string_hash :: "kstring \<Rightarrow> u32" where
  "string_hash s = finish_hash (hash_loop (string_data s) 0 (st_size s) FNVOffsetBasis)"

declare fixed_copy.simps [simp del]


subsection \<open>What a FixedString holds\<close>

lemma fixed_copy_correct:
  assumes "is_cstr str bs" "i \<le> length bs" "i \<le> capacity" "\<And>j. j < i \<Longrightarrow> data j = bs ! j"
  shows "fst (fixed_copy capacity str i data) = min capacity (length bs)
    \<and> (\<forall>j < min capacity (length bs). snd (fixed_copy capacity str i data) j = bs ! j)"
  using assms
proof (induction "capacity - i" arbitrary: i data)
  case 0
  then show ?case
    by (subst (1 2) fixed_copy.simps) auto
next
  case (Suc d)
  then have i: "i < capacity" by simp
  show ?case
  proof (cases "i = length bs")
    case True
    then show ?thesis
      using Suc i by (subst (1 2) fixed_copy.simps) (auto simp: is_cstr_end)
  next
    case False
    then have "fixed_copy capacity str i data = fixed_copy capacity str (Suc i) (data(i := str i))"
      using Suc i by (subst fixed_copy.simps) (simp add: is_cstr_zero)
    moreover have "(data(i := str i)) j = bs ! j" if "j < Suc i" for j
      using that Suc False by (auto simp: is_cstr_nth less_Suc_eq)
    ultimately show ?thesis
      using Suc.hyps(1) [of "Suc i" "data(i := str i)"] Suc.hyps(2) Suc.prems False i by simp
  qed
qed

lemma fixed_set_holds:
  assumes "is_cstr str bs"
  shows "is_cstr (fx_data (fixed_set capacity str fx)) (take capacity bs)"
    "fx_size (fixed_set capacity str fx) = min capacity (length bs)"
proof -
  have c: "fst (fixed_copy capacity str 0 (fx_data fx)) = min capacity (length bs)"
    "\<And>j. j < min capacity (length bs) \<Longrightarrow> snd (fixed_copy capacity str 0 (fx_data fx)) j = bs ! j"
    using fixed_copy_correct [OF assms, of 0 capacity "fx_data fx"] by auto
  have nz: "0 \<notin> set (take capacity bs)"
    using assms by (auto simp: is_cstr_def dest: in_set_takeD)
  show "is_cstr (fx_data (fixed_set capacity str fx)) (take capacity bs)"
    using c nz by (auto simp: fixed_set_def Let_def is_cstr_def split_beta min.commute)
  show "fx_size (fixed_set capacity str fx) = min capacity (length bs)"
    using c by (simp add: fixed_set_def split_beta)
qed

lemma fixed_eq_correct:
  "is_cstr (fx_data fx) bs \<Longrightarrow> is_cstr str cs \<Longrightarrow> fixed_eq fx str = Some (bs = cs)"
  by (simp add: fixed_eq_def strcmp_correct)


subsection \<open>What a String holds\<close>

definition string_bytes :: "kstring \<Rightarrow> u8 list" where
  "string_bytes s = map (string_data s) [0..<st_size s]"

lemma string_bytes_set:
  assumes "string_set fresh (Some p) n own s = Some s'" "0 < n"
  shows "string_bytes s' = map p [0..<n]" "string_frees s' \<longleftrightarrow> own \<and> cLocalBuffer \<le> n"
  using assms
  by (auto simp: string_set_def Let_def string_bytes_def string_data_def copy_terminated_def
      string_frees_def eFreeable_def eOwn_def eMalloc_def split: if_splits)

lemma string_bytes_copy: "string_bytes (string_copy fresh other s) = string_bytes other"
  by (auto simp: string_copy_def Let_def string_bytes_def string_data_def [of "_ \<lparr>st_flags := _\<rparr>"]
      copy_terminated_def eOwn_def eMalloc_def)

lemma length_string_bytes [simp]: "length (string_bytes s) = st_size s"
  by (simp add: string_bytes_def)

lemma strncmp_from_prefix:
  assumes "\<And>j. i \<le> j \<Longrightarrow> j < len \<Longrightarrow> s j \<noteq> 0"
  shows "strncmp_from s t len i = 0 \<longleftrightarrow> (\<forall>j. i \<le> j \<and> j < len \<longrightarrow> s j = t j)"
  using assms
proof (induction s t len i rule: strncmp_from.induct)
  case (1 s t len i)
  have split: "(\<forall>j. i \<le> j \<and> j < len \<longrightarrow> s j = t j) \<longleftrightarrow>
    s i = t i \<and> (\<forall>j. Suc i \<le> j \<and> j < len \<longrightarrow> s j = t j)" if "i < len"
    using that by (metis Suc_leD le_antisym le_refl not_less_eq_eq)
  show ?case
  proof (cases "i < len \<and> s i = t i")
    case True
    then have "s i \<noteq> 0"
      using "1.prems" [of i] by simp
    with True show ?thesis
      using 1 split by (subst strncmp_from.simps) simp
  next
    case False
    then show ?thesis
      using "1.prems" by (subst strncmp_from.simps) auto
  qed
qed

definition string_ok :: "kstring \<Rightarrow> bool" where
  "string_ok s \<longleftrightarrow> 0 \<notin> set (string_bytes s)"

lemma string_eq_bytes:
  assumes "string_ok a"
  shows "string_eq a b \<longleftrightarrow> string_bytes a = string_bytes b"
proof -
  have "strncmp (string_data a) (string_data b) (st_size a) = 0 \<longleftrightarrow>
    (\<forall>j < st_size a. string_data a j = string_data b j)"
    using assms by (simp add: strncmp_def strncmp_from_prefix string_ok_def string_bytes_def image_iff)
  then show ?thesis
    by (auto simp: string_eq_def string_bytes_def dest: map_eq_imp_length_eq)
qed

lemma hash_loop_fold:
  "hash_loop bp i n hv = fold (\<lambda>b h. update_hash h b) (map bp [i..<i + n]) hv"
  by (induction n arbitrary: i hv) (simp_all add: upt_rec)

lemma string_hash_bytes:
  "string_hash s = finish_hash (fold (\<lambda>b h. update_hash h b) (string_bytes s) FNVOffsetBasis)"
  by (simp add: string_hash_def hash_loop_fold string_bytes_def)

lemma string_copy_owns: "string_frees (string_copy fresh other s) \<longleftrightarrow> cLocalBuffer \<le> st_size other"
  by (auto simp: string_copy_def Let_def string_frees_def eFreeable_def eOwn_def eMalloc_def)

end
