(* ===== verification/Hash_Table.thy ===== *)
theory Hash_Table
  imports Kstring
begin

text \<open>
  \<^verbatim>\<open>sys::HashTable\<close> of \<^verbatim>\<open>hash_table.hpp\<close>.  The chain of \<^verbatim>\<open>Entry\<close> objects of a bin is the list of
  its keys and values in link order.  The two functions of the \<^verbatim>\<open>Operations\<close> template
  argument are the parameters \<open>hash\<close> and \<open>eq\<close>.
\<close>

record ('k, 'v) hash_table =
  ht_values :: "nat \<Rightarrow> ('k \<times> 'v) list"
  ht_bins :: u32
  ht_entries :: u32

definition ht_MinSize :: u32 where "ht_MinSize = 16"

definition ht_new :: "('k, 'v) hash_table" where
  "ht_new = \<lparr>ht_values = (\<lambda>_. []), ht_bins = ht_MinSize, ht_entries = 0\<rparr>"

definition find_bin :: "u32 \<Rightarrow> u32 \<Rightarrow> nat" where
  "find_bin h total_bins = unat (h AND (total_bins - 1))"

definition max_density_p :: "('k, 'v) hash_table \<Rightarrow> bool" where
  "max_density_p t \<longleftrightarrow> (ht_bins t * 3) div 4 \<le> ht_entries t"

definition min_density_p :: "('k, 'v) hash_table \<Rightarrow> bool" where
  "min_density_p t \<longleftrightarrow> ht_entries t < (ht_bins t * 3) div 10"

text \<open>
  One turn of the inner loop of \<^verbatim>\<open>redistribute\<close>: the entry's link is cleared, and the
  first entry of its new bin, if there is one, is linked to it.
\<close>

definition relink :: "'e \<Rightarrow> 'e list \<Rightarrow> 'e list" where
  "relink e chain = (case chain of [] \<Rightarrow> [e] | slot # _ \<Rightarrow> [slot, e])"

fun redistribute_chain ::
  "('k \<Rightarrow> u32) \<Rightarrow> u32 \<Rightarrow> ('k \<times> 'v) list \<Rightarrow> (nat \<Rightarrow> ('k \<times> 'v) list) \<Rightarrow> nat \<Rightarrow> ('k \<times> 'v) list" where
  "redistribute_chain hash sz [] vals = vals"
| "redistribute_chain hash sz (e # link) vals =
    (let bin = find_bin (hash (fst e)) sz
     in redistribute_chain hash sz link (vals(bin := relink e (vals bin))))"

definition redistribute :: "('k \<Rightarrow> u32) \<Rightarrow> u32 \<Rightarrow> ('k, 'v) hash_table \<Rightarrow> ('k, 'v) hash_table" where
  "redistribute hash sz t =
    t\<lparr>ht_values := fold (\<lambda>i vals. redistribute_chain hash sz (ht_values t i) vals)
        [0..<unat (ht_bins t)] (\<lambda>_. []),
      ht_bins := sz\<rparr>"

fun chain_store :: "('k \<Rightarrow> 'k \<Rightarrow> bool) \<Rightarrow> 'k \<Rightarrow> 'v \<Rightarrow> ('k \<times> 'v) list \<Rightarrow> bool \<times> ('k \<times> 'v) list" where
  "chain_store eq key val [] = (True, [(key, val)])"
| "chain_store eq key val (e # chain) =
    (if eq (fst e) key then (False, (fst e, val) # chain)
     else let (added, chain') = chain_store eq key val chain in (added, e # chain'))"

definition ht_store ::
  "('k \<Rightarrow> u32) \<Rightarrow> ('k \<Rightarrow> 'k \<Rightarrow> bool) \<Rightarrow> 'k \<Rightarrow> 'v \<Rightarrow> ('k, 'v) hash_table \<Rightarrow> ('k, 'v) hash_table" where
  "ht_store hash eq key val t =
    (let t = (if max_density_p t then redistribute hash (ht_bins t * 2) t else t);
         bin = find_bin (hash key) (ht_bins t);
         (added, chain) = chain_store eq key val (ht_values t bin);
         t = t\<lparr>ht_values := (ht_values t)(bin := chain)\<rparr>
     in if added then t\<lparr>ht_entries := ht_entries t + 1\<rparr> else t)"

fun chain_fetch :: "('k \<Rightarrow> 'k \<Rightarrow> bool) \<Rightarrow> 'k \<Rightarrow> ('k \<times> 'v) list \<Rightarrow> 'v option" where
  "chain_fetch eq key [] = None"
| "chain_fetch eq key (e # chain) = (if eq (fst e) key then Some (snd e) else chain_fetch eq key chain)"

definition ht_fetch ::
  "('k \<Rightarrow> u32) \<Rightarrow> ('k \<Rightarrow> 'k \<Rightarrow> bool) \<Rightarrow> 'k \<Rightarrow> ('k, 'v) hash_table \<Rightarrow> 'v option" where
  "ht_fetch hash eq key t = chain_fetch eq key (ht_values t (find_bin (hash key) (ht_bins t)))"

fun chain_remove :: "('k \<Rightarrow> 'k \<Rightarrow> bool) \<Rightarrow> 'k \<Rightarrow> ('k \<times> 'v) list \<Rightarrow> bool \<times> ('k \<times> 'v) list" where
  "chain_remove eq key [] = (False, [])"
| "chain_remove eq key (e # chain) =
    (if eq (fst e) key then (True, chain)
     else let (found, chain') = chain_remove eq key chain in (found, e # chain'))"

definition ht_remove ::
  "('k \<Rightarrow> u32) \<Rightarrow> ('k \<Rightarrow> 'k \<Rightarrow> bool) \<Rightarrow> 'k \<Rightarrow> ('k, 'v) hash_table \<Rightarrow> bool \<times> ('k, 'v) hash_table" where
  "ht_remove hash eq key t =
    (let t = (if min_density_p t then redistribute hash (ht_bins t div 2) t else t);
         bin = find_bin (hash key) (ht_bins t);
         (found, chain) = chain_remove eq key (ht_values t bin)
     in if found
        then (True, t\<lparr>ht_values := (ht_values t)(bin := chain), ht_entries := ht_entries t - 1\<rparr>)
        else (False, t))"

text \<open>
  \<^verbatim>\<open>Iterator\<close>: \<^verbatim>\<open>bin_\<close> and the entry last returned, given by its bin and its position in
  the chain.
\<close>

record ht_iterator =
  it_bin :: nat
  it_entry :: "(nat \<times> nat) option"

definition ht_iterator_new :: ht_iterator where
  "ht_iterator_new = \<lparr>it_bin = 0, it_entry = None\<rparr>"

function scan_bins :: "('k, 'v) hash_table \<Rightarrow> ht_iterator \<Rightarrow> ('k \<times> 'v) option \<times> ht_iterator" where
  "scan_bins t it =
    (if it_bin it < unat (ht_bins t)
     then case ht_values t (it_bin it) of
            e # _ \<Rightarrow> (Some e, it\<lparr>it_entry := Some (it_bin it, 0)\<rparr>)
          | [] \<Rightarrow> scan_bins t (it\<lparr>it_bin := it_bin it + 1\<rparr>)
     else (None, it))"
  by pat_completeness auto
termination by (relation "measure (\<lambda>(t, it). unat (ht_bins t) - it_bin it)") auto

definition ht_next :: "('k, 'v) hash_table \<Rightarrow> ht_iterator \<Rightarrow> ('k \<times> 'v) option \<times> ht_iterator" where
  "ht_next t it =
    (case it_entry it of
       Some (b, i) \<Rightarrow>
         if Suc i < length (ht_values t b)
         then (Some (ht_values t b ! Suc i), it\<lparr>it_entry := Some (b, Suc i)\<rparr>)
         else scan_bins t (it\<lparr>it_bin := it_bin it + 1\<rparr>)
     | None \<Rightarrow> scan_bins t it)"

declare scan_bins.simps [simp del]

text \<open>The integer mix shared by \<^verbatim>\<open>IdentityHashOperations\<close> and \<^verbatim>\<open>OOHashOperations\<close>.\<close>

definition mix_hash :: "u32 \<Rightarrow> u32" where
  "mix_hash a0 =
    (let a = (a0 + 0x7ed55d16) + push_bit 12 a0;
         a = (a XOR 0xc761c23c) XOR drop_bit 19 a;
         a = (a + 0x165667b1) + push_bit 5 a;
         a = (a + 0xd3a2646c) XOR push_bit 9 a;
         a = (a + 0xfd7046c5) + push_bit 3 a;
         a = (a XOR 0xb55a4f09) XOR drop_bit 16 a
     in a)"

definition identity_hash :: "u32 \<Rightarrow> u32" where
  "identity_hash k = mix_hash k"

definition identity_eq :: "u32 \<Rightarrow> u32 \<Rightarrow> bool" where
  "identity_eq a b \<longleftrightarrow> a = b"

definition pair_hash :: "u32 \<times> u32 \<Rightarrow> u32" where
  "pair_hash p = fst p XOR snd p"

definition pair_eq :: "u32 \<times> u32 \<Rightarrow> u32 \<times> u32 \<Rightarrow> bool" where
  "pair_eq p q \<longleftrightarrow> fst p = fst q \<and> snd p = snd q"

definition oo_hash_string :: "kstring \<Rightarrow> u32" where
  "oo_hash_string k = mix_hash (string_hash k)"

definition oo_hash_pair :: "u32 \<times> u32 \<Rightarrow> u32" where
  "oo_hash_pair k = mix_hash (pair_hash k)"

definition region_hash :: "u32 \<times> u32 \<Rightarrow> u32" where
  "region_hash r = mix_hash (fst r XOR snd r)"

definition region_eq :: "u32 \<times> u32 \<Rightarrow> u32 \<times> u32 \<Rightarrow> bool" where
  "region_eq a b \<longleftrightarrow> fst a = fst b \<and> snd a = snd b"


subsection \<open>What redistribution keeps\<close>

definition all_entries :: "('k, 'v) hash_table \<Rightarrow> ('k \<times> 'v) list" where
  "all_entries t = concat (map (ht_values t) [0..<unat (ht_bins t)])"

definition first_last :: "'a list \<Rightarrow> 'a list" where
  "first_last xs = (case xs of [] \<Rightarrow> [] | x # ys \<Rightarrow> if ys = [] then [x] else [x, last ys])"

lemma first_last_snoc: "relink e (first_last xs) = first_last (xs @ [e])"
  by (cases xs) (auto simp: first_last_def relink_def)

lemma set_first_last: "set (first_last xs) \<subseteq> set xs"
  by (cases xs) (auto simp: first_last_def)

lemma sorted_wrt_first_last: "sorted_wrt R xs \<Longrightarrow> sorted_wrt R (first_last xs)"
  by (cases xs) (auto simp: first_last_def)

lemma redistribute_chain_first_last:
  assumes "\<And>b. vals b = first_last (filter (\<lambda>e. find_bin (hash (fst e)) sz = b) seen)"
  shows "redistribute_chain hash sz chain vals b
    = first_last (filter (\<lambda>e. find_bin (hash (fst e)) sz = b) (seen @ chain))"
  using assms
proof (induction chain arbitrary: vals seen)
  case (Cons e chain)
  define bin where "bin = find_bin (hash (fst e)) sz"
  have "(vals(bin := relink e (vals bin))) b
      = first_last (filter (\<lambda>e. find_bin (hash (fst e)) sz = b) (seen @ [e]))" for b
    using Cons.prems by (auto simp: first_last_snoc bin_def)
  from Cons.IH [where vals = "vals(bin := relink e (vals bin))", OF this] show ?case
    by (simp add: bin_def Let_def fun_upd_def)
qed simp

lemma redistribute_fold:
  "fold (\<lambda>i vals. redistribute_chain hash sz (cs i) vals) [0..<n] (\<lambda>_. []) b
    = first_last (filter (\<lambda>e. find_bin (hash (fst e)) sz = b) (concat (map cs [0..<n])))"
proof (induction n arbitrary: b)
  case 0
  then show ?case by (simp add: first_last_def)
next
  case (Suc n)
  then show ?case
    by (simp add: redistribute_chain_first_last [where seen = "concat (map cs [0..<n])"])
qed

lemma redistribute_values:
  "ht_values (redistribute hash sz t) b
    = first_last (filter (\<lambda>e. find_bin (hash (fst e)) sz = b) (all_entries t))"
  by (simp add: redistribute_def redistribute_fold all_entries_def)

lemma redistribute_fields [simp]:
  "ht_bins (redistribute hash sz t) = sz" "ht_entries (redistribute hash sz t) = ht_entries t"
  by (simp_all add: redistribute_def)


subsection \<open>Chains\<close>

definition chain_distinct :: "('k \<Rightarrow> 'k \<Rightarrow> bool) \<Rightarrow> ('k \<times> 'v) list \<Rightarrow> bool" where
  "chain_distinct eq chain \<longleftrightarrow> sorted_wrt (\<lambda>a b. \<not> eq (fst a) (fst b)) chain"

lemma chain_fetch_mem: "chain_fetch eq k chain = Some v \<Longrightarrow> \<exists>e \<in> set chain. eq (fst e) k \<and> snd e = v"
  by (induction chain) (auto split: if_splits)

lemma chain_fetch_none: "chain_fetch eq k chain = None \<longleftrightarrow> (\<forall>e \<in> set chain. \<not> eq (fst e) k)"
  by (induction chain) auto

text \<open>
  The contract of the \<^verbatim>\<open>Operations\<close> argument: on the keys that are used, comparison is an
  equivalence and equal keys have equal hashes.
\<close>

locale key_ops =
  fixes hash :: "'k \<Rightarrow> u32" and eq :: "'k \<Rightarrow> 'k \<Rightarrow> bool" and good :: "'k \<Rightarrow> bool"
  assumes eq_refl: "good a \<Longrightarrow> eq a a"
    and eq_sym: "good a \<Longrightarrow> good b \<Longrightarrow> eq a b \<Longrightarrow> eq b a"
    and eq_trans: "good a \<Longrightarrow> good b \<Longrightarrow> good c \<Longrightarrow> eq a b \<Longrightarrow> eq b c \<Longrightarrow> eq a c"
    and eq_hash: "good a \<Longrightarrow> good b \<Longrightarrow> eq a b \<Longrightarrow> hash a = hash b"
begin

lemma fetch_distinct:
  assumes "chain_distinct eq chain" "\<forall>e \<in> set chain. good (fst e)" "good k"
    "e \<in> set chain" "eq (fst e) k"
  shows "chain_fetch eq k chain = Some (snd e)"
  using assms
proof (induction chain)
  case (Cons a chain)
  show ?case
  proof (cases "e = a")
    case False
    then have "e \<in> set chain" using Cons.prems by simp
    moreover have "\<not> eq (fst a) k"
    proof
      assume "eq (fst a) k"
      then have "eq (fst a) (fst e)"
        using Cons.prems \<open>e \<in> set chain\<close> by (metis eq_sym eq_trans list.set_intros(1))
      then show False
        using Cons.prems(1) \<open>e \<in> set chain\<close> by (auto simp: chain_distinct_def)
    qed
    ultimately show ?thesis
      using Cons by (auto simp: chain_distinct_def)
  qed (use Cons.prems in auto)
qed simp

lemma chain_store_spec:
  assumes "chain_distinct eq chain" "\<forall>e \<in> set chain. good (fst e)" "good k"
    "chain_store eq k v chain = (added, chain')"
  shows "(\<forall>e \<in> set chain'. good (fst e))
    \<and> chain_distinct eq chain' \<and> chain_fetch eq k chain' = Some v
    \<and> (\<forall>k'. good k' \<and> \<not> eq k k' \<longrightarrow> chain_fetch eq k' chain' = chain_fetch eq k' chain)
    \<and> fst ` set chain' \<subseteq> insert k (fst ` set chain)"
  using assms
proof (induction chain arbitrary: chain')
  case Nil
  then show ?case
    by (auto simp: chain_distinct_def eq_refl)
next
  case (Cons e chain)
  show ?case
  proof (cases "eq (fst e) k")
    case True
    then have "\<not> eq (fst e) k'" if "good k'" "\<not> eq k k'" for k'
      using that Cons.prems by (metis eq_sym eq_trans list.set_intros(1))
    then show ?thesis
      using Cons.prems True by (auto simp: chain_distinct_def)
  next
    case False
    obtain rest where r: "chain_store eq k v chain = (added, rest)" "chain' = e # rest"
      using False Cons.prems(4) by (auto split: prod.splits)
    have IH: "(\<forall>e \<in> set rest. good (fst e))"
      "chain_distinct eq rest" "chain_fetch eq k rest = Some v"
      "(\<forall>k'. good k' \<and> \<not> eq k k' \<longrightarrow> chain_fetch eq k' rest = chain_fetch eq k' chain)"
      "fst ` set rest \<subseteq> insert k (fst ` set chain)"
      using Cons.IH [OF _ _ Cons.prems(3) r(1)] Cons.prems by (auto simp: chain_distinct_def)
    have "\<not> eq (fst e) (fst x)" if "x \<in> set rest" for x
    proof -
      have "fst x = k \<or> fst x \<in> fst ` set chain" using IH(5) that by auto
      then show ?thesis using False Cons.prems(1) by (auto simp: chain_distinct_def)
    qed
    then show ?thesis
      using IH r False Cons.prems(2) by (auto simp: chain_distinct_def)
  qed
qed

lemma chain_remove_spec:
  assumes "chain_distinct eq chain" "\<forall>e \<in> set chain. good (fst e)" "good k"
    "chain_remove eq k chain = (found, chain')"
  shows "set chain' \<subseteq> set chain \<and> chain_distinct eq chain' \<and> chain_fetch eq k chain' = None
    \<and> (found \<longleftrightarrow> chain_fetch eq k chain \<noteq> None)
    \<and> (\<forall>k'. good k' \<and> \<not> eq k k' \<longrightarrow> chain_fetch eq k' chain' = chain_fetch eq k' chain)"
  using assms
proof (induction chain arbitrary: chain')
  case (Cons e chain)
  show ?case
  proof (cases "eq (fst e) k")
    case True
    have "\<not> eq (fst e) k'" if "good k'" "\<not> eq k k'" for k'
      using True that Cons.prems by (metis eq_sym eq_trans list.set_intros(1))
    moreover have "\<not> eq (fst x) k" if "x \<in> set chain" for x
      using that True Cons.prems unfolding chain_distinct_def
      by (metis eq_sym eq_trans list.set_intros sorted_wrt.simps(2))
    ultimately show ?thesis
      using Cons.prems True by (auto simp: chain_distinct_def chain_fetch_none)
  next
    case False
    obtain rest where r: "chain_remove eq k chain = (found, rest)" "chain' = e # rest"
      using False Cons.prems(4) by (auto split: prod.splits)
    then show ?thesis
      using Cons.IH [OF _ _ Cons.prems(3) r(1)] Cons.prems False by (auto simp: chain_distinct_def)
  qed
qed (auto simp: chain_distinct_def)

end


subsection \<open>The table invariant\<close>

definition ht_inv :: "('k \<Rightarrow> u32) \<Rightarrow> ('k \<Rightarrow> 'k \<Rightarrow> bool) \<Rightarrow> ('k \<Rightarrow> bool) \<Rightarrow> ('k, 'v) hash_table \<Rightarrow> bool" where
  "ht_inv hash eq good t \<longleftrightarrow>
    (\<exists>n. 1 \<le> n \<and> n < 32 \<and> ht_bins t = 2 ^ n)
    \<and> (\<forall>b. chain_distinct eq (ht_values t b))
    \<and> (\<forall>b. \<forall>e \<in> set (ht_values t b). good (fst e) \<and> find_bin (hash (fst e)) (ht_bins t) = b)"

lemma unat_power_u32: "n < 32 \<Longrightarrow> unat ((2::u32) ^ n) = 2 ^ n"
  using unat_of_nat_u32 [of "2 ^ n"] power_strict_increasing [of n 32 "2::nat"] by simp

lemma find_bin_less: "1 \<le> n \<Longrightarrow> n < 32 \<Longrightarrow> total_bins = 2 ^ n \<Longrightarrow> find_bin h total_bins < unat total_bins"
proof -
  assume n: "1 \<le> n" "n < 32" "total_bins = 2 ^ n"
  have "h AND (2 ^ n - 1) = take_bit n h"
    by (simp only: take_bit_eq_mask mask_eq_exp_minus_1)
  then have "find_bin h total_bins = take_bit n (unat h)"
    unfolding find_bin_def n(3) by (simp only: unsigned_take_bit_eq)
  moreover have "unat total_bins = 2 ^ n"
    using n by (simp add: unat_power_u32)
  ultimately show ?thesis
    by simp
qed

lemma ht_inv_entry:
  "ht_inv hash eq good t \<Longrightarrow> e \<in> set (ht_values t b) \<Longrightarrow> good (fst e)"
  "ht_inv hash eq good t \<Longrightarrow> e \<in> set (ht_values t b) \<Longrightarrow> find_bin (hash (fst e)) (ht_bins t) = b"
  "ht_inv hash eq good t \<Longrightarrow> chain_distinct eq (ht_values t b)"
  unfolding ht_inv_def by blast+

context key_ops
begin

lemma inv_new: "ht_inv hash eq good ht_new"
proof -
  have "\<exists>n::nat. 1 \<le> n \<and> n < 32 \<and> (16::u32) = 2 ^ n"
    by (rule exI [of _ 4]) simp
  then show ?thesis
    by (simp add: ht_inv_def ht_new_def ht_MinSize_def chain_distinct_def)
qed

lemma inv_bins: "ht_inv hash eq good t \<Longrightarrow> find_bin h (ht_bins t) < unat (ht_bins t)"
  using find_bin_less by (auto simp: ht_inv_def)

lemma fetch_iff:
  assumes "ht_inv hash eq good t" "good k"
  shows "ht_fetch hash eq k t = Some v \<longleftrightarrow> (\<exists>e \<in> set (all_entries t). eq (fst e) k \<and> snd e = v)"
proof
  assume "ht_fetch hash eq k t = Some v"
  then show "\<exists>e \<in> set (all_entries t). eq (fst e) k \<and> snd e = v"
    using chain_fetch_mem inv_bins [OF assms(1)] by (fastforce simp: ht_fetch_def all_entries_def)
next
  assume "\<exists>e \<in> set (all_entries t). eq (fst e) k \<and> snd e = v"
  then obtain b e where e: "e \<in> set (ht_values t b)" "eq (fst e) k" "snd e = v"
    by (auto simp: all_entries_def)
  then have "hash (fst e) = hash k"
    using assms ht_inv_entry eq_hash by metis
  then have "b = find_bin (hash k) (ht_bins t)"
    using e ht_inv_entry(2) [OF assms(1) e(1)] by simp
  then show "ht_fetch hash eq k t = Some v"
    using e fetch_distinct [OF ht_inv_entry(3) [OF assms(1)] _ assms(2) e(1,2)]
      ht_inv_entry(1) [OF assms(1)] by (simp add: ht_fetch_def)
qed

lemma entries_distinct: "ht_inv hash eq good t \<Longrightarrow> chain_distinct eq (all_entries t)"
proof -
  assume inv: "ht_inv hash eq good t"
  have "sorted_wrt (\<lambda>a b. \<not> eq (fst a) (fst b)) (concat (map (ht_values t) [0..<n]))" for n
  proof (induction n)
    case (Suc n)
    have "\<not> eq (fst a) (fst e)" if "i < n" "a \<in> set (ht_values t i)" "e \<in> set (ht_values t n)" for i a e
      using inv that eq_hash unfolding ht_inv_def by (metis nat_neq_iff)
    then show ?case
      using Suc inv by (auto simp: sorted_wrt_append ht_inv_def chain_distinct_def)
  qed simp
  then show ?thesis
    by (simp add: chain_distinct_def all_entries_def)
qed

lemma inv_redistribute:
  assumes "ht_inv hash eq good t" "1 \<le> n" "n < 32" "sz = 2 ^ n"
  shows "ht_inv hash eq good (redistribute hash sz t)"
proof -
  have "set (ht_values (redistribute hash sz t) b)
    \<subseteq> set (filter (\<lambda>e. find_bin (hash (fst e)) sz = b) (all_entries t))" for b
    unfolding redistribute_values by (rule set_first_last)
  moreover have "chain_distinct eq (ht_values (redistribute hash sz t) b)" for b
    using entries_distinct [OF assms(1)]
    by (simp add: redistribute_values chain_distinct_def sorted_wrt_filter sorted_wrt_first_last)
  ultimately show ?thesis
    using assms by (fastforce simp: ht_inv_def all_entries_def)
qed

lemma fetch_redistribute:
  assumes "ht_inv hash eq good t" "1 \<le> n" "n < 32" "sz = 2 ^ n" "good k"
    "ht_fetch hash eq k (redistribute hash sz t) = Some v"
  shows "ht_fetch hash eq k t = Some v"
proof -
  have "set (ht_values (redistribute hash sz t) b) \<subseteq> set (all_entries t)" for b
    unfolding redistribute_values using set_first_last by fastforce
  then have "set (all_entries (redistribute hash sz t)) \<subseteq> set (all_entries t)"
    unfolding all_entries_def [of "redistribute hash sz t"] by auto
  moreover have "\<exists>e \<in> set (all_entries (redistribute hash sz t)). eq (fst e) k \<and> snd e = v"
    using assms(6) fetch_iff [OF inv_redistribute [OF assms(1-4)] assms(5)] by simp
  ultimately show ?thesis
    using fetch_iff [OF assms(1,5)] by blast
qed

lemma store_here:
  assumes "ht_inv hash eq good t" "good k"
    and bin: "bin = find_bin (hash k) (ht_bins t)"
    and cs: "chain_store eq k v (ht_values t bin) = (added, chain)"
    and t': "t' = t\<lparr>ht_values := (ht_values t)(bin := chain), ht_entries := n\<rparr>"
  shows "ht_inv hash eq good t' \<and> ht_fetch hash eq k t' = Some v
    \<and> (\<forall>k'. good k' \<and> \<not> eq k k' \<longrightarrow> ht_fetch hash eq k' t' = ht_fetch hash eq k' t)"
proof -
  have sp: "\<forall>e \<in> set chain. good (fst e)" "chain_distinct eq chain" "chain_fetch eq k chain = Some v"
    "\<And>k'. good k' \<Longrightarrow> \<not> eq k k' \<Longrightarrow> chain_fetch eq k' chain = chain_fetch eq k' (ht_values t bin)"
    "fst ` set chain \<subseteq> insert k (fst ` set (ht_values t bin))"
    using chain_store_spec [OF _ _ assms(2) cs] assms(1) by (auto simp: ht_inv_def)
  have "find_bin (hash (fst e)) (ht_bins t) = bin" if "e \<in> set chain" for e
    using sp(5) that bin assms(1) by (fastforce simp: ht_inv_def)
  then have "ht_inv hash eq good t'"
    using assms(1) sp t' by (auto simp: ht_inv_def)
  moreover have "ht_fetch hash eq k t' = Some v"
    using t' bin sp by (simp add: ht_fetch_def)
  moreover have "ht_fetch hash eq k' t' = ht_fetch hash eq k' t" if "good k'" "\<not> eq k k'" for k'
    using t' sp(4) [OF that] by (auto simp: ht_fetch_def)
  ultimately show ?thesis by blast
qed

lemma bins_double: "ht_inv hash eq good t \<Longrightarrow> ht_bins t < 2 ^ 31 \<Longrightarrow> \<exists>n. 1 \<le> n \<and> n < 32 \<and> ht_bins t * 2 = 2 ^ n"
proof -
  assume inv: "ht_inv hash eq good t" and lt: "ht_bins t < 2 ^ 31"
  obtain n where n: "1 \<le> n" "n < 32" "ht_bins t = 2 ^ n"
    using inv by (auto simp: ht_inv_def)
  have "n \<noteq> 31" using lt n by auto
  then show ?thesis
    using n by (intro exI [of _ "Suc n"]) simp
qed

lemma store_spec:
  assumes "ht_inv hash eq good t" "good k" "ht_bins t < 2 ^ 31"
  shows "ht_inv hash eq good (ht_store hash eq k v t)
    \<and> ht_fetch hash eq k (ht_store hash eq k v t) = Some v
    \<and> (\<forall>k'. good k' \<and> \<not> eq k k' \<longrightarrow>
        ht_fetch hash eq k' (ht_store hash eq k v t)
        = ht_fetch hash eq k' (if max_density_p t then redistribute hash (ht_bins t * 2) t else t))"
proof -
  define u where "u = (if max_density_p t then redistribute hash (ht_bins t * 2) t else t)"
  obtain n where "1 \<le> n" "n < 32" "ht_bins t * 2 = 2 ^ n"
    using bins_double [OF assms(1,3)] by blast
  then have inv: "ht_inv hash eq good u"
    using inv_redistribute [OF assms(1)] assms(1) by (simp add: u_def)
  define bin where "bin = find_bin (hash k) (ht_bins u)"
  obtain added chain where cs: "chain_store eq k v (ht_values u bin) = (added, chain)"
    by fastforce
  have "ht_store hash eq k v t = u\<lparr>ht_values := (ht_values u)(bin := chain),
      ht_entries := (if added then ht_entries u + 1 else ht_entries u)\<rparr>"
    using cs by (simp add: ht_store_def u_def [symmetric] bin_def [symmetric] Let_def)
  from store_here [OF inv assms(2) bin_def cs this] show ?thesis
    by (simp add: u_def)
qed

end

context key_ops
begin

lemma chain_fetch_key:
  "(\<And>e. e \<in> set chain \<Longrightarrow> eq (fst e) k' \<longleftrightarrow> eq (fst e) k) \<Longrightarrow> chain_fetch eq k' chain = chain_fetch eq k chain"
  by (induction chain) auto

lemma fetch_key:
  assumes "ht_inv hash eq good t" "good k" "good k'" "eq k k'"
  shows "ht_fetch hash eq k' t = ht_fetch hash eq k t"
proof -
  have "eq (fst e) k' \<longleftrightarrow> eq (fst e) k" if "good (fst e)" for e
    using that assms(2-4) eq_sym eq_trans by metis
  then show ?thesis
    using ht_inv_entry(1) [OF assms(1)] eq_hash [OF assms(2-4)]
    by (auto simp: ht_fetch_def intro!: chain_fetch_key)
qed

lemma bins_halve:
  assumes "ht_inv hash eq good t" "min_density_p t"
  shows "\<exists>n. 1 \<le> n \<and> n < 32 \<and> ht_bins t div 2 = 2 ^ n"
proof -
  obtain n where n: "1 \<le> n" "n < 32" "ht_bins t = 2 ^ n"
    using assms(1) by (auto simp: ht_inv_def)
  have "n \<noteq> 1"
    using assms(2) n by (auto simp: min_density_p_def)
  then obtain k where k: "n = Suc k" "1 \<le> k"
    using n by (cases n) auto
  have "unat (ht_bins t div 2) = unat (2 ^ k :: u32)"
    using k n unat_power_u32 [of k] unat_power_u32 [of n] by (simp add: unat_div_distrib)
  then have "ht_bins t div 2 = 2 ^ k"
    by (simp only: word_unat_eq_iff)
  then show ?thesis
    using k n by (intro exI [of _ k]) simp
qed

lemma remove_here:
  assumes "ht_inv hash eq good t" "good k"
    and bin: "bin = find_bin (hash k) (ht_bins t)"
    and cr: "chain_remove eq k (ht_values t bin) = (found, chain)"
    and t': "t' = t\<lparr>ht_values := (ht_values t)(bin := chain), ht_entries := n\<rparr>"
  shows "ht_inv hash eq good t' \<and> ht_fetch hash eq k t' = None
    \<and> (found \<longleftrightarrow> ht_fetch hash eq k t \<noteq> None)
    \<and> (\<forall>k'. good k' \<and> \<not> eq k k' \<longrightarrow> ht_fetch hash eq k' t' = ht_fetch hash eq k' t)"
proof -
  have sp: "set chain \<subseteq> set (ht_values t bin)" "chain_distinct eq chain" "chain_fetch eq k chain = None"
    "found \<longleftrightarrow> chain_fetch eq k (ht_values t bin) \<noteq> None"
    "\<And>k'. good k' \<Longrightarrow> \<not> eq k k' \<Longrightarrow> chain_fetch eq k' chain = chain_fetch eq k' (ht_values t bin)"
    using chain_remove_spec [OF ht_inv_entry(3) [OF assms(1)] _ assms(2) cr] ht_inv_entry(1) [OF assms(1)]
    by auto
  have "ht_inv hash eq good t'"
    using assms(1) sp(1,2) t' unfolding ht_inv_def by (auto 0 3)
  moreover have "ht_fetch hash eq k t' = None" "found \<longleftrightarrow> ht_fetch hash eq k t \<noteq> None"
    using t' bin sp by (simp_all add: ht_fetch_def)
  moreover have "ht_fetch hash eq k' t' = ht_fetch hash eq k' t" if "good k'" "\<not> eq k k'" for k'
    using t' sp(5) [OF that] by (auto simp: ht_fetch_def)
  ultimately show ?thesis by blast
qed

lemma chain_remove_absent: "chain_remove eq k chain = (False, chain') \<Longrightarrow> chain' = chain"
  by (induction chain arbitrary: chain') (auto split: if_splits prod.splits)

lemma remove_spec:
  assumes "ht_inv hash eq good t" "good k" "ht_remove hash eq k t = (found, t')"
  defines "u \<equiv> if min_density_p t then redistribute hash (ht_bins t div 2) t else t"
  shows "ht_inv hash eq good t' \<and> ht_fetch hash eq k t' = None
    \<and> (found \<longleftrightarrow> ht_fetch hash eq k u \<noteq> None)
    \<and> (\<forall>k'. good k' \<and> \<not> eq k k' \<longrightarrow> ht_fetch hash eq k' t' = ht_fetch hash eq k' u)"
proof -
  have inv: "ht_inv hash eq good u"
  proof (cases "min_density_p t")
    case True
    then obtain n where "1 \<le> n" "n < 32" "ht_bins t div 2 = 2 ^ n"
      using bins_halve assms(1) by blast
    then show ?thesis
      using True inv_redistribute [OF assms(1)] by (simp add: u_def)
  qed (use assms(1) in \<open>simp add: u_def\<close>)
  define bin where "bin = find_bin (hash k) (ht_bins u)"
  obtain f chain where cr: "chain_remove eq k (ht_values u bin) = (f, chain)"
    by fastforce
  have res: "(found, t') = (if f then (True, u\<lparr>ht_values := (ht_values u)(bin := chain),
      ht_entries := ht_entries u - 1\<rparr>) else (False, u))"
    using assms(3) cr by (auto simp: ht_remove_def u_def [symmetric] bin_def Let_def split: if_splits)
  have "t' = u\<lparr>ht_values := (ht_values u)(bin := chain),
      ht_entries := if f then ht_entries u - 1 else ht_entries u\<rparr>" "found = f"
    using res cr chain_remove_absent [of k "ht_values u bin" chain] by (auto split: if_splits)
  from remove_here [OF inv assms(2) bin_def cr this(1)] show ?thesis
    unfolding \<open>found = f\<close> .
qed

end

context key_ops
begin

lemma entry_good: "ht_inv hash eq good t \<Longrightarrow> e \<in> set (all_entries t) \<Longrightarrow> good (fst e)"
  unfolding all_entries_def using ht_inv_entry(1) by fastforce

lemma redistribute_found:
  assumes inv: "ht_inv hash eq good t" and n: "1 \<le> n" "n < 32" "sz = 2 ^ n"
    and bin: "filter (\<lambda>e. find_bin (hash (fst e)) sz = b) (all_entries t) = x # ys @ [z]" and e: "e = x \<or> e = z"
  shows "ht_fetch hash eq (fst e) (redistribute hash sz t) = Some (snd e)"
proof -
  have mem: "e \<in> set (filter (\<lambda>e. find_bin (hash (fst e)) sz = b) (all_entries t))"
    unfolding bin using e by auto
  then have here: "find_bin (hash (fst e)) sz = b" and good: "good (fst e)"
    using entry_good [OF inv, of e] by simp_all
  have "e \<in> set (ht_values (redistribute hash sz t) b)"
    unfolding redistribute_values bin using e by (auto simp: first_last_def)
  moreover have "b < unat sz"
    using here find_bin_less [OF n] by blast
  ultimately have "e \<in> set (all_entries (redistribute hash sz t))"
    by (auto simp: all_entries_def)
  then show ?thesis
    using fetch_iff [OF inv_redistribute [OF inv n] good] eq_refl [OF good] by blast
qed

lemma redistribute_lost:
  assumes inv: "ht_inv hash eq good t"
    and bin: "filter (\<lambda>e. find_bin (hash (fst e)) sz = b) (all_entries t) = x # ys @ [z]" and e: "e \<in> set ys"
  shows "ht_fetch hash eq (fst e) t = Some (snd e)" "ht_fetch hash eq (fst e) (redistribute hash sz t) = None"
proof -
  have mem: "{x, e, z} \<subseteq> set (filter (\<lambda>e. find_bin (hash (fst e)) sz = b) (all_entries t))"
    unfolding bin using e by auto
  then have here: "find_bin (hash (fst e)) sz = b" and all: "e \<in> set (all_entries t)"
    and good: "good (fst x)" "good (fst e)" "good (fst z)"
    using entry_good [OF inv] by simp_all
  show "ht_fetch hash eq (fst e) t = Some (snd e)"
    using fetch_iff [OF inv good(2)] eq_refl [OF good(2)] all by blast
  have "sorted_wrt (\<lambda>a e. \<not> eq (fst a) (fst e)) (x # ys @ [z])"
    using entries_distinct [OF inv] unfolding bin [symmetric] by (simp add: chain_distinct_def sorted_wrt_filter)
  then have "\<not> eq (fst x) (fst e)" "\<not> eq (fst z) (fst e)"
    using e eq_sym good by (auto simp: sorted_wrt_append)
  then show "ht_fetch hash eq (fst e) (redistribute hash sz t) = None"
    unfolding ht_fetch_def redistribute_fields here redistribute_values bin by (simp add: first_last_def)
qed

end

subsection \<open>The key types in use\<close>

interpretation string_keys: key_ops oo_hash_string string_eq string_ok
  by unfold_locales (auto simp: string_eq_bytes oo_hash_string_def string_hash_bytes)

interpretation word_keys: key_ops identity_hash identity_eq "\<lambda>_. True"
  by unfold_locales (auto simp: identity_eq_def)

interpretation pair_keys: key_ops oo_hash_pair pair_eq "\<lambda>_. True"
  by unfold_locales (auto simp: pair_eq_def oo_hash_pair_def pair_hash_def)

interpretation region_keys: key_ops region_hash region_eq "\<lambda>_. True"
  by unfold_locales (auto simp: region_eq_def region_hash_def)


subsection \<open>Iteration\<close>

fun ht_visit :: "nat \<Rightarrow> ('k, 'v) hash_table \<Rightarrow> ht_iterator \<Rightarrow> ('k \<times> 'v) list" where
  "ht_visit 0 t it = []"
| "ht_visit (Suc n) t it =
    (case ht_next t it of (None, _) \<Rightarrow> [] | (Some e, it') \<Rightarrow> e # ht_visit n t it')"

definition bins_from :: "('k, 'v) hash_table \<Rightarrow> nat \<Rightarrow> ('k \<times> 'v) list" where
  "bins_from t b = concat (map (ht_values t) [b..<unat (ht_bins t)])"

lemma bins_from_step: "b < unat (ht_bins t) \<Longrightarrow> bins_from t b = ht_values t b @ bins_from t (Suc b)"
  by (simp add: bins_from_def upt_rec)

definition it_left :: "('k, 'v) hash_table \<Rightarrow> ht_iterator \<Rightarrow> ('k \<times> 'v) list" where
  "it_left t it = (case it_entry it of
     None \<Rightarrow> bins_from t (it_bin it)
   | Some (b, i) \<Rightarrow> drop (Suc i) (ht_values t b) @ bins_from t (Suc (it_bin it)))"

definition it_ok :: "('k, 'v) hash_table \<Rightarrow> ht_iterator \<Rightarrow> bool" where
  "it_ok t it = (case it_entry it of None \<Rightarrow> True | Some (b, i) \<Rightarrow> b = it_bin it \<and> i < length (ht_values t b))"

lemma scan_bins_spec:
  "case scan_bins t it of
     (None, _) \<Rightarrow> bins_from t (it_bin it) = []
   | (Some e, it') \<Rightarrow> it_ok t it' \<and> bins_from t (it_bin it) = e # it_left t it'"
proof (induction t it rule: scan_bins.induct)
  case (1 t it)
  show ?case
  proof (cases "it_bin it < unat (ht_bins t)")
    case True
    then show ?thesis
      using 1 by (subst scan_bins.simps)
        (auto simp: bins_from_step it_left_def it_ok_def split: list.splits option.splits)
  next
    case False
    then show ?thesis
      by (subst scan_bins.simps) (simp add: bins_from_def)
  qed
qed

lemma ht_next_spec:
  assumes "it_ok t it"
  shows "case ht_next t it of
     (None, _) \<Rightarrow> it_left t it = []
   | (Some e, it') \<Rightarrow> it_ok t it' \<and> it_left t it = e # it_left t it'"
proof (cases "it_entry it")
  case None
  then have "ht_next t it = scan_bins t it" "it_left t it = bins_from t (it_bin it)"
    by (simp_all add: ht_next_def it_left_def)
  then show ?thesis
    using scan_bins_spec [of t it] by (simp only:)
next
  case (Some p)
  obtain b i where p: "p = (b, i)" by fastforce
  have b: "b = it_bin it" "i < length (ht_values t b)"
    using assms Some p by (auto simp: it_ok_def)
  show ?thesis
  proof (cases "Suc i < length (ht_values t b)")
    case True
    then show ?thesis
      using Some p b by (auto simp: ht_next_def it_left_def it_ok_def Cons_nth_drop_Suc [symmetric])
  next
    case False
    then have "ht_next t it = scan_bins t (it\<lparr>it_bin := it_bin it + 1\<rparr>)"
      "it_left t it = bins_from t (it_bin (it\<lparr>it_bin := it_bin it + 1\<rparr>))"
      using Some p by (simp_all add: ht_next_def it_left_def)
    then show ?thesis
      using scan_bins_spec [of t "it\<lparr>it_bin := it_bin it + 1\<rparr>"] by (simp only:)
  qed
qed

lemma ht_visit_left: "it_ok t it \<Longrightarrow> length (it_left t it) < n \<Longrightarrow> ht_visit n t it = it_left t it"
proof (induction n arbitrary: it)
  case (Suc n)
  then show ?case
    using ht_next_spec [of t it] by (auto split: option.splits prod.splits)
qed simp

lemma ht_visit_all: "length (all_entries t) < n \<Longrightarrow> ht_visit n t ht_iterator_new = all_entries t"
  using ht_visit_left [of t ht_iterator_new n]
  by (simp add: it_ok_def it_left_def ht_iterator_new_def bins_from_def all_entries_def)


subsection \<open>Properties\<close>

text \<open>
  C8: storing under a string key keeps the table well formed, a fetch of an equal key then
  gives the stored value, and a fetch of any other key gives no value that it did not give
  before; without a redistribution the other keys are unaffected.
\<close>

theorem string_table_store:
  assumes "ht_inv oo_hash_string string_eq string_ok t" "string_ok k" "ht_bins t < 2 ^ 31"
  shows "ht_inv oo_hash_string string_eq string_ok (ht_store oo_hash_string string_eq k v t)
    \<and> (\<forall>k'. string_bytes k' = string_bytes k \<longrightarrow>
        ht_fetch oo_hash_string string_eq k' (ht_store oo_hash_string string_eq k v t) = Some v)
    \<and> (\<forall>k' w. string_ok k' \<and> string_bytes k' \<noteq> string_bytes k \<longrightarrow>
        (ht_fetch oo_hash_string string_eq k' (ht_store oo_hash_string string_eq k v t) = Some w
           \<longrightarrow> ht_fetch oo_hash_string string_eq k' t = Some w)
        \<and> (\<not> max_density_p t \<longrightarrow>
           ht_fetch oo_hash_string string_eq k' (ht_store oo_hash_string string_eq k v t)
           = ht_fetch oo_hash_string string_eq k' t))"
proof -
  let ?f = "ht_fetch oo_hash_string string_eq" and ?s = "ht_store oo_hash_string string_eq k v t"
  let ?u = "if max_density_p t then redistribute oo_hash_string (ht_bins t * 2) t else t"
  have s: "ht_inv oo_hash_string string_eq string_ok ?s" "?f k ?s = Some v"
    "\<And>k'. string_ok k' \<Longrightarrow> \<not> string_eq k k' \<Longrightarrow> ?f k' ?s = ?f k' ?u"
    using string_keys.store_spec [OF assms, of v] by blast+
  obtain n where n: "1 \<le> n" "n < 32" "ht_bins t * 2 = 2 ^ n"
    using string_keys.bins_double [OF assms(1,3)] by blast
  have same: "?f k' ?s = Some v" if "string_bytes k' = string_bytes k" for k'
  proof -
    have "string_ok k'" using that assms(2) by (simp add: string_ok_def)
    moreover have "string_eq k k'" using that by (simp add: string_eq_bytes [OF assms(2)])
    ultimately show ?thesis
      using s(2) string_keys.fetch_key [OF s(1) assms(2)] by simp
  qed
  have old: "?f k' t = Some w" if "string_ok k'" "?f k' ?u = Some w" for k' w
    using that string_keys.fetch_redistribute [OF assms(1) n] by (auto split: if_splits)
  have other: "?f k' ?s = ?f k' ?u" if "string_ok k' \<and> string_bytes k' \<noteq> string_bytes k" for k'
    using s(3) that string_eq_bytes [OF assms(2)] by auto
  show ?thesis
  proof (intro conjI allI impI)
    fix k' w
    assume k': "string_ok k' \<and> string_bytes k' \<noteq> string_bytes k"
    show "?f k' ?s = Some w \<Longrightarrow> ?f k' t = Some w"
      using other [OF k'] old k' by (simp only:)
    show "\<not> max_density_p t \<Longrightarrow> ?f k' ?s = ?f k' t"
      using other [OF k'] by (simp only: if_False)
  qed (use s(1) same in \<open>simp_all only:\<close>)
qed

definition demo_key :: kstring where
  "demo_key = \<lparr>st_flags = 1, st_size = 3, st_data = None, st_local = (\<lambda>i. if i < 3 then 97 else 0)\<rparr>"

theorem string_table_store_witness:
  "ht_fetch oo_hash_string string_eq demo_key (ht_store oo_hash_string string_eq demo_key (7::nat) ht_new) = Some 7"
proof -
  have "string_ok demo_key"
    by (auto simp: string_ok_def string_bytes_def demo_key_def string_data_def eMalloc_def)
  moreover have "ht_bins (ht_new :: (kstring, nat) hash_table) < 2 ^ 31"
    by (simp add: ht_new_def ht_MinSize_def)
  ultimately show ?thesis
    by (simp only: string_table_store [OF string_keys.inv_new, THEN conjunct2, THEN conjunct1, rule_format])
qed

text \<open>
  C22: When three or more entries of a table with string keys fall into one bin of the resized table, redistribution keeps
  the first and the last of them only: both are still found, but every key in between, which a fetch found
  before, is lost, although the entry count still includes it.
\<close>

theorem redistribute_loses:
  assumes "ht_inv oo_hash_string string_eq string_ok t" "1 \<le> n" "n < 32" "sz = 2 ^ n"
    "filter (\<lambda>e. find_bin (oo_hash_string (fst e)) sz = b) (all_entries t) = x # ys @ [z]"
  shows "ht_fetch oo_hash_string string_eq (fst x) (redistribute oo_hash_string sz t) = Some (snd x)
    \<and> ht_fetch oo_hash_string string_eq (fst z) (redistribute oo_hash_string sz t) = Some (snd z)
    \<and> (\<forall>e \<in> set ys. ht_fetch oo_hash_string string_eq (fst e) t = Some (snd e)
        \<and> ht_fetch oo_hash_string string_eq (fst e) (redistribute oo_hash_string sz t) = None)
    \<and> ht_entries (redistribute oo_hash_string sz t) = ht_entries t"
  using string_keys.redistribute_found [OF assms] string_keys.redistribute_lost [OF assms(1,5)] by simp

definition letter_key :: "u8 \<Rightarrow> kstring" where
  "letter_key c = \<lparr>st_flags = 1, st_size = 1, st_data = None, st_local = (\<lambda>i. if i = 0 then c else 0)\<rparr>"

definition crowded :: "(kstring, nat) hash_table" where
  "crowded = \<lparr>ht_values = (\<lambda>b. if b = 14 then [(letter_key 110, 1), (letter_key 114, 2), (letter_key 116, 3)] else []),
     ht_bins = 16, ht_entries = 3\<rparr>"

lemma letter_key_bytes: "string_bytes (letter_key c) = [c]"
  by (simp add: string_bytes_def letter_key_def string_data_def eMalloc_def)

lemma letter_key_ok: "c \<noteq> 0 \<Longrightarrow> string_ok (letter_key c)"
  by (simp add: string_ok_def letter_key_bytes)

lemma crowded_hashes: "c \<in> {110, 114, 116} \<Longrightarrow> oo_hash_string (letter_key c) AND 31 = 30"
  "c \<in> {110, 114, 116} \<Longrightarrow> oo_hash_string (letter_key c) AND 15 = 14"
  by (auto simp: oo_hash_string_def mix_hash_def string_hash_bytes letter_key_bytes update_hash_def finish_hash_def
      FNVOffsetBasis_def FNVHashPrime_def)

lemma crowded_inv: "ht_inv oo_hash_string string_eq string_ok crowded"
proof -
  have "\<exists>n::nat. 1 \<le> n \<and> n < 32 \<and> (16::u32) = 2 ^ n"
    by (rule exI [of _ 4]) simp
  then show ?thesis
    by (auto simp: ht_inv_def crowded_def chain_distinct_def string_eq_bytes letter_key_ok letter_key_bytes find_bin_def crowded_hashes)
qed

theorem redistribute_loses_witness:
  "ht_fetch oo_hash_string string_eq (letter_key 114) crowded = Some 2
    \<and> ht_fetch oo_hash_string string_eq (letter_key 114) (redistribute oo_hash_string 32 crowded) = None
    \<and> ht_fetch oo_hash_string string_eq (letter_key 116) (redistribute oo_hash_string 32 crowded) = Some 3"
proof -
  have "all_entries crowded = [(letter_key 110, 1), (letter_key 114, 2), (letter_key 116, 3)]"
    by (simp add: all_entries_def crowded_def upt_rec)
  then have "filter (\<lambda>e. find_bin (oo_hash_string (fst e)) 32 = 30) (all_entries crowded)
      = (letter_key 110, 1) # [(letter_key 114, 2)] @ [(letter_key 116, 3)]"
    by (simp add: find_bin_def crowded_hashes)
  from redistribute_loses [OF crowded_inv _ _ _ this, of 5] show ?thesis
    by simp
qed

end
