(* ===== verification/Vfs.thy ===== *)
theory Vfs
  imports Kstring
begin

text \<open>
  The file system switch, \<^verbatim>\<open>fs.hpp\<close> and \<^verbatim>\<open>fs.cpp\<close>: open files, path lookup and the registry of
  file system types.  The virtual methods of \<^verbatim>\<open>fs::Node\<close> are arguments of the definitions
  that call them; the file systems supply them.  Nodes have an arbitrary type \<open>'n\<close>.
\<close>

definition FS_FILE :: u32 where "FS_FILE = 1"
definition FS_DIRECTORY :: u32 where "FS_DIRECTORY = 2"
definition FS_BLOCKDEVICE :: u32 where "FS_BLOCKDEVICE = 4"

text \<open>\<^verbatim>\<open>fs::Node\<close>; \<^verbatim>\<open>delegate\<close> is the root of the file system mounted on the node.\<close>

record 'n fs_node =
  nd_name :: cstr
  nd_mask :: u32
  nd_uid :: u32
  nd_gid :: u32
  nd_flags :: u32
  nd_inode :: u32
  nd_length :: u32
  nd_delegate :: "'n option"

text \<open>The constructor clears everything but the characters of the name behind the first.\<close>

definition fs_node_new :: "cstr \<Rightarrow> 'n fs_node" where
  "fs_node_new junk = \<lparr>nd_name = junk(0 := 0), nd_mask = 0, nd_uid = 0, nd_gid = 0, nd_flags = 0,
     nd_inode = 0, nd_length = 0, nd_delegate = None\<rparr>"


subsection \<open>Open files\<close>

text \<open>\<open>read node offset size buffer\<close> on the memory that holds the buffer gives the count.\<close>

type_synonym 'n node_read = "'n \<Rightarrow> u32 \<Rightarrow> u32 \<Rightarrow> u32 \<Rightarrow> mem \<Rightarrow> (u32 \<times> mem) result"

record 'n ofile =
  fl_node :: 'n
  fl_offset :: u32

definition file_new :: "'n \<Rightarrow> 'n ofile" where
  "file_new node = \<lparr>fl_node = node, fl_offset = 0\<rparr>"

text \<open>
  The contract of \<^verbatim>\<open>fs::Node::read\<close> that its callers rely on.  \<open>storage n m\<close> is where the node
  keeps its data in the memory \<open>m\<close>.  A read inside the file, to a buffer away from the
  storage, copies the bytes of the file and touches nothing else; memory with the
  same storage holds the same file.
\<close>

locale file_node =
  fixes node_read :: "'n node_read" and content :: "'n \<Rightarrow> mem \<Rightarrow> nat \<Rightarrow> u8"
    and file_len :: "'n \<Rightarrow> mem \<Rightarrow> nat" and storage :: "'n \<Rightarrow> mem \<Rightarrow> u32 set"
  assumes read_law: "off + sz \<le> file_len n m \<Longrightarrow> off + sz < 2 ^ 32 \<Longrightarrow> a + sz \<le> 2 ^ 32 \<Longrightarrow>
      (\<And>y. y \<in> storage n m \<Longrightarrow> \<not> in_block (adr a) sz y) \<Longrightarrow>
      \<exists>m'. node_read n (adr off) (adr sz) (adr a) m = Inr (adr sz, m') \<and>
        (\<forall>x < 2 ^ 32. m' (adr x) = (if a \<le> x \<and> x < a + sz then content n m (off + (x - a)) else m (adr x)))"
    and storage_law: "(\<And>y. y \<in> storage n m \<Longrightarrow> m' y = m y) \<Longrightarrow>
      content n m' = content n m \<and> file_len n m' = file_len n m \<and> storage n m' = storage n m"

definition file_read :: "'n node_read \<Rightarrow> 'n ofile \<Rightarrow> u32 \<Rightarrow> u32 \<Rightarrow> mem \<Rightarrow> (u32 \<times> 'n ofile \<times> mem) result" where
  "file_read node_read f buffer sz m =
    bind_result (node_read (fl_node f) (fl_offset f) sz buffer m) (\<lambda>(n, m).
      if sint n < 0 then Inr (n, f, m)
      else Inr (n, f\<lparr>fl_offset := fl_offset f + n\<rparr>, m))"

text \<open>A write changes the file system state \<open>s\<close>; the bytes come from the memory \<open>m\<close>.\<close>

definition file_write ::
  "('n \<Rightarrow> u32 \<Rightarrow> u32 \<Rightarrow> u32 \<Rightarrow> mem \<Rightarrow> 's \<Rightarrow> (u32 \<times> 's) result) \<Rightarrow> 'n ofile \<Rightarrow> u32 \<Rightarrow> u32 \<Rightarrow> mem \<Rightarrow> 's
    \<Rightarrow> (u32 \<times> 'n ofile \<times> 's) result" where
  "file_write node_write f buffer sz m s =
    bind_result (node_write (fl_node f) (fl_offset f) sz buffer m s) (\<lambda>(n, s).
      if sint n < 0 then Inr (n, f, s)
      else Inr (n, f\<lparr>fl_offset := fl_offset f + n\<rparr>, s))"

definition file_seek :: "('n \<Rightarrow> u32) \<Rightarrow> 'n ofile \<Rightarrow> u32 \<Rightarrow> int \<Rightarrow> 'n ofile" where
  "file_seek node_length f pos whence =
    (if whence = 1 then f\<lparr>fl_offset := fl_offset f + pos\<rparr>
     else if whence = 2 then f\<lparr>fl_offset := node_length (fl_node f) + pos\<rparr>
     else f\<lparr>fl_offset := pos\<rparr>)"

definition file_get_entries ::
  "('n \<Rightarrow> u32 \<Rightarrow> u32 \<Rightarrow> u32 \<Rightarrow> mem \<Rightarrow> u32 \<times> mem) \<Rightarrow> 'n ofile \<Rightarrow> u32 \<Rightarrow> u32 \<Rightarrow> mem \<Rightarrow> u32 \<times> 'n ofile \<times> mem" where
  "file_get_entries get_entries f dp n m =
    (let (entries, m) = get_entries (fl_node f) (fl_offset f) dp n m
     in (entries, f\<lparr>fl_offset := fl_offset f + entries\<rparr>, m))"


subsection \<open>Path lookup\<close>

function sub_length :: "cstr \<Rightarrow> int \<Rightarrow> nat \<Rightarrow> nat" where
  "sub_length name len i =
    (if int i < len then if name i = 0x2F then i else sub_length name len (Suc i) else i)"
  by pat_completeness auto
termination by (relation "measure (\<lambda>(_, len, i). nat (len - int i))") auto

declare sub_length.simps [simp del]

text \<open>
  \<^verbatim>\<open>fs::lookup\<close> on a file system state \<open>s\<close>: \<open>finddir\<close> and \<open>create_file\<close> are the virtual
  methods of the directory.  The result is \<open>None\<close> when a call does not return, and its
  first component is \<open>None\<close> for the null pointer.
\<close>

partial_function (option) fs_lookup ::
  "('s \<Rightarrow> 'n \<Rightarrow> cstr \<Rightarrow> int \<Rightarrow> 'n option option) \<Rightarrow> ('n \<Rightarrow> cstr \<Rightarrow> int \<Rightarrow> 's \<Rightarrow> ('n option \<times> 's) option)
    \<Rightarrow> ('s \<Rightarrow> 'n \<Rightarrow> 'n option) \<Rightarrow> cstr \<Rightarrow> int \<Rightarrow> 'n \<Rightarrow> 's \<Rightarrow> ('n option \<times> 's) option" where
  "fs_lookup finddir create_file delegate name len dir s =
    (let sub_len = int (sub_length name len 0);
         dir = (case delegate s dir of Some d \<Rightarrow> d | None \<Rightarrow> dir)
     in Option.bind (finddir s dir name sub_len) (\<lambda>child.
          if child \<noteq> None
          then if sub_len = len
               then Some (Some (case delegate s (the child) of Some d \<Rightarrow> d | None \<Rightarrow> the child), s)
               else fs_lookup finddir create_file delegate (\<lambda>i. name (i + (nat sub_len + 1)))
                      (len - sub_len - 1) (the child) s
          else if sub_len = len then create_file dir name sub_len s
          else Some (None, s)))"


subsection \<open>The registry of file system types\<close>

text \<open>A registered type: its name, and what its \<^verbatim>\<open>load\<close> is.  The chain from \<^verbatim>\<open>head_\<close> is a list.\<close>

record 'l registered_fs =
  rf_name :: fixed_string
  rf_load :: 'l

definition registered_fs_new :: "fixed_string \<Rightarrow> cstr \<Rightarrow> 'l \<Rightarrow> 'l registered_fs" where
  "registered_fs_new junk name load = \<lparr>rf_name = fixed_set 16 name junk, rf_load = load\<rparr>"

definition add_fs :: "'l registered_fs \<Rightarrow> 'l registered_fs list \<Rightarrow> 'l registered_fs list" where
  "add_fs fs head = fs # head"

fun registry_find :: "cstr \<Rightarrow> 'l registered_fs list \<Rightarrow> 'l registered_fs option option" where
  "registry_find name [] = Some None"
| "registry_find name (fs # rest) =
    (case fixed_eq (rf_name fs) name of
       None \<Rightarrow> None
     | Some True \<Rightarrow> Some (Some fs)
     | Some False \<Rightarrow> registry_find name rest)"


subsection \<open>Reading an open file piece by piece\<close>

fun file_read_pieces :: "'n node_read \<Rightarrow> 'n ofile \<Rightarrow> nat \<Rightarrow> nat list \<Rightarrow> mem \<Rightarrow> ('n ofile \<times> mem) result" where
  "file_read_pieces node_read f buffer [] m = Inr (f, m)"
| "file_read_pieces node_read f buffer (sz # szs) m =
    bind_result (file_read node_read f (adr buffer) (adr sz) m) (\<lambda>(n, f, m).
      file_read_pieces node_read f (buffer + sz) szs m)"

lemma sint_adr: "n < 2 ^ 31 \<Longrightarrow> sint (adr n) = int n"
  by (simp add: adr_def signed_of_nat signed_take_bit_int_eq_self)

lemma in_block_part:
  assumes "in_block (adr (a + k)) n y" "k + n \<le> l" "l < 2 ^ 32"
  shows "in_block (adr a) l y"
proof -
  have "y - adr a = adr k + (y - adr (a + k))"
    by (simp add: addr_plus(2) [symmetric])
  also have "\<dots> = adr (k + unat (y - adr (a + k)))"
    by (simp add: addr_plus(2) [symmetric])
  finally show ?thesis
    using assms by (simp add: in_block_def)
qed

context file_node
begin

lemma file_read_step:
  assumes "unat (fl_offset f) + sz \<le> file_len (fl_node f) m" "unat (fl_offset f) + sz < 2 ^ 31" "a + sz \<le> 2 ^ 32"
    "\<And>y. y \<in> storage (fl_node f) m \<Longrightarrow> \<not> in_block (adr a) sz y"
  shows "\<exists>m'. file_read node_read f (adr a) (adr sz) m = Inr (adr sz, f\<lparr>fl_offset := fl_offset f + adr sz\<rparr>, m')
    \<and> (\<forall>x < 2 ^ 32. m' (adr x) = (if a \<le> x \<and> x < a + sz
        then content (fl_node f) m (unat (fl_offset f) + (x - a)) else m (adr x)))"
proof -
  obtain m' where "node_read (fl_node f) (adr (unat (fl_offset f))) (adr sz) (adr a) m = Inr (adr sz, m')"
    "\<forall>x < 2 ^ 32. m' (adr x) = (if a \<le> x \<and> x < a + sz
        then content (fl_node f) m (unat (fl_offset f) + (x - a)) else m (adr x))"
    using read_law [of "unat (fl_offset f)" sz "fl_node f" m a] assms by auto
  then show ?thesis
    using assms(2) by (auto simp: file_read_def sint_adr)
qed

lemma file_read_pieces_content:
  assumes "unat (fl_offset f) + sum_list szs \<le> file_len (fl_node f) m" "unat (fl_offset f) + sum_list szs < 2 ^ 31"
    "a + sum_list szs \<le> 2 ^ 32" "\<And>y. y \<in> storage (fl_node f) m \<Longrightarrow> \<not> in_block (adr a) (sum_list szs) y"
  shows "\<exists>m'. file_read_pieces node_read f a szs m = Inr (f\<lparr>fl_offset := fl_offset f + adr (sum_list szs)\<rparr>, m')
    \<and> (\<forall>x < 2 ^ 32. m' (adr x) = (if a \<le> x \<and> x < a + sum_list szs
        then content (fl_node f) m (unat (fl_offset f) + (x - a)) else m (adr x)))"
  using assms
proof (induction szs arbitrary: f a m)
  case Nil
  then show ?case by (auto simp: adr_def)
next
  case (Cons sz szs)
  let ?S = "sum_list szs" and ?n = "fl_node f" and ?o = "unat (fl_offset f)"
  have apart: "\<not> in_block (adr a) sz y" "\<not> in_block (adr (a + sz)) ?S y" if "y \<in> storage ?n m" for y
    using Cons.prems(4) [OF that] Cons.prems(2) in_block_part [of a 0 sz y "sum_list (sz # szs)"]
      in_block_part [of a sz ?S y "sum_list (sz # szs)"] by auto
  obtain m1 where s1: "file_read node_read f (adr a) (adr sz) m = Inr (adr sz, f\<lparr>fl_offset := fl_offset f + adr sz\<rparr>, m1)"
    "\<forall>x < 2 ^ 32. m1 (adr x) = (if a \<le> x \<and> x < a + sz then content ?n m (?o + (x - a)) else m (adr x))"
    using file_read_step [of f sz m a] Cons.prems apart by auto
  have "m1 y = m y" if "y \<in> storage ?n m" for y
  proof -
    have "\<not> (a \<le> unat y \<and> unat y < a + sz)"
      using apart(1) [OF that] unat_addr_sub [of "unat y" a] unat_u32_lt [of y] by (auto simp: in_block_def)
    then show ?thesis
      using s1(2) unat_u32_lt [of y] by (metis addr_unat)
  qed
  then have same: "content ?n m1 = content ?n m" "file_len ?n m1 = file_len ?n m" "storage ?n m1 = storage ?n m"
    using storage_law by blast+
  let ?f1 = "f\<lparr>fl_offset := fl_offset f + adr sz\<rparr>"
  have off: "fl_offset ?f1 = adr (?o + sz)" "unat (fl_offset ?f1) = ?o + sz"
  proof -
    show o: "fl_offset ?f1 = adr (?o + sz)" by (simp add: addr_plus(2) [symmetric])
    show "unat (fl_offset ?f1) = ?o + sz" unfolding o using Cons.prems(2) by simp
  qed
  obtain m2 where s2: "file_read_pieces node_read ?f1 (a + sz) szs m1 = Inr (?f1\<lparr>fl_offset := fl_offset ?f1 + adr ?S\<rparr>, m2)"
    "\<forall>x < 2 ^ 32. m2 (adr x) = (if a + sz \<le> x \<and> x < a + sz + ?S
        then content ?n m1 (?o + sz + (x - (a + sz))) else m1 (adr x))"
    using Cons.IH [of ?f1 m1 "a + sz"] Cons.prems apart(2) off(2) same by auto
  have "m2 (adr x) = (if a \<le> x \<and> x < a + (sz + ?S) then content ?n m (?o + (x - a)) else m (adr x))"
    if "x < 2 ^ 32" for x
    using s1(2) s2(2) that same(1) by auto
  moreover have "file_read_pieces node_read f a (sz # szs) m = Inr (f\<lparr>fl_offset := fl_offset f + adr (sz + ?S)\<rparr>, m2)"
    using s1(1) s2(1) by (simp add: addr_plus(2) [symmetric] add.assoc)
  ultimately show ?case by simp
qed

end

end
