(* ===== verification/Tmpfs.thy ===== *)
theory Tmpfs
  imports Hash_Table Vfs
begin

text \<open>
  The memory file system, \<^verbatim>\<open>fs/tmpfs.cpp\<close>: files with one growing chunk, and directories that
  are hash tables from names to nodes.  A node is named by a number.  The chunk of
  a file is a buffer of its own; what a fresh buffer holds is an argument \<open>junk\<close>.
\<close>

subsection \<open>Files\<close>

record tmp_file =
  tf_size :: u32
  tf_chunk :: "nat \<Rightarrow> u8"

definition cInitialChunkSize :: u32 where "cInitialChunkSize = 1024"

definition tmp_file_new :: "(nat \<Rightarrow> u8) \<Rightarrow> tmp_file" where
  "tmp_file_new junk = \<lparr>tf_size = cInitialChunkSize, tf_chunk = junk\<rparr>"

text \<open>\<^verbatim>\<open>memcpy\<close> from a buffer of the kernel to memory, and back.\<close>

fun copy_out :: "(nat \<Rightarrow> u8) \<Rightarrow> nat \<Rightarrow> nat \<Rightarrow> u32 \<Rightarrow> mem \<Rightarrow> mem" where
  "copy_out src off 0 buffer m = m"
| "copy_out src off (Suc n) buffer m = copy_out src (Suc off) n (buffer + 1) (m(buffer := src off))"

fun copy_into :: "mem \<Rightarrow> u32 \<Rightarrow> nat \<Rightarrow> nat \<Rightarrow> (nat \<Rightarrow> u8) \<Rightarrow> nat \<Rightarrow> u8" where
  "copy_into m buffer off 0 dest = dest"
| "copy_into m buffer off (Suc n) dest = copy_into m (buffer + 1) (Suc off) n (dest(off := m buffer))"

text \<open>
  The assertion compares with 32-bit arithmetic; what passes it and is not inside the
  chunk is an access out of bounds.
\<close>

definition tmp_file_read :: "tmp_file \<Rightarrow> u32 \<Rightarrow> u32 \<Rightarrow> u32 \<Rightarrow> mem \<Rightarrow> (u32 \<times> mem) result" where
  "tmp_file_read f offset sz buffer m =
    bind_result (assert_that (offset + sz < tf_size f)) (\<lambda>_.
      if unat offset + unat sz \<le> unat (tf_size f)
      then Inr (sz, copy_out (tf_chunk f) (unat offset) (unat sz) buffer m)
      else Inl OutOfBounds)"

definition tmp_file_write :: "tmp_file \<Rightarrow> u32 \<Rightarrow> u32 \<Rightarrow> u32 \<Rightarrow> mem \<Rightarrow> (u32 \<times> tmp_file) result" where
  "tmp_file_write f offset sz buffer m =
    bind_result (assert_that (offset + sz < tf_size f)) (\<lambda>_.
      if unat offset + unat sz \<le> unat (tf_size f)
      then Inr (sz, f\<lparr>tf_chunk := copy_into m buffer (unat offset) (unat sz) (tf_chunk f)\<rparr>)
      else Inl OutOfBounds)"

definition tmp_grow :: "(nat \<Rightarrow> u8) \<Rightarrow> u32 \<Rightarrow> tmp_file \<Rightarrow> tmp_file" where
  "tmp_grow junk sz f = (if sz > tf_size f then f\<lparr>tf_chunk := junk, tf_size := sz\<rparr> else f)"

definition import_raw :: "(nat \<Rightarrow> u8) \<Rightarrow> u32 \<Rightarrow> u32 \<Rightarrow> mem \<Rightarrow> tmp_file \<Rightarrow> tmp_file" where
  "import_raw junk buf sz m f =
    (let f = tmp_grow junk sz f
     in f\<lparr>tf_chunk := copy_into m buf 0 (unat sz) (tf_chunk f)\<rparr>)"

text \<open>\<^verbatim>\<open>resize\<close> returns the chunk, which the caller fills.\<close>

definition tmp_resize :: "(nat \<Rightarrow> u8) \<Rightarrow> u32 \<Rightarrow> tmp_file \<Rightarrow> tmp_file" where
  "tmp_resize junk sz f = tmp_grow junk sz f"


subsection \<open>Directories\<close>

type_synonym tmp_dir = "(kstring, nat) hash_table"

definition string_blank :: "cstr \<Rightarrow> kstring" where
  "string_blank junk = \<lparr>st_flags = 0, st_size = 0, st_data = None, st_local = junk\<rparr>"

text \<open>
  A key is passed to the table by value, that is, as a copy.  The size, an \<^verbatim>\<open>int\<close>, becomes
  unsigned in the constructor of the string.
\<close>

definition tmp_finddir :: "cstr \<Rightarrow> tmp_dir \<Rightarrow> cstr \<Rightarrow> int \<Rightarrow> nat option option" where
  "tmp_finddir junk t name sz =
    (case string_set junk (Some name) (unat (word_of_int sz :: u32)) False (string_blank junk) of
       None \<Rightarrow> None
     | Some str \<Rightarrow> Some (ht_fetch oo_hash_string string_eq (string_copy junk str (string_blank junk)) t))"

definition tmp_create_file :: "cstr \<Rightarrow> kstring \<Rightarrow> nat \<Rightarrow> tmp_dir \<Rightarrow> tmp_dir" where
  "tmp_create_file junk name file t =
    ht_store oo_hash_string string_eq (string_copy junk name (string_blank junk)) file t"

text \<open>
  \<^verbatim>\<open>get_entries\<close>.  The records written to the buffer are given as a list of their length and
  name, positions are relative to the start of the buffer; a \<^verbatim>\<open>dirent\<close> takes 20 bytes
  without its name.
\<close>

definition DIRENT_SIZE :: u32 where "DIRENT_SIZE = 20"

definition ent_size :: "nat \<Rightarrow> int" where
  "ent_size n = int (unat (align (DIRENT_SIZE + adr n + 1) 4))"

fun list_entries :: "int \<Rightarrow> int \<Rightarrow> int \<Rightarrow> int \<Rightarrow> int \<Rightarrow> u8 list list
    \<Rightarrow> int \<times> (int \<times> u8 list) list" where
  "list_entries seek buf_fin pos buf_pos tot [] = (tot, [])"
| "list_entries seek buf_fin pos buf_pos tot (key # keys) =
    (if buf_pos < buf_fin
     then let sz = (if length key > 254 then 254 else length key);
              ent = ent_size sz
          in if seek > pos then list_entries seek buf_fin (pos + ent) buf_pos tot keys
             else if buf_pos + ent > buf_fin then (tot, [])
             else let (r, out) = list_entries seek buf_fin pos (buf_pos + ent) (tot + ent) keys
                  in (r, (ent, take sz key) # out)
     else (tot, []))"

definition tmp_get_entries :: "tmp_dir \<Rightarrow> int \<Rightarrow> int \<Rightarrow> int \<times> (int \<times> u8 list) list" where
  "tmp_get_entries t seek n =
    (if 0 > n then (0, [])
     else if seek = 0 \<and> ent_size 1 > n then (0, [])
     else let dot = (if seek = 0 then [(ent_size 1, [0x2E])] else []);
              buf_pos = (if seek = 0 then ent_size 1 else 0);
              pos = ent_size 1
          in if seek \<le> pos \<and> buf_pos + ent_size 2 > n then (buf_pos, dot)
             else let dotdot = (if seek \<le> pos then [(ent_size 2, [0x2E, 0x2E])] else []);
                      buf_pos = buf_pos + (if seek \<le> pos then ent_size 2 else 0);
                      keys = map (string_bytes \<circ> fst) (ht_visit (Suc (length (all_entries t))) t ht_iterator_new);
                      (r, out) = list_entries seek n (pos + ent_size 2) buf_pos buf_pos keys
                  in (r, dot @ dotdot @ out))"

declare list_entries.simps [simp del]

subsection \<open>Reading and writing\<close>

lemma copy_into_at:
  "copy_into m buffer off n dest j = (if off \<le> j \<and> j < off + n then m (buffer + adr (j - off)) else dest j)"
proof (induction n arbitrary: buffer off dest)
  case (Suc n)
  have "buffer + 1 + adr (j - Suc off) = buffer + adr (j - off)" if "off < j"
    using that by (simp add: adr_def of_nat_diff)
  then show ?case
    using Suc by (auto simp: adr_def)
qed auto

lemma copy_out_other: "\<not> unat (x - buffer) < n \<Longrightarrow> copy_out src off n buffer m x = m x"
proof (induction n arbitrary: buffer off m)
  case (Suc n)
  then have "x \<noteq> buffer" by auto
  then show ?case
    using Suc by (simp add: unat_diff_step)
qed simp

lemma copy_out_at:
  assumes "unat (x - buffer) < n" "n \<le> 2 ^ 32"
  shows "copy_out src off n buffer m x = src (off + unat (x - buffer))"
  using assms
proof (induction n arbitrary: buffer off m)
  case (Suc n)
  show ?case
  proof (cases "x = buffer")
    case True
    then show ?thesis
      using Suc.prems not_in_rest [of n buffer] by (simp add: copy_out_other)
  next
    case False
    then have "unat (x - buffer) = Suc (unat (x - (buffer + 1)))"
      by (simp add: unat_diff_step)
    then show ?thesis
      using False Suc by simp
  qed
qed simp

text \<open>
  C25: What \<^verbatim>\<open>FileNode::write\<close> puts into a file is what \<^verbatim>\<open>FileNode::read\<close> of the same range gives
  back; the size and the other bytes of the file stay as they were, and the read
  changes only the buffer.
\<close>

theorem tmp_write_read:
  assumes "unat off + unat sz < unat (tf_size f)"
  shows "\<exists>f'. tmp_file_write f off sz src m = Inr (sz, f') \<and> tf_size f' = tf_size f
    \<and> (\<forall>j. \<not> (unat off \<le> j \<and> j < unat off + unat sz) \<longrightarrow> tf_chunk f' j = tf_chunk f j)
    \<and> (\<forall>m2. \<exists>m'. tmp_file_read f' off sz dst m2 = Inr (sz, m')
         \<and> (\<forall>i < unat sz. m' (dst + adr i) = m (src + adr i))
         \<and> (\<forall>x. \<not> in_block dst (unat sz) x \<longrightarrow> m' x = m2 x))"
proof -
  have lt: "off + sz < tf_size f" "unat sz < 2 ^ 32"
    using assms unat_u32_lt [of "tf_size f"] unat_u32_lt [of sz]
    by (simp_all add: word_less_nat_alt unat_word_ariths)
  define f' where "f' = f\<lparr>tf_chunk := copy_into m src (unat off) (unat sz) (tf_chunk f)\<rparr>"
  have w: "tmp_file_write f off sz src m = Inr (sz, f')"
    using lt assms by (simp add: tmp_file_write_def f'_def)
  have r: "tmp_file_read f' off sz dst m2 = Inr (sz, copy_out (tf_chunk f') (unat off) (unat sz) dst m2)" for m2
    using lt assms by (simp add: tmp_file_read_def f'_def)
  have "copy_out (tf_chunk f') (unat off) (unat sz) dst m2 (dst + adr i) = m (src + adr i)" if "i < unat sz" for m2 i
  proof -
    have "unat (dst + adr i - dst) = i" using that lt(2) by simp
    then show ?thesis
      using that lt(2) by (simp add: copy_out_at f'_def copy_into_at)
  qed
  then show ?thesis
    using w r by (auto simp: f'_def copy_into_at copy_out_other in_block_def)
qed

theorem tmp_write_read_witness:
  "\<exists>f'. tmp_file_write (tmp_file_new (\<lambda>_. 0)) 10 4 0x1000 (\<lambda>x. ucast x) = Inr (4, f') \<and> tf_chunk f' 3 = 0
    \<and> (\<exists>m'. tmp_file_read f' 10 4 0x2000 (\<lambda>_. 0) = Inr (4, m') \<and> m' (0x2000 + adr 2) = ucast (0x1000 + adr 2 :: u32))"
  using tmp_write_read [of 10 4 "tmp_file_new (\<lambda>_. 0)" "0x1000" "\<lambda>x. ucast x" "0x2000"]
  by (auto simp: tmp_file_new_def cInitialChunkSize_def dest: spec [of _ "\<lambda>_. 0"])

text \<open>
  C26: A file imported with \<^verbatim>\<open>import_raw\<close> whose data fills its chunk (every imported file of more
  than 1024 bytes) cannot be read to its end: a read that includes the last byte fails
  the assertion, while every shorter read from the start succeeds.
\<close>

theorem import_read_last_byte:
  assumes "cInitialChunkSize < sz"
  shows "tmp_file_read (import_raw junk buf sz m (tmp_file_new junk')) off (sz - off) dst m2 = Inl AssertFailed
    \<and> (\<forall>n < sz. \<exists>m'. tmp_file_read (import_raw junk buf sz m (tmp_file_new junk')) 0 n dst m2 = Inr (n, m')
         \<and> (\<forall>i < unat n. m' (dst + adr i) = m (buf + adr i)))"
proof -
  define f where "f = import_raw junk buf sz m (tmp_file_new junk')"
  have f: "tf_size f = sz" "tf_chunk f = copy_into m buf 0 (unat sz) junk"
    using assms by (simp_all add: f_def import_raw_def tmp_grow_def tmp_file_new_def)
  have "\<exists>m'. tmp_file_read f 0 n dst m2 = Inr (n, m') \<and> (\<forall>i < unat n. m' (dst + adr i) = m (buf + adr i))"
    if "n < sz" for n
  proof -
    have n: "unat n < unat sz" "unat n < 2 ^ 32"
      using that unat_u32_lt by (simp_all add: word_less_nat_alt)
    have "copy_out (tf_chunk f) 0 (unat n) dst m2 (dst + adr i) = m (buf + adr i)" if "i < unat n" for i
      using that n by (simp add: copy_out_at f copy_into_at)
    then show ?thesis
      using that n by (auto simp: tmp_file_read_def f)
  qed
  then show ?thesis
    unfolding f_def [symmetric] by (simp add: tmp_file_read_def f)
qed

theorem import_read_last_byte_witness:
  "tmp_file_read (import_raw (\<lambda>_. 0) 0x1000 2000 (\<lambda>_. 1) (tmp_file_new (\<lambda>_. 0))) 0 2000 0x2000 (\<lambda>_. 0) = Inl AssertFailed"
  using import_read_last_byte [of 2000 "\<lambda>_. 0" "0x1000" "\<lambda>_. 1" "\<lambda>_. 0" 0 "0x2000" "\<lambda>_. 0"]
  by (simp add: cInitialChunkSize_def)


subsection \<open>Directory listing\<close>

text \<open>The records of a directory in listing order, and those of a list that fit into \<open>n\<close> bytes.\<close>

definition dir_record :: "u8 list \<Rightarrow> int \<times> u8 list" where
  "dir_record key = (let sz = min 254 (length key) in (ent_size sz, take sz key))"

definition dir_records :: "tmp_dir \<Rightarrow> (int \<times> u8 list) list" where
  "dir_records t = (ent_size 1, [0x2E]) # (ent_size 2, [0x2E, 0x2E])
     # map (dir_record \<circ> string_bytes \<circ> fst) (all_entries t)"

definition rec_bytes :: "(int \<times> u8 list) list \<Rightarrow> int" where
  "rec_bytes es = sum_list (map fst es)"

fun fitting :: "int \<Rightarrow> (int \<times> u8 list) list \<Rightarrow> (int \<times> u8 list) list" where
  "fitting n [] = []"
| "fitting n (e # es) = (if fst e \<le> n then e # fitting (n - fst e) es else [])"

lemma ent_size_pos: "n \<le> 254 \<Longrightarrow> 0 < ent_size n"
proof -
  assume n: "n \<le> 254"
  have "unat (DIRENT_SIZE + adr n + 1) = 21 + n"
    using n by (simp add: DIRENT_SIZE_def adr_def unat_word_ariths unat_of_nat_u32)
  then show ?thesis
    using n align_spec [of 2 "DIRENT_SIZE + adr n + 1"] by (simp add: ent_size_def)
qed

lemma dir_record_pos: "0 < fst (dir_record key)"
  by (simp add: dir_record_def Let_def ent_size_pos)

lemma rec_bytes_nonneg: "0 \<le> rec_bytes (take i (map dir_record keys))"
proof (induction keys arbitrary: i)
  case (Cons key keys)
  then show ?case
    using dir_record_pos [of key] by (cases i) (auto simp: rec_bytes_def add_nonneg_nonneg less_imp_le)
qed (simp add: rec_bytes_def)

lemma list_entries_emit:
  "seek \<le> pos \<Longrightarrow> list_entries seek fin pos buf_pos tot keys
    = (tot + rec_bytes (fitting (fin - buf_pos) (map dir_record keys)), fitting (fin - buf_pos) (map dir_record keys))"
proof (induction keys arbitrary: buf_pos tot)
  case Nil
  then show ?case by (simp add: list_entries.simps rec_bytes_def)
next
  case (Cons key keys)
  have r: "dir_record key = (ent_size (if length key > 254 then 254 else length key),
      take (if length key > 254 then 254 else length key) key)"
    by (auto simp: dir_record_def Let_def min_def)
  have "0 < ent_size (if length key > 254 then 254 else length key)"
    using dir_record_pos [of key] by (simp add: r)
  then show ?case
    using Cons by (auto simp: list_entries.simps(2) r Let_def rec_bytes_def diff_diff_eq)
qed

lemma list_entries_skip:
  assumes "i \<le> length keys" "seek = pos + rec_bytes (take i (map dir_record keys))" "buf_pos < fin"
  shows "list_entries seek fin pos buf_pos tot keys = list_entries seek fin seek buf_pos tot (drop i keys)"
  using assms(1,2)
proof (induction i arbitrary: keys pos)
  case (Suc i)
  then obtain key rest where k: "keys = key # rest" by (cases keys) auto
  have "0 \<le> rec_bytes (take i (map dir_record rest))"
    by (rule rec_bytes_nonneg)
  then have "pos < seek"
    using Suc.prems dir_record_pos [of key] by (simp add: k rec_bytes_def)
  then have "list_entries seek fin pos buf_pos tot keys
      = list_entries seek fin (pos + fst (dir_record key)) buf_pos tot rest"
    using assms(3) by (simp add: k list_entries.simps(2) dir_record_def Let_def min_def)
  also have "\<dots> = list_entries seek fin seek buf_pos tot (drop i rest)"
    using Suc by (intro Suc.IH) (auto simp: k rec_bytes_def)
  finally show ?case by (simp add: k)
qed (simp add: rec_bytes_def)

lemma fitting_none: "n \<le> 0 \<Longrightarrow> fitting n (map dir_record keys) = []"
  using dir_record_pos [of "hd keys"] by (cases keys) auto

text \<open>
  C27: Listing a directory in pieces is exact: a call of \<^verbatim>\<open>DirectoryNode::get_entries\<close> that starts
  where earlier calls ended, after any number of whole records, writes exactly the
  following records, as many as fit into the buffer, and returns their total size.
\<close>

theorem tmp_get_entries_resumes:
  assumes "i \<le> length (dir_records t)" "0 \<le> n"
  shows "tmp_get_entries t (rec_bytes (take i (dir_records t))) n
    = (rec_bytes (fitting n (drop i (dir_records t))), fitting n (drop i (dir_records t)))"
proof -
  define keys where "keys = map (string_bytes \<circ> fst) (all_entries t)"
  have recs: "dir_records t = (ent_size 1, [0x2E]) # (ent_size 2, [0x2E, 0x2E]) # map dir_record keys"
    by (simp add: dir_records_def keys_def)
  have vis: "map (string_bytes \<circ> fst) (ht_visit (Suc (length (all_entries t))) t ht_iterator_new) = keys"
    by (simp only: ht_visit_all lessI keys_def)
  note ge = tmp_get_entries_def [of t, unfolded vis]
  have pos: "0 < ent_size 1" "0 < ent_size 2" by (simp_all add: ent_size_pos)
  consider "i = 0" | "i = 1" | k where "i = Suc (Suc k)" "k \<le> length keys"
    using assms(1) by (metis One_nat_def Suc_le_mono length_Cons length_map not0_implies_Suc recs)
  then show ?thesis
  proof cases
    case 1
    then show ?thesis
      using assms(2) pos by (auto simp: ge recs Let_def rec_bytes_def list_entries_emit diff_diff_eq)
  next
    case 2
    then show ?thesis
      using assms(2) pos by (auto simp: ge recs Let_def rec_bytes_def list_entries_emit)
  next
    case (3 k)
    define seek where "seek = ent_size 1 + ent_size 2 + rec_bytes (take k (map dir_record keys))"
    have s: "rec_bytes (take i (dir_records t)) = seek"
      using 3 by (simp add: recs seek_def rec_bytes_def)
    have "list_entries seek n (ent_size 1 + ent_size 2) 0 0 keys
        = (rec_bytes (fitting n (map dir_record (drop k keys))), fitting n (map dir_record (drop k keys)))"
    proof (cases "0 < n")
      case True
      then show ?thesis
        using list_entries_skip [OF 3(2) seek_def, of 0 n 0] by (simp add: list_entries_emit)
    next
      case False
      then have "fitting n (map dir_record (drop k keys)) = []"
        by (intro fitting_none) auto
      then show ?thesis
        using False by (cases keys) (simp_all add: list_entries.simps rec_bytes_def)
    qed
    then show ?thesis
      using 3 assms(2) pos rec_bytes_nonneg [of k keys] unfolding s by (simp add: ge recs seek_def drop_map)
  qed
qed

theorem tmp_get_entries_resumes_witness:
  "tmp_get_entries ht_new (rec_bytes (take 1 (dir_records ht_new))) 100 = (ent_size 2, [(ent_size 2, [0x2E, 0x2E])])"
proof -
  have r: "dir_records ht_new = [(ent_size 1, [0x2E]), (ent_size 2, [0x2E, 0x2E])]"
    by (simp add: dir_records_def all_entries_def ht_new_def)
  have e: "ent_size 2 = 24"
    by (simp add: ent_size_def DIRENT_SIZE_def align_def adr_def)
  show ?thesis
    using tmp_get_entries_resumes [of 1 ht_new 100] unfolding r by (simp add: rec_bytes_def e)
qed

end
