(* ===== verification/Frames.thy ===== *)
theory Frames
  imports Common_Lib
begin

text \<open>
  The physical frame allocator of \<^verbatim>\<open>paging.hpp\<close> and \<^verbatim>\<open>paging.cpp\<close>: the page table entry
  \<^verbatim>\<open>x86::Page\<close>, the bitmap of frames in use, and \<^verbatim>\<open>alloc_frame\<close> and \<^verbatim>\<open>free_frame\<close>.  The
  pointer \<^verbatim>\<open>frames\<close> is a function from word indices to words; a set bit is a frame in use.
\<close>

subsection \<open>Page table entries and the bitmap\<close>

record page =
  pg_present :: bool
  pg_rw :: bool
  pg_user :: bool
  pg_accessed :: bool
  pg_dirty :: bool
  pg_unused :: "7 word"
  pg_frame :: "20 word"

definition page_zero :: page where
  "page_zero = \<lparr>pg_present = False, pg_rw = False, pg_user = False, pg_accessed = False,
     pg_dirty = False, pg_unused = 0, pg_frame = 0\<rparr>"

definition page_assign :: "u32 \<Rightarrow> bool \<Rightarrow> bool \<Rightarrow> page \<Rightarrow> page" where
  "page_assign f wr krn p =
    p\<lparr>pg_present := True, pg_rw := wr, pg_user := \<not> krn, pg_frame := ucast f\<rparr>"

definition page_clear :: "page \<Rightarrow> page" where
  "page_clear p = p\<lparr>pg_frame := 0\<rparr>"

record frame_map =
  frames :: "nat \<Rightarrow> u32"
  nframes :: u32

definition INDEX_FROM_BIT :: "u32 \<Rightarrow> u32" where "INDEX_FROM_BIT a = a div (8 * 4)"
definition OFFSET_FROM_BIT :: "u32 \<Rightarrow> u32" where "OFFSET_FROM_BIT a = a mod (8 * 4)"

definition set_frame :: "u32 \<Rightarrow> frame_map \<Rightarrow> frame_map" where
  "set_frame frame_addr fm =
    (let frame = frame_addr div cPageSize;
         idx = unat (INDEX_FROM_BIT frame);
         off = unat (OFFSET_FROM_BIT frame)
     in fm\<lparr>frames := (frames fm)(idx := frames fm idx OR push_bit off 1)\<rparr>)"

definition clear_frame :: "u32 \<Rightarrow> frame_map \<Rightarrow> frame_map" where
  "clear_frame frame_addr fm =
    (let frame = frame_addr div cPageSize;
         idx = unat (INDEX_FROM_BIT frame);
         off = unat (OFFSET_FROM_BIT frame)
     in fm\<lparr>frames := (frames fm)(idx := frames fm idx AND NOT (push_bit off 1))\<rparr>)"

definition test_frame :: "u32 \<Rightarrow> frame_map \<Rightarrow> u32" where
  "test_frame frame_addr fm =
    (let frame = frame_addr div cPageSize;
         idx = unat (INDEX_FROM_BIT frame);
         off = unat (OFFSET_FROM_BIT frame)
     in frames fm idx AND push_bit off 1)"

text \<open>The two loops of \<^verbatim>\<open>first_frame\<close>; the result is \<open>None\<close> when \<^verbatim>\<open>ok\<close> stays false.\<close>

function first_bit_from :: "u32 \<Rightarrow> nat \<Rightarrow> nat option" where
  "first_bit_from w j =
    (if j < 32 then if w AND push_bit j 1 = 0 then Some j else first_bit_from w (Suc j) else None)"
  by pat_completeness auto
termination by (relation "measure (\<lambda>(_, j). 32 - j)") auto

function first_frame_from :: "nat \<Rightarrow> frame_map \<Rightarrow> u32 option" where
  "first_frame_from i fm =
    (if i < unat (INDEX_FROM_BIT (nframes fm))
     then if frames fm i = 0xFFFFFFFF then first_frame_from (Suc i) fm
          else case first_bit_from (frames fm i) 0 of
                 Some j \<Rightarrow> Some (word_of_nat (i * 4 * 8 + j))
               | None \<Rightarrow> first_frame_from (Suc i) fm
     else None)"
  by pat_completeness auto
termination by (relation "measure (\<lambda>(i, fm). unat (INDEX_FROM_BIT (nframes fm)) - i)") auto

definition first_frame :: "frame_map \<Rightarrow> u32 option" where
  "first_frame fm = first_frame_from 0 fm"

definition alloc_frame :: "page \<Rightarrow> bool \<Rightarrow> bool \<Rightarrow> frame_map \<Rightarrow> (page \<times> frame_map) result" where
  "alloc_frame p is_kernel is_writeable fm =
    (if pg_frame p \<noteq> 0 then Inr (p, fm)
     else case first_frame fm of
            None \<Rightarrow> Inl Panicked
          | Some idx \<Rightarrow> Inr (page_assign idx is_writeable is_kernel p, set_frame (idx * cPageSize) fm))"

definition alloc_kernel_frame :: "page \<Rightarrow> bool \<Rightarrow> frame_map \<Rightarrow> (page \<times> frame_map) result" where
  "alloc_kernel_frame p writable fm = alloc_frame p True writable fm"

definition alloc_user_frame :: "page \<Rightarrow> bool \<Rightarrow> frame_map \<Rightarrow> (page \<times> frame_map) result" where
  "alloc_user_frame p writable fm = alloc_frame p False writable fm"

definition free_frame :: "page \<Rightarrow> frame_map \<Rightarrow> page \<times> frame_map" where
  "free_frame p fm =
    (let frame = ucast (pg_frame p) :: u32
     in if frame = 0 then (p, fm) else (page_clear p, clear_frame frame fm))"

declare first_bit_from.simps [simp del] first_frame_from.simps [simp del]


subsection \<open>The set of frames in use\<close>

definition in_use :: "frame_map \<Rightarrow> nat \<Rightarrow> bool" where
  "in_use fm n \<longleftrightarrow> bit (frames fm (n div 32)) (n mod 32)"

definition frame_count :: "frame_map \<Rightarrow> nat" where
  "frame_count fm = unat (nframes fm) div 32 * 32"

lemma unat_div_num: "unat ((x::u32) div numeral k) = unat x div unat (numeral k :: u32)"
  by (rule unat_div_distrib)

lemma index_from_bit: "unat (INDEX_FROM_BIT a) = unat a div 32"
  by (simp add: INDEX_FROM_BIT_def unat_div_distrib)

lemma offset_from_bit: "unat (OFFSET_FROM_BIT a) = unat a mod 32"
  by (simp add: OFFSET_FROM_BIT_def unat_mod_distrib)

lemma frame_of_addr: "unat (a div cPageSize) = unat a div 4096"
  by (simp add: cPageSize_def unat_div_distrib)

lemma set_frame_in_use:
  "in_use (set_frame a fm) n \<longleftrightarrow> n = unat a div 4096 \<or> in_use fm n"
proof -
  let ?f = "unat a div 4096"
  have "n = ?f \<longleftrightarrow> n div 32 = ?f div 32 \<and> n mod 32 = ?f mod 32"
    by (metis div_mod_decomp)
  then show ?thesis
    by (auto simp: set_frame_def in_use_def Let_def index_from_bit offset_from_bit frame_of_addr
        bit_simps)
qed

lemma clear_frame_in_use:
  "in_use (clear_frame a fm) n \<longleftrightarrow> n \<noteq> unat a div 4096 \<and> in_use fm n"
proof -
  let ?f = "unat a div 4096"
  have "n = ?f \<longleftrightarrow> n div 32 = ?f div 32 \<and> n mod 32 = ?f mod 32"
    by (metis div_mod_decomp)
  then show ?thesis
    by (auto simp: clear_frame_def in_use_def Let_def index_from_bit offset_from_bit frame_of_addr
        bit_simps)
qed

lemma and_bit_zero: "(w::u32) AND 2 ^ k = 0 \<longleftrightarrow> \<not> bit w k"
  by (rule and_exp_eq_0_iff_not_bit)

lemma test_frame_in_use: "test_frame a fm \<noteq> 0 \<longleftrightarrow> in_use fm (unat a div 4096)"
  by (simp add: test_frame_def in_use_def Let_def index_from_bit offset_from_bit frame_of_addr
      and_bit_zero)

lemma first_bit_from_correct:
  "j \<le> 32 \<Longrightarrow> case first_bit_from w j of
     Some k \<Rightarrow> j \<le> k \<and> k < 32 \<and> \<not> bit w k \<and> (\<forall>i. j \<le> i \<and> i < k \<longrightarrow> bit w i)
   | None \<Rightarrow> \<forall>i. j \<le> i \<and> i < 32 \<longrightarrow> bit w i"
proof (induction "32 - j" arbitrary: j)
  case 0
  then show ?case
    by (subst first_bit_from.simps) auto
next
  case (Suc d)
  have ge: "j \<le> i \<longleftrightarrow> i = j \<or> Suc j \<le> i" for i
    by auto
  have IH: "case first_bit_from w (Suc j) of
      Some k \<Rightarrow> Suc j \<le> k \<and> k < 32 \<and> \<not> bit w k \<and> (\<forall>i. Suc j \<le> i \<and> i < k \<longrightarrow> bit w i)
    | None \<Rightarrow> \<forall>i. Suc j \<le> i \<and> i < 32 \<longrightarrow> bit w i"
    using Suc by (intro Suc.hyps(1)) auto
  show ?case
    using IH Suc.hyps(2) by (subst first_bit_from.simps) (auto simp: and_bit_zero ge split: option.splits)
qed

lemma full_word_bits: "(w::u32) = 0xFFFFFFFF \<longleftrightarrow> (\<forall>i < 32. bit w i)"
proof -
  have "(0xFFFFFFFF :: u32) = mask 32"
    by (simp add: mask_eq_exp_minus_1)
  then show ?thesis
    by (auto simp: bit_eq_iff bit_simps)
qed

lemma first_bit_full: "first_bit_from w 0 = None \<longleftrightarrow> w = 0xFFFFFFFF"
  using first_bit_from_correct [of 0 w] by (auto simp: full_word_bits split: option.splits)

text \<open>\<^verbatim>\<open>first_frame\<close> gives the lowest frame that is not in use, if there is one.\<close>

lemma first_frame_from_correct:
  assumes "i \<le> unat (nframes fm) div 32"
  shows "case first_frame_from i fm of
     Some w \<Rightarrow> 32 * i \<le> unat w \<and> unat w < frame_count fm \<and> \<not> in_use fm (unat w)
       \<and> (\<forall>m. 32 * i \<le> m \<and> m < unat w \<longrightarrow> in_use fm m)
   | None \<Rightarrow> \<forall>m. 32 * i \<le> m \<and> m < frame_count fm \<longrightarrow> in_use fm m"
  using assms
proof (induction "unat (nframes fm) div 32 - i" arbitrary: i)
  case 0
  then show ?case
    by (subst first_frame_from.simps) (auto simp: index_from_bit frame_count_def)
next
  case (Suc d)
  then have i: "i < unat (nframes fm) div 32"
    and d: "d = unat (nframes fm) div 32 - Suc i" "Suc i \<le> unat (nframes fm) div 32"
    by simp_all
  have below: "32 * i \<le> m \<longleftrightarrow> m div 32 = i \<or> 32 * Suc i \<le> m" for m
    by auto
  show ?case
  proof (cases "first_bit_from (frames fm i) 0")
    case None
    then have full: "frames fm i = 0xFFFFFFFF"
      by (simp add: first_bit_full)
    then have "first_frame_from i fm = first_frame_from (Suc i) fm"
      using i by (subst first_frame_from.simps) (simp add: index_from_bit)
    moreover have "in_use fm m" if "m div 32 = i" for m
      using full that by (simp add: in_use_def full_word_bits)
    ultimately show ?thesis
      using Suc.hyps(1) [OF d] by (auto simp: below split: option.splits)
  next
    case (Some j)
    then have j: "j < 32" "\<not> bit (frames fm i) j" "\<And>k. k < j \<Longrightarrow> bit (frames fm i) k"
      using first_bit_from_correct [of 0 "frames fm i"] by auto
    have "first_frame_from i fm = Some (word_of_nat (i * 4 * 8 + j))"
      using i Some first_bit_full [of "frames fm i"] by (subst first_frame_from.simps) (auto simp: index_from_bit)
    moreover have lt: "i * 32 + j < frame_count fm"
      using i j(1) by (simp add: frame_count_def)
    then have "unat (word_of_nat (i * 4 * 8 + j) :: u32) = i * 32 + j"
      using unat_u32_lt [of "nframes fm"] by (intro trans [OF unat_of_nat_u32]) (auto simp: frame_count_def)
    moreover have "in_use fm m" if "32 * i \<le> m" "m < i * 32 + j" for m
    proof -
      have i: "m div 32 = i"
        using that j(1) by simp
      then have "m mod 32 < j"
        using that(2) div_mult_mod_eq [of m 32] by simp
      then show ?thesis
        using j(3) i by (simp add: in_use_def)
    qed
    ultimately show ?thesis
      using j lt by (auto simp: in_use_def)
  qed
qed

lemma first_frame_Some:
  assumes "first_frame fm = Some w"
  shows "unat w < frame_count fm" "\<not> in_use fm (unat w)" "\<And>m. m < unat w \<Longrightarrow> in_use fm m"
  using first_frame_from_correct [of 0 fm] assms by (auto simp: first_frame_def)

lemma first_frame_None: "first_frame fm = None \<longleftrightarrow> (\<forall>m < frame_count fm. in_use fm m)"
  using first_frame_from_correct [of 0 fm] by (auto simp: first_frame_def split: option.splits)


subsection \<open>Allocating and freeing frames\<close>

text \<open>The machine has at most \<open>2 ^ 20\<close> frames, so that a frame number fits its field.\<close>

definition frames_fit :: "frame_map \<Rightarrow> bool" where
  "frames_fit fm \<longleftrightarrow> unat (nframes fm) \<le> 2 ^ 20"

lemma unat_frame_field: "n < 2 ^ 20 \<Longrightarrow> unat (ucast (word_of_nat n :: u32) :: 20 word) = n"
  by (simp add: unsigned_ucast_eq unat_of_nat_u32 take_bit_nat_eq_self)

lemma unat_frame_of: "unat (ucast (f :: 20 word) :: u32) = unat f"
proof -
  have "unat f < 2 ^ 20"
    using unsigned_less [of f, where ?'a = nat] by simp
  then show ?thesis
    by (simp add: unsigned_ucast_eq take_bit_nat_eq_self)
qed

lemma frame_addr_index:
  assumes "unat w < 2 ^ 20"
  shows "unat (w * cPageSize) div 4096 = unat w"
proof -
  have "unat (w * cPageSize) = unat w * 4096"
    using assms by (simp add: cPageSize_def unat_word_ariths(2))
  then show ?thesis
    by simp
qed

lemma alloc_frame_fresh:
  assumes "alloc_frame p k w fm = Inr (p', fm')" "pg_frame p = 0" "frames_fit fm"
  shows "\<not> in_use fm (unat (pg_frame p'))" "unat (pg_frame p') < frame_count fm"
    "\<And>n. in_use fm' n \<longleftrightarrow> n = unat (pg_frame p') \<or> in_use fm n"
    "pg_present p'" "pg_rw p' = w" "pg_user p' = (\<not> k)" "nframes fm' = nframes fm"
proof -
  obtain idx where idx: "first_frame fm = Some idx" "p' = page_assign idx w k p"
    "fm' = set_frame (idx * cPageSize) fm"
    using assms(1,2) by (auto simp: alloc_frame_def split: option.splits)
  note ff = first_frame_Some [OF idx(1)]
  have lt: "unat idx < 2 ^ 20"
    using ff(1) assms(3) by (simp add: frame_count_def frames_fit_def)
  then have fr: "unat (pg_frame p') = unat idx"
    using unat_frame_field [OF lt] by (simp add: idx(2) page_assign_def)
  show "\<not> in_use fm (unat (pg_frame p'))" "unat (pg_frame p') < frame_count fm"
    "in_use fm' n \<longleftrightarrow> n = unat (pg_frame p') \<or> in_use fm n" for n
    using ff lt by (simp_all add: fr idx(3) set_frame_in_use frame_addr_index)
  show "pg_present p'" "pg_rw p' = w" "pg_user p' = (\<not> k)" "nframes fm' = nframes fm"
    by (simp_all add: idx page_assign_def set_frame_def Let_def)
qed

lemma alloc_frame_kept: "pg_frame p \<noteq> 0 \<Longrightarrow> alloc_frame p k w fm = Inr (p, fm)"
  by (simp add: alloc_frame_def)

lemma alloc_frame_panics:
  "alloc_frame p k w fm = Inl e \<longleftrightarrow>
     pg_frame p = 0 \<and> e = Panicked \<and> (\<forall>n < frame_count fm. in_use fm n)"
  using first_frame_None [of fm] by (auto simp: alloc_frame_def split: option.splits)

text \<open>
  C19: \<^verbatim>\<open>alloc_frame\<close> on a page without a frame gives it the lowest frame not in use,
  marks exactly that frame, and makes the page present with the requested
  rights; it stops the kernel only when every frame is in use.
\<close>

theorem alloc_frame_correct:
  assumes "frames_fit fm" "pg_frame p = 0"
  shows "case alloc_frame p k w fm of
     Inl e \<Rightarrow> e = Panicked \<and> (\<forall>n < frame_count fm. in_use fm n)
   | Inr (p', fm') \<Rightarrow> unat (pg_frame p') < frame_count fm
       \<and> \<not> in_use fm (unat (pg_frame p')) \<and> (\<forall>m < unat (pg_frame p'). in_use fm m)
       \<and> (\<forall>n. in_use fm' n \<longleftrightarrow> n = unat (pg_frame p') \<or> in_use fm n)
       \<and> pg_present p' \<and> pg_rw p' = w \<and> pg_user p' = (\<not> k)"
proof (cases "alloc_frame p k w fm")
  case (Inl e)
  then have "e = Panicked" "\<forall>n < frame_count fm. in_use fm n"
    by (simp_all add: alloc_frame_panics)
  with Inl show ?thesis
    by simp
next
  case (Inr r)
  obtain p' fm' where r: "r = (p', fm')"
    by (cases r)
  note fresh = alloc_frame_fresh [OF Inr [unfolded r] assms(2,1)]
  obtain idx where idx: "first_frame fm = Some idx" "p' = page_assign idx w k p"
    using Inr r assms(2) by (auto simp: alloc_frame_def split: option.splits)
  have "unat idx < 2 ^ 20"
    using first_frame_Some(1) [OF idx(1)] assms(1) by (simp add: frame_count_def frames_fit_def)
  then have "unat (pg_frame p') = unat idx"
    using unat_frame_field [of "unat idx"] by (simp add: idx(2) page_assign_def)
  then show ?thesis
    using fresh first_frame_Some(3) [OF idx(1)] by (simp add: Inr r)
qed

definition empty_frames :: "u32 \<Rightarrow> frame_map" where
  "empty_frames n = \<lparr>frames = (\<lambda>_. 0), nframes = n\<rparr>"

theorem alloc_frame_correct_witness:
  "frames_fit (empty_frames 64) \<and> (\<exists>p' fm'. alloc_frame page_zero False True (empty_frames 64) = Inr (p', fm')
     \<and> (\<forall>n. in_use fm' n \<longleftrightarrow> n = unat (pg_frame p') \<or> in_use (empty_frames 64) n))"
proof -
  have fit: "frames_fit (empty_frames 64)" and zero: "pg_frame page_zero = 0"
    by (simp_all add: frames_fit_def empty_frames_def page_zero_def)
  have free: "\<not> in_use (empty_frames 64) 0" "0 < frame_count (empty_frames 64)"
    by (simp_all add: in_use_def empty_frames_def frame_count_def)
  show ?thesis
    using alloc_frame_correct [OF fit zero, where k = False and w = True] fit free by (auto split: sum.splits)
qed

text \<open>
  C21: \<^verbatim>\<open>free_frame\<close> passes a frame number where \<^verbatim>\<open>clear_frame\<close> expects an address, so
  after the call the frame of the page is marked as in use as before; the bit that is cleared is
  that of frame \<open>n div 4096\<close>, which for the first 4096 frames is frame 0.
\<close>

theorem free_frame_leaks:
  assumes "pg_frame p \<noteq> 0"
  shows "pg_frame (fst (free_frame p fm)) = 0
    \<and> (\<forall>n. in_use (snd (free_frame p fm)) n \<longleftrightarrow> n \<noteq> unat (pg_frame p) div 4096 \<and> in_use fm n)
    \<and> in_use (snd (free_frame p fm)) (unat (pg_frame p)) = in_use fm (unat (pg_frame p))"
proof -
  have u: "unat (ucast (pg_frame p) :: u32) = unat (pg_frame p)"
    by (rule unat_frame_of)
  then have nz: "(ucast (pg_frame p) :: u32) \<noteq> 0"
    using assms by (metis unat_eq_zero)
  then have all: "in_use (snd (free_frame p fm)) n \<longleftrightarrow> n \<noteq> unat (pg_frame p) div 4096 \<and> in_use fm n" for n
    by (simp add: free_frame_def Let_def clear_frame_in_use u)
  have "0 < unat (pg_frame p)"
    using assms by (simp add: unat_gt_0)
  then have "unat (pg_frame p) div 4096 \<noteq> unat (pg_frame p)"
    using div_less_dividend [of 4096 "unat (pg_frame p)"] by simp
  then show ?thesis
    using nz all by (auto simp: free_frame_def Let_def page_clear_def)
qed

theorem free_frame_leaks_witness:
  "let p = page_assign 5 True False page_zero; fm = set_frame (5 * cPageSize) (empty_frames 64)
   in pg_frame p = 5 \<and> in_use fm 5 \<and> in_use (snd (free_frame p fm)) 5"
proof -
  let ?p = "page_assign 5 True False page_zero" and ?fm = "set_frame (5 * cPageSize) (empty_frames 64)"
  have "pg_frame ?p = 5" "in_use ?fm 5"
    by (simp_all add: page_assign_def set_frame_in_use cPageSize_def)
  then show ?thesis
    using free_frame_leaks [of ?p ?fm] by (simp add: Let_def)
qed

end
