(* ===== verification/Paging.thy ===== *)
theory Paging
  imports Frames
begin

text \<open>
  Page tables and page directories of \<^verbatim>\<open>paging.cpp\<close>.  Tables and directories are heap
  objects named by their address (0 is the null pointer); \<open>vm_fresh\<close> holds the
  (virtual, physical) addresses that the coming calls of \<^verbatim>\<open>kmalloc_ap\<close> return, and
  \<open>vm_freed\<close> records the calls of \<^verbatim>\<open>kfree\<close>.  \<open>vm_phys\<close> is the contents of the
  physical frames, which \<^verbatim>\<open>copy_page_physical\<close> (in \<^verbatim>\<open>process.s\<close>) copies.
\<close>

subsection \<open>State\<close>

record page_directory =
  pd_tables :: "nat \<Rightarrow> u32"
  pd_tablesPhysical :: "nat \<Rightarrow> u32"
  pd_physicalAddr :: u32

record vmem =
  vm_frames :: frame_map
  vm_table :: "u32 \<Rightarrow> nat \<Rightarrow> page"
  vm_dir :: "u32 \<Rightarrow> page_directory"
  kernel_directory :: u32
  current_directory :: u32
  vm_fresh :: "(u32 \<times> u32) list"
  vm_freed :: "u32 list"
  vm_phys :: "20 word \<Rightarrow> nat \<Rightarrow> u8"

definition KERNEL_VIRTUAL_BASE :: u32 where "KERNEL_VIRTUAL_BASE = 0xC0000000"

definition vm_kmalloc_ap :: "vmem \<Rightarrow> ((u32 \<times> u32) \<times> vmem) result" where
  "vm_kmalloc_ap vm =
    (case vm_fresh vm of [] \<Rightarrow> Inl Panicked | a # as \<Rightarrow> Inr (a, vm\<lparr>vm_fresh := as\<rparr>))"

definition set_table :: "u32 \<Rightarrow> (nat \<Rightarrow> page) \<Rightarrow> vmem \<Rightarrow> vmem" where
  "set_table t ps vm = vm\<lparr>vm_table := (vm_table vm)(t := ps)\<rparr>"

definition set_page :: "u32 \<Rightarrow> nat \<Rightarrow> page \<Rightarrow> vmem \<Rightarrow> vmem" where
  "set_page t i p vm = set_table t ((vm_table vm t)(i := p)) vm"

definition set_dir_entry :: "u32 \<Rightarrow> nat \<Rightarrow> u32 \<Rightarrow> u32 \<Rightarrow> vmem \<Rightarrow> vmem" where
  "set_dir_entry d i tbl phys vm =
    (let dir = vm_dir vm d
     in vm\<lparr>vm_dir := (vm_dir vm)(d := dir\<lparr>pd_tables := (pd_tables dir)(i := tbl),
          pd_tablesPhysical := (pd_tablesPhysical dir)(i := phys)\<rparr>)\<rparr>)"


subsection \<open>Finding and making pages\<close>

definition get_page :: "u32 \<Rightarrow> bool \<Rightarrow> u32 \<Rightarrow> vmem \<Rightarrow> ((u32 \<times> nat) option \<times> vmem) result" where
  "get_page address0 mk d vm =
    (let address = address0 div cPageSize;
         table_idx = unat (address div 1024);
         tbl = pd_tables (vm_dir vm d) table_idx
     in if tbl \<noteq> 0 then Inr (Some (tbl, unat (address mod 1024)), vm)
        else if mk
        then bind_result (vm_kmalloc_ap vm) (\<lambda>((tbl, tmp), vm).
          let vm = set_table tbl (\<lambda>_. page_zero) vm;
              vm = set_dir_entry d table_idx tbl (tmp OR 0x7) vm
          in Inr (Some (tbl, unat (address mod 1024)), vm))
        else Inr (None, vm))"

text \<open>The variant used before the heap exists: it carves tables off the pointer \<^verbatim>\<open>allocp\<close>.\<close>

definition get_page_boot :: "u32 \<Rightarrow> u32 \<Rightarrow> bool \<Rightarrow> u32 \<Rightarrow> vmem \<Rightarrow> (u32 \<times> nat) option \<times> u32 \<times> vmem" where
  "get_page_boot allocp address0 mk d vm =
    (let address = address0 div cPageSize;
         table_idx = unat (address div 1024);
         tbl = pd_tables (vm_dir vm d) table_idx
     in if tbl \<noteq> 0 then (Some (tbl, unat (address mod 1024)), allocp, vm)
        else if mk
        then let addr = page_align allocp;
                 tmp = addr - KERNEL_VIRTUAL_BASE;
                 vm = set_table addr (\<lambda>_. page_zero) vm;
                 vm = set_dir_entry d table_idx addr (tmp OR 0x7) vm
             in (Some (addr, unat (address mod 1024)), addr + 4096, vm)
        else (None, allocp, vm))"

definition get_kernel_page :: "u32 \<Rightarrow> bool \<Rightarrow> vmem \<Rightarrow> ((u32 \<times> nat) option \<times> vmem) result" where
  "get_kernel_page address mk vm = get_page address mk (kernel_directory vm) vm"

definition get_current_page :: "u32 \<Rightarrow> bool \<Rightarrow> vmem \<Rightarrow> ((u32 \<times> nat) option \<times> vmem) result" where
  "get_current_page address mk vm = get_page address mk (current_directory vm) vm"

definition vm_alloc_frame :: "u32 \<Rightarrow> nat \<Rightarrow> bool \<Rightarrow> bool \<Rightarrow> vmem \<Rightarrow> vmem result" where
  "vm_alloc_frame t i is_kernel is_writeable vm =
    bind_result (alloc_frame (vm_table vm t i) is_kernel is_writeable (vm_frames vm)) (\<lambda>(p, fm).
      Inr (set_page t i p (vm\<lparr>vm_frames := fm\<rparr>)))"

definition allocate_user :: "u32 \<Rightarrow> bool \<Rightarrow> vmem \<Rightarrow> ((u32 \<times> nat) \<times> vmem) result" where
  "allocate_user page writable vm =
    bind_result (get_current_page page True vm) (\<lambda>(p, vm).
      case p of None \<Rightarrow> Inl NullDeref
      | Some (t, i) \<Rightarrow>
          bind_result (vm_alloc_frame t i False writable vm) (\<lambda>vm. Inr ((t, i), vm)))"

definition switch_page_directory :: "u32 \<Rightarrow> vmem \<Rightarrow> vmem \<times> u32" where
  "switch_page_directory d vm = (vm\<lparr>current_directory := d\<rparr>, pd_physicalAddr (vm_dir vm d))"


subsection \<open>Cloning and freeing\<close>

text \<open>\<^verbatim>\<open>copy_page_physical(src frame, dst frame)\<close>.\<close>

definition copy_page_physical :: "20 word \<Rightarrow> 20 word \<Rightarrow> vmem \<Rightarrow> vmem" where
  "copy_page_physical src dst vm = vm\<lparr>vm_phys := (vm_phys vm)(dst := vm_phys vm src)\<rparr>"

definition clone_flags :: "page \<Rightarrow> page \<Rightarrow> page" where
  "clone_flags src p =
    (let p = (if pg_present src then p\<lparr>pg_present := True\<rparr> else p);
         p = (if pg_rw src then p\<lparr>pg_rw := True\<rparr> else p);
         p = (if pg_user src then p\<lparr>pg_user := True\<rparr> else p);
         p = (if pg_accessed src then p\<lparr>pg_accessed := True\<rparr> else p)
     in if pg_dirty src then p\<lparr>pg_dirty := True\<rparr> else p)"

definition clone_entry :: "u32 \<Rightarrow> u32 \<Rightarrow> nat \<Rightarrow> vmem \<Rightarrow> vmem result" where
  "clone_entry src tbl i vm =
    (if pg_frame (vm_table vm src i) = 0 then Inr vm
     else bind_result (vm_alloc_frame tbl i False False vm) (\<lambda>vm.
       let vm = set_page tbl i (clone_flags (vm_table vm src i) (vm_table vm tbl i)) vm
       in Inr (copy_page_physical (pg_frame (vm_table vm src i)) (pg_frame (vm_table vm tbl i)) vm)))"

definition clone_table :: "u32 \<Rightarrow> vmem \<Rightarrow> ((u32 \<times> u32) \<times> vmem) result" where
  "clone_table src vm =
    bind_result (vm_kmalloc_ap vm) (\<lambda>((tbl, phys), vm).
      let vm = set_table tbl (\<lambda>_. page_zero) vm
      in bind_result (fold_result (clone_entry src tbl) [0..<1024] vm) (\<lambda>vm. Inr ((tbl, phys), vm)))"

definition free_entry :: "u32 \<Rightarrow> nat \<Rightarrow> vmem \<Rightarrow> vmem" where
  "free_entry src i vm =
    (if pg_frame (vm_table vm src i) = 0 then vm
     else let (p, fm) = free_frame (vm_table vm src i) (vm_frames vm)
          in set_page src i p (vm\<lparr>vm_frames := fm\<rparr>))"

definition vm_kfree :: "u32 \<Rightarrow> vmem \<Rightarrow> vmem" where
  "vm_kfree a vm = vm\<lparr>vm_freed := vm_freed vm @ [a]\<rparr>"

definition free_table :: "u32 \<Rightarrow> vmem \<Rightarrow> vmem" where
  "free_table src vm = vm_kfree src (fold (free_entry src) [0..<1024] vm)"

text \<open>
  A fresh directory, cleared; \<^verbatim>\<open>tablesPhysical\<close> lies 4096 bytes into the structure.
\<close>

definition blank_directory :: "u32 \<Rightarrow> page_directory" where
  "blank_directory phys =
    \<lparr>pd_tables = (\<lambda>_. 0), pd_tablesPhysical = (\<lambda>_. 0), pd_physicalAddr = phys + 4096\<rparr>"

definition new_directory :: "vmem \<Rightarrow> (u32 \<times> vmem) result" where
  "new_directory vm =
    bind_result (vm_kmalloc_ap vm) (\<lambda>((d, phys), vm).
      let vm = vm\<lparr>vm_dir := (vm_dir vm)(d := blank_directory phys)\<rparr>;
          vm = fold (\<lambda>i vm. let k = vm_dir vm (kernel_directory vm) in
                 if pd_tables k i \<noteq> 0 then set_dir_entry d i (pd_tables k i) (pd_tablesPhysical k i) vm
                 else vm) [0..<1024] vm
      in Inr (d, vm))"

definition clone_dir_entry :: "u32 \<Rightarrow> u32 \<Rightarrow> nat \<Rightarrow> vmem \<Rightarrow> vmem result" where
  "clone_dir_entry src d i vm =
    (let s = vm_dir vm src; k = vm_dir vm (kernel_directory vm)
     in if pd_tables s i = 0 then Inr vm
        else if pd_tables k i = pd_tables s i
        then Inr (set_dir_entry d i (pd_tables s i) (pd_tablesPhysical s i) vm)
        else bind_result (clone_table (pd_tables s i) vm) (\<lambda>((tbl, phys), vm).
          Inr (set_dir_entry d i tbl (phys OR 0x07) vm)))"

definition clone_directory :: "u32 \<Rightarrow> vmem \<Rightarrow> (u32 \<times> vmem) result" where
  "clone_directory src vm =
    bind_result (vm_kmalloc_ap vm) (\<lambda>((d, phys), vm).
      let vm = vm\<lparr>vm_dir := (vm_dir vm)(d := blank_directory phys)\<rparr>
      in bind_result (fold_result (clone_dir_entry src d) [0..<1024] vm) (\<lambda>vm. Inr (d, vm)))"

definition clone_current :: "vmem \<Rightarrow> (u32 \<times> vmem) result" where
  "clone_current vm = clone_directory (current_directory vm) vm"

definition free_directory :: "u32 \<Rightarrow> vmem \<Rightarrow> vmem" where
  "free_directory d vm =
    vm_kfree d (fold (\<lambda>i vm.
      let t = pd_tables (vm_dir vm d) i in
      if t = 0 then vm
      else if pd_tables (vm_dir vm (kernel_directory vm)) i \<noteq> t then free_table t vm else vm)
      [0..<1024] vm)"

end
