(* ===== verification/Address_Space.thy ===== *)
theory Address_Space
  imports Paging
begin

text \<open>
  What the paging operations do to address spaces: a cloned directory has its own
  copies of the user pages and shares the kernel tables, and mapping a page
  affects no other page.
\<close>

subsection \<open>A cloned table\<close>

abbreviation used :: "vmem \<Rightarrow> nat \<Rightarrow> bool" where
  "used vm n \<equiv> in_use (vm_frames vm) n"

definition vm_wf :: "vmem \<Rightarrow> bool" where
  "vm_wf vm \<longleftrightarrow> frames_fit (vm_frames vm) \<and> used vm 0"

text \<open>What a step of cloning leaves alone.\<close>

definition vm_grows :: "vmem \<Rightarrow> vmem \<Rightarrow> bool" where
  "vm_grows vm vm' \<longleftrightarrow>
     (\<forall>n. used vm n \<longrightarrow> used vm' n)
     \<and> (\<forall>f. used vm (unat f) \<longrightarrow> vm_phys vm' f = vm_phys vm f)
     \<and> nframes (vm_frames vm') = nframes (vm_frames vm)
     \<and> kernel_directory vm' = kernel_directory vm \<and> current_directory vm' = current_directory vm"

lemma vm_grows_refl [simp]: "vm_grows vm vm"
  by (simp add: vm_grows_def)

lemma vm_grows_trans: "vm_grows vm vm' \<Longrightarrow> vm_grows vm' vm'' \<Longrightarrow> vm_grows vm vm''"
  by (auto simp: vm_grows_def)

lemma vm_grows_wf: "vm_grows vm vm' \<Longrightarrow> vm_wf vm \<Longrightarrow> vm_wf vm'"
  by (auto simp: vm_grows_def vm_wf_def frames_fit_def)

text \<open>
  A page \<open>p\<close> made between \<open>vm\<close> and \<open>vm'\<close> as the clone of \<open>sp\<close>: a frame that was free,
  holding what the frame of \<open>sp\<close> held, with the flags of \<open>sp\<close>.
\<close>

definition page_copy :: "vmem \<Rightarrow> vmem \<Rightarrow> page \<Rightarrow> page \<Rightarrow> bool" where
  "page_copy vm vm' sp p \<longleftrightarrow>
     (if pg_frame sp = 0 then p = page_zero
      else pg_frame p \<noteq> 0 \<and> \<not> used vm (unat (pg_frame p)) \<and> used vm' (unat (pg_frame p))
        \<and> vm_phys vm' (pg_frame p) = vm_phys vm (pg_frame sp)
        \<and> pg_present p \<and> pg_user p \<and> pg_rw p = pg_rw sp)"

lemma set_page_simps [simp]:
  "vm_table (set_page t i p vm) = (vm_table vm)(t := (vm_table vm t)(i := p))"
  "vm_frames (set_page t i p vm) = vm_frames vm" "vm_dir (set_page t i p vm) = vm_dir vm"
  "kernel_directory (set_page t i p vm) = kernel_directory vm"
  "current_directory (set_page t i p vm) = current_directory vm"
  "vm_fresh (set_page t i p vm) = vm_fresh vm" "vm_phys (set_page t i p vm) = vm_phys vm"
  by (simp_all add: set_page_def set_table_def)

lemma copy_page_simps [simp]:
  "vm_table (copy_page_physical s d vm) = vm_table vm" "vm_frames (copy_page_physical s d vm) = vm_frames vm"
  "vm_dir (copy_page_physical s d vm) = vm_dir vm"
  "kernel_directory (copy_page_physical s d vm) = kernel_directory vm"
  "current_directory (copy_page_physical s d vm) = current_directory vm"
  "vm_fresh (copy_page_physical s d vm) = vm_fresh vm"
  "vm_phys (copy_page_physical s d vm) = (vm_phys vm)(d := vm_phys vm s)"
  by (simp_all add: copy_page_physical_def)

lemma clone_flags_simps [simp]:
  "pg_frame (clone_flags s p) = pg_frame p"
  "pg_present (clone_flags s p) = (pg_present s \<or> pg_present p)"
  "pg_rw (clone_flags s p) = (pg_rw s \<or> pg_rw p)" "pg_user (clone_flags s p) = (pg_user s \<or> pg_user p)"
  by (simp_all add: clone_flags_def Let_def)

lemma clone_entry_spec:
  assumes run: "clone_entry src tbl i vm = Inr vm'" and ne: "src \<noteq> tbl" and wf: "vm_wf vm"
    and blank: "vm_table vm tbl i = page_zero"
    and src: "pg_frame (vm_table vm src i) \<noteq> 0 \<longrightarrow> used vm (unat (pg_frame (vm_table vm src i)))"
  shows "vm_grows vm vm' \<and> page_copy vm vm' (vm_table vm src i) (vm_table vm' tbl i)
    \<and> (\<forall>t j. t \<noteq> tbl \<or> j \<noteq> i \<longrightarrow> vm_table vm' t j = vm_table vm t j)
    \<and> vm_dir vm' = vm_dir vm \<and> vm_fresh vm' = vm_fresh vm
    \<and> (\<forall>n. used vm' n \<longrightarrow> used vm n \<or> n = unat (pg_frame (vm_table vm' tbl i)))"
proof (cases "pg_frame (vm_table vm src i) = 0")
  case True
  then show ?thesis
    using run blank by (auto simp: clone_entry_def page_copy_def)
next
  case False
  let ?s = "vm_table vm src i"
  obtain p fm where a: "alloc_frame (vm_table vm tbl i) False False (vm_frames vm) = Inr (p, fm)"
    and vm': "vm' = copy_page_physical (pg_frame ?s) (pg_frame p)
        (set_page tbl i (clone_flags ?s p) (set_page tbl i p (vm\<lparr>vm_frames := fm\<rparr>)))"
    using run False ne by (auto simp: clone_entry_def vm_alloc_frame_def result_simps Let_def)
  have "pg_frame (vm_table vm tbl i) = 0" "frames_fit (vm_frames vm)"
    using blank wf by (simp_all add: page_zero_def vm_wf_def)
  note fresh = alloc_frame_fresh [OF a this]
  have "pg_frame p \<noteq> 0"
    using fresh(1) wf by (auto simp: vm_wf_def)
  moreover have "pg_frame p \<noteq> f" if "used vm (unat f)" for f
    using fresh(1) that by auto
  ultimately show ?thesis
    using fresh False src ne by (auto simp: vm' vm_grows_def page_copy_def)
qed

lemma clone_entries_spec:
  assumes "fold_result (clone_entry src tbl) is vm = Inr vm'" "distinct is" "src \<noteq> tbl" "vm_wf vm"
    "\<And>i. i \<in> set is \<Longrightarrow> vm_table vm tbl i = page_zero"
    "\<And>i. pg_frame (vm_table vm src i) \<noteq> 0 \<Longrightarrow> used vm (unat (pg_frame (vm_table vm src i)))"
  shows "vm_grows vm vm' \<and> (\<forall>i \<in> set is. page_copy vm vm' (vm_table vm src i) (vm_table vm' tbl i))
    \<and> (\<forall>t j. t \<noteq> tbl \<or> j \<notin> set is \<longrightarrow> vm_table vm' t j = vm_table vm t j)
    \<and> vm_dir vm' = vm_dir vm \<and> vm_fresh vm' = vm_fresh vm
    \<and> inj_on (\<lambda>i. pg_frame (vm_table vm' tbl i)) {i \<in> set is. pg_frame (vm_table vm src i) \<noteq> 0}"
  using assms
proof (induction "is" arbitrary: vm)
  case (Cons i "is")
  obtain vm1 where r: "clone_entry src tbl i vm = Inr vm1" "fold_result (clone_entry src tbl) is vm1 = Inr vm'"
    using Cons.prems(1) by (auto simp: result_simps)
  have s1: "vm_grows vm vm1" "page_copy vm vm1 (vm_table vm src i) (vm_table vm1 tbl i)"
    "\<And>t j. t \<noteq> tbl \<or> j \<noteq> i \<Longrightarrow> vm_table vm1 t j = vm_table vm t j"
    "vm_dir vm1 = vm_dir vm" "vm_fresh vm1 = vm_fresh vm"
    using clone_entry_spec [OF r(1) Cons.prems(3,4)] Cons.prems(5,6) by auto
  have src1: "vm_table vm1 src j = vm_table vm src j" for j
    using s1(3) Cons.prems(3) by blast
  have blank1: "vm_table vm1 tbl j = page_zero" if "j \<in> set is" for j
    using s1(3) [of tbl j] Cons.prems(2,5) that by auto
  have used1: "used vm1 (unat (pg_frame (vm_table vm1 src j)))" if "pg_frame (vm_table vm1 src j) \<noteq> 0" for j
    using s1(1) Cons.prems(6) that by (simp add: src1 vm_grows_def)
  have "distinct is"
    using Cons.prems(2) by simp
  note IH = Cons.IH [OF r(2) this Cons.prems(3) vm_grows_wf [OF s1(1) Cons.prems(4)] blank1 used1, unfolded src1]
  have s2: "vm_grows vm1 vm'" "\<And>j. j \<in> set is \<Longrightarrow> page_copy vm1 vm' (vm_table vm src j) (vm_table vm' tbl j)"
    "\<And>t j. t \<noteq> tbl \<or> j \<notin> set is \<Longrightarrow> vm_table vm' t j = vm_table vm1 t j"
    "vm_dir vm' = vm_dir vm1" "vm_fresh vm' = vm_fresh vm1"
    "inj_on (\<lambda>i. pg_frame (vm_table vm' tbl i)) {i \<in> set is. pg_frame (vm_table vm src i) \<noteq> 0}"
    using IH by blast+
  have i: "vm_table vm' tbl i = vm_table vm1 tbl i" "i \<notin> set is"
    using s2(3) Cons.prems(2) by auto
  have ci: "page_copy vm vm' (vm_table vm src i) (vm_table vm' tbl i)"
    using s1(2) s2(1) unfolding i page_copy_def vm_grows_def by auto
  have cj: "page_copy vm vm' (vm_table vm src j) (vm_table vm' tbl j)" if "j \<in> set is" for j
    using s2(2) [OF that] s1(1) Cons.prems(6) unfolding page_copy_def vm_grows_def by auto
  have "pg_frame (vm_table vm' tbl i) \<noteq> pg_frame (vm_table vm' tbl j)"
    if "j \<in> set is" "pg_frame (vm_table vm src i) \<noteq> 0" "pg_frame (vm_table vm src j) \<noteq> 0" for j
    using s1(2) s2(2) [OF that(1)] that unfolding i page_copy_def by auto
  then have "inj_on (\<lambda>i. pg_frame (vm_table vm' tbl i)) {j \<in> set (i # is). pg_frame (vm_table vm src j) \<noteq> 0}"
    using s2(6) i(2) by (auto simp: inj_on_def) metis+
  then show ?case
    using ci cj s1 s2 vm_grows_trans by auto
qed auto


text \<open>
  The directory level.  \<open>src\<close> is cloned into \<open>d\<close>; \<open>tables_ok\<close> says what the
  hypotheses on addresses are: the fresh addresses are new, and every frame that
  a table of \<open>src\<close> refers to is in use.
\<close>

definition fresh_addrs :: "vmem \<Rightarrow> u32 set" where
  "fresh_addrs vm = fst ` set (vm_fresh vm)"

definition clone_ready :: "vmem \<Rightarrow> u32 \<Rightarrow> bool" where
  "clone_ready vm src \<longleftrightarrow> vm_wf vm \<and> distinct (map fst (vm_fresh vm)) \<and> 0 \<notin> fresh_addrs vm
     \<and> src \<notin> fresh_addrs vm \<and> kernel_directory vm \<notin> fresh_addrs vm
     \<and> (\<forall>i. pd_tables (vm_dir vm src) i \<notin> fresh_addrs vm)
     \<and> (\<forall>i j. let p = vm_table vm (pd_tables (vm_dir vm src) i) j in pg_frame p \<noteq> 0 \<longrightarrow> used vm (unat (pg_frame p)))"

lemma clone_table_spec:
  assumes run: "clone_table src vm = Inr ((tbl, phys), vm')" and wf: "vm_wf vm"
    and ne: "src \<notin> fresh_addrs vm"
    and used: "\<And>j. pg_frame (vm_table vm src j) \<noteq> 0 \<Longrightarrow> used vm (unat (pg_frame (vm_table vm src j)))"
  shows "vm_grows vm vm' \<and> vm_dir vm' = vm_dir vm \<and> (\<exists>ph. vm_fresh vm = (tbl, ph) # vm_fresh vm')
    \<and> (\<forall>j < 1024. page_copy vm vm' (vm_table vm src j) (vm_table vm' tbl j))
    \<and> (\<forall>t. t \<noteq> tbl \<longrightarrow> vm_table vm' t = vm_table vm t)
    \<and> inj_on (\<lambda>i. pg_frame (vm_table vm' tbl i)) {i \<in> {0..<1024}. pg_frame (vm_table vm src i) \<noteq> 0}"
proof -
  obtain fr where fr: "vm_fresh vm = (tbl, phys) # fr"
    and r: "fold_result (clone_entry src tbl) [0..<1024] (set_table tbl (\<lambda>_. page_zero) (vm\<lparr>vm_fresh := fr\<rparr>)) = Inr vm'"
      (is "fold_result _ _ ?vm = _")
    using run by (auto simp: clone_table_def vm_kmalloc_ap_def result_simps Let_def split: list.splits)
  have ne': "src \<noteq> tbl"
    using ne fr by (auto simp: fresh_addrs_def)
  have v: "vm_table ?vm tbl j = page_zero" "vm_table ?vm t = (if t = tbl then \<lambda>_. page_zero else vm_table vm t)"
    "vm_frames ?vm = vm_frames vm" "vm_phys ?vm = vm_phys vm" "vm_dir ?vm = vm_dir vm" "vm_fresh ?vm = fr"
    "kernel_directory ?vm = kernel_directory vm" "current_directory ?vm = current_directory vm" for j t
    by (auto simp: set_table_def)
  have wf': "vm_wf ?vm"
    using wf by (simp add: vm_wf_def v)
  have "vm_grows ?vm vm' \<and> (\<forall>i \<in> set [0..<1024]. page_copy ?vm vm' (vm_table ?vm src i) (vm_table vm' tbl i))
    \<and> (\<forall>t j. t \<noteq> tbl \<or> j \<notin> set [0..<1024] \<longrightarrow> vm_table vm' t j = vm_table ?vm t j)
    \<and> vm_dir vm' = vm_dir ?vm \<and> vm_fresh vm' = vm_fresh ?vm
    \<and> inj_on (\<lambda>i. pg_frame (vm_table vm' tbl i)) {i \<in> set [0..<1024]. pg_frame (vm_table ?vm src i) \<noteq> 0}"
    using ne' used by (intro clone_entries_spec [OF r _ ne' wf']) (simp_all add: v)
  moreover have "page_copy ?vm vm' sp p = page_copy vm vm' sp p" "vm_grows ?vm vm' = vm_grows vm vm'" for sp p
    by (simp_all add: page_copy_def vm_grows_def v)
  ultimately show ?thesis
    using ne' fr by (auto simp: v)
qed

lemma set_dir_entry_simps [simp]:
  "vm_table (set_dir_entry d i t p vm) = vm_table vm" "vm_frames (set_dir_entry d i t p vm) = vm_frames vm"
  "vm_phys (set_dir_entry d i t p vm) = vm_phys vm" "vm_fresh (set_dir_entry d i t p vm) = vm_fresh vm"
  "kernel_directory (set_dir_entry d i t p vm) = kernel_directory vm"
  "current_directory (set_dir_entry d i t p vm) = current_directory vm"
  "x \<noteq> d \<Longrightarrow> vm_dir (set_dir_entry d i t p vm) x = vm_dir vm x"
  "pd_tables (vm_dir (set_dir_entry d i t p vm) d) = (pd_tables (vm_dir vm d))(i := t)"
  by (simp_all add: set_dir_entry_def Let_def)

text \<open>The entry \<open>i\<close> of the clone \<open>d\<close>: empty, shared with the kernel, or a copied table.\<close>

definition dir_copy :: "vmem \<Rightarrow> vmem \<Rightarrow> u32 \<Rightarrow> u32 \<Rightarrow> nat \<Rightarrow> bool" where
  "dir_copy vm vm' src d i \<longleftrightarrow>
    (let s = pd_tables (vm_dir vm src) i; t = pd_tables (vm_dir vm' d) i in
     if s = 0 then t = 0
     else if pd_tables (vm_dir vm (kernel_directory vm)) i = s then t = s
     else t \<in> fresh_addrs vm \<and> t \<notin> fresh_addrs vm'
       \<and> (\<forall>j < 1024. page_copy vm vm' (vm_table vm s j) (vm_table vm' t j)))"

lemma page_copy_later:
  assumes "page_copy vm vm1 sp p" "vm_grows vm1 vm2"
  shows "page_copy vm vm2 sp p"
  using assms by (auto simp: page_copy_def vm_grows_def split: if_splits)

lemma page_copy_earlier:
  assumes "vm_grows vm vm1" "page_copy vm1 vm2 sp p" "pg_frame sp \<noteq> 0 \<Longrightarrow> used vm (unat (pg_frame sp))"
  shows "page_copy vm vm2 sp p"
  using assms by (auto simp: page_copy_def vm_grows_def split: if_splits)

definition vm_kept :: "vmem \<Rightarrow> vmem \<Rightarrow> u32 \<Rightarrow> bool" where
  "vm_kept vm vm' d \<longleftrightarrow> vm_grows vm vm' \<and> (\<forall>x. x \<noteq> d \<longrightarrow> vm_dir vm' x = vm_dir vm x)
     \<and> (\<forall>t. t \<notin> fresh_addrs vm \<longrightarrow> vm_table vm' t = vm_table vm t)
     \<and> fresh_addrs vm' \<subseteq> fresh_addrs vm"

lemma vm_kept_trans: "vm_kept vm vm1 d \<Longrightarrow> vm_kept vm1 vm2 d \<Longrightarrow> vm_kept vm vm2 d"
  unfolding vm_kept_def using vm_grows_trans by (auto 4 4)

lemma clone_ready_kept:
  assumes "clone_ready vm src" "vm_kept vm vm' d" "src \<noteq> d" "distinct (map fst (vm_fresh vm'))"
  shows "clone_ready vm' src"
proof -
  have g: "vm_grows vm vm'" "vm_dir vm' src = vm_dir vm src" "fresh_addrs vm' \<subseteq> fresh_addrs vm"
    "\<And>t. t \<notin> fresh_addrs vm \<Longrightarrow> vm_table vm' t = vm_table vm t"
    using assms by (auto simp: vm_kept_def)
  have "vm_table vm' (pd_tables (vm_dir vm src) i) = vm_table vm (pd_tables (vm_dir vm src) i)" for i
    using assms(1) g(4) by (auto simp: clone_ready_def)
  then show ?thesis
    using assms(1,4) g vm_grows_wf [OF g(1)] unfolding clone_ready_def Let_def
    by (auto simp: vm_grows_def subset_iff)
qed

lemma clone_dir_entry_spec:
  assumes run: "clone_dir_entry src d i vm = Inr vm'" and ready: "clone_ready vm src"
    and d: "d \<noteq> src" "d \<noteq> kernel_directory vm" "pd_tables (vm_dir vm d) i = 0"
  shows "vm_kept vm vm' d \<and> dir_copy vm vm' src d i \<and> distinct (map fst (vm_fresh vm'))
    \<and> (\<forall>j. j \<noteq> i \<longrightarrow> pd_tables (vm_dir vm' d) j = pd_tables (vm_dir vm d) j)"
proof -
  let ?s = "pd_tables (vm_dir vm src) i" and ?k = "pd_tables (vm_dir vm (kernel_directory vm)) i"
  consider "?s = 0" | "?s \<noteq> 0" "?k = ?s" | "?s \<noteq> 0" "?k \<noteq> ?s"
    by blast
  then show ?thesis
  proof cases
    case 1
    then show ?thesis
      using run ready d by (auto simp: clone_dir_entry_def vm_kept_def dir_copy_def clone_ready_def Let_def)
  next
    case 2
    then have "vm' = set_dir_entry d i ?s (pd_tablesPhysical (vm_dir vm src) i) vm"
      using run by (simp add: clone_dir_entry_def Let_def)
    then show ?thesis
      using 2 ready d by (auto simp: vm_kept_def dir_copy_def clone_ready_def vm_grows_def fresh_addrs_def)
  next
    case 3
    then obtain tbl phys vm1 where ct: "clone_table ?s vm = Inr ((tbl, phys), vm1)"
      and vm': "vm' = set_dir_entry d i tbl (phys OR 0x07) vm1"
      using run by (auto simp: clone_dir_entry_def result_simps Let_def)
    have sp: "vm_grows vm vm1" "vm_dir vm1 = vm_dir vm" "\<exists>ph. vm_fresh vm = (tbl, ph) # vm_fresh vm1"
      "\<And>j. j < 1024 \<Longrightarrow> page_copy vm vm1 (vm_table vm ?s j) (vm_table vm1 tbl j)"
      "\<And>t. t \<noteq> tbl \<Longrightarrow> vm_table vm1 t = vm_table vm t"
      using clone_table_spec [OF ct] ready by (auto simp: clone_ready_def Let_def)
    obtain ph where ph: "vm_fresh vm = (tbl, ph) # vm_fresh vm'"
      using sp(3) by (auto simp: vm')
    have "distinct (map fst (vm_fresh vm))"
      using ready by (simp add: clone_ready_def)
    then have fr: "fresh_addrs vm = insert tbl (fresh_addrs vm')" "tbl \<notin> fresh_addrs vm'"
      "distinct (map fst (vm_fresh vm'))"
      by (simp_all add: fresh_addrs_def ph)
    have pc: "page_copy vm vm' sp p = page_copy vm vm1 sp p" "vm_grows vm vm' = vm_grows vm vm1" for sp p
      by (simp_all add: page_copy_def vm_grows_def vm')
    have "vm_kept vm vm' d"
      using sp fr d unfolding vm_kept_def pc by (auto simp: vm')
    moreover have "dir_copy vm vm' src d i"
      using sp fr 3 unfolding dir_copy_def Let_def pc by (auto simp: vm')
    ultimately show ?thesis
      using fr by (simp add: vm' sp(2))
  qed
qed

lemma dir_copy_cong:
  assumes "dir_copy vm1 vm2 src d j" "vm_kept vm vm1 d" "clone_ready vm src" "d \<noteq> src"
    "d \<noteq> kernel_directory vm"
  shows "dir_copy vm vm2 src d j"
proof -
  have k: "vm_grows vm vm1" "vm_dir vm1 src = vm_dir vm src" "fresh_addrs vm1 \<subseteq> fresh_addrs vm"
    "vm_dir vm1 (kernel_directory vm1) = vm_dir vm (kernel_directory vm)"
    "vm_table vm1 (pd_tables (vm_dir vm src) j) = vm_table vm (pd_tables (vm_dir vm src) j)"
    using assms by (auto simp: vm_kept_def clone_ready_def vm_grows_def)
  show ?thesis
    using assms(1,3) k(3) page_copy_earlier [OF k(1)]
    unfolding dir_copy_def Let_def k(2,4,5) clone_ready_def by (auto split: if_splits)
qed

lemma dir_copy_later:
  assumes "dir_copy vm vm1 src d j" "vm_kept vm1 vm2 d" "pd_tables (vm_dir vm2 d) j = pd_tables (vm_dir vm1 d) j"
  shows "dir_copy vm vm2 src d j"
proof -
  have g: "vm_grows vm1 vm2" "fresh_addrs vm2 \<subseteq> fresh_addrs vm1"
    "\<And>t. t \<notin> fresh_addrs vm1 \<Longrightarrow> vm_table vm2 t = vm_table vm1 t"
    using assms(2) by (auto simp: vm_kept_def)
  show ?thesis
    using assms(1) g page_copy_later [OF _ g(1)] unfolding dir_copy_def Let_def assms(3)
    by (auto split: if_splits)
qed

lemma clone_dir_entries_spec:
  assumes "fold_result (clone_dir_entry src d) is vm = Inr vm'" "distinct is" "clone_ready vm src"
    "d \<noteq> src" "d \<noteq> kernel_directory vm" "\<And>i. i \<in> set is \<Longrightarrow> pd_tables (vm_dir vm d) i = 0"
  shows "vm_kept vm vm' d \<and> (\<forall>i \<in> set is. dir_copy vm vm' src d i)
    \<and> (\<forall>j. j \<notin> set is \<longrightarrow> pd_tables (vm_dir vm' d) j = pd_tables (vm_dir vm d) j)"
  using assms
proof (induction "is" arbitrary: vm)
  case Nil
  then show ?case
    by (auto simp: vm_kept_def)
next
  case (Cons i "is")
  obtain vm1 where r: "clone_dir_entry src d i vm = Inr vm1" "fold_result (clone_dir_entry src d) is vm1 = Inr vm'"
    using Cons.prems(1) by (auto simp: result_simps)
  have s1: "vm_kept vm vm1 d" "dir_copy vm vm1 src d i" "distinct (map fst (vm_fresh vm1))"
    "\<And>j. j \<noteq> i \<Longrightarrow> pd_tables (vm_dir vm1 d) j = pd_tables (vm_dir vm d) j"
    using clone_dir_entry_spec [OF r(1) Cons.prems(3,4,5)] Cons.prems(6) by auto
  have ready1: "clone_ready vm1 src"
    using clone_ready_kept [OF Cons.prems(3) s1(1) _ s1(3)] Cons.prems(4) by simp
  have kd: "d \<noteq> kernel_directory vm1"
    using s1(1) Cons.prems(5) by (auto simp: vm_kept_def vm_grows_def)
  have s2: "vm_kept vm1 vm' d" "\<And>j. j \<in> set is \<Longrightarrow> dir_copy vm1 vm' src d j"
    "\<And>j. j \<notin> set is \<Longrightarrow> pd_tables (vm_dir vm' d) j = pd_tables (vm_dir vm1 d) j"
    using Cons.IH [OF r(2) _ ready1 Cons.prems(4) kd] Cons.prems(2,6) s1(4) by fastforce+
  show ?case
    using vm_kept_trans [OF s1(1) s2(1)] dir_copy_later [OF s1(2) s2(1)] s2(3) s1(4) Cons.prems(2)
      dir_copy_cong [OF s2(2) s1(1) Cons.prems(3,4,5)] by auto
qed


lemma fold_result_noop: "(\<And>i. i \<in> set is \<Longrightarrow> f i s = Inr s) \<Longrightarrow> fold_result f is s = Inr s"
  by (induction "is") auto

text \<open>A machine with one user page, at index 0 of the table 0x3000 of directory 0x2000.\<close>

definition demo_vm :: vmem where
  "demo_vm = \<lparr>vm_frames = \<lparr>frames = (\<lambda>_. 3), nframes = 64\<rparr>,
     vm_table = (\<lambda>t i. if t = 0x3000 \<and> i = 0 then page_assign 1 True False page_zero else page_zero),
     vm_dir = (\<lambda>d. \<lparr>pd_tables = (\<lambda>i. if d = 0x2000 \<and> i = 0 then 0x3000 else 0),
       pd_tablesPhysical = (\<lambda>_. 0), pd_physicalAddr = 0\<rparr>),
     kernel_directory = 0x1000, current_directory = 0x2000,
     vm_fresh = [(0x4000, 0x40000), (0x5000, 0x50000)], vm_freed = [], vm_phys = (\<lambda>f j. ucast f)\<rparr>"

lemma demo_ready: "clone_ready demo_vm 0x2000"
proof -
  have "bit (3 :: u32) 0" "bit (3 :: u32) (Suc 0)"
    by (simp_all add: bit_numeral_rec)
  then show ?thesis
    by (auto simp: clone_ready_def demo_vm_def vm_wf_def frames_fit_def in_use_def fresh_addrs_def
        page_assign_def page_zero_def)
qed

lemma demo_clone: "\<exists>vm'. clone_directory 0x2000 demo_vm = Inr (0x4000, vm')"
proof -
  have split: "[0..<1024] = 0 # [Suc 0..<1024]"
    by (rule upt_conv_Cons) simp
  have frame: "first_frame (vm_frames demo_vm) = Some 2"
    by (simp add: demo_vm_def first_frame_def first_frame_from.simps first_bit_from.simps INDEX_FROM_BIT_def)
  have e0: "\<exists>vm1. clone_entry 0x3000 0x5000 0 vm = Inr vm1 \<and> vm_table vm1 0x3000 = vm_table vm 0x3000
      \<and> vm_dir vm1 = vm_dir vm \<and> kernel_directory vm1 = kernel_directory vm"
    if "vm_frames vm = vm_frames demo_vm" "pg_frame (vm_table vm 0x5000 0) = 0" for vm
    using that frame
    by (auto simp: clone_entry_def vm_alloc_frame_def alloc_frame_def set_page_def set_table_def
        copy_page_physical_def Let_def)
  have ct: "\<exists>ph vm1. clone_table 0x3000 vm = Inr ((0x5000, ph), vm1) \<and> vm_dir vm1 = vm_dir vm
      \<and> kernel_directory vm1 = kernel_directory vm"
    if v: "vm_frames vm = vm_frames demo_vm" "vm_fresh vm = [(0x5000, 0x50000)]"
      "vm_table vm = vm_table demo_vm" for vm
  proof -
    let ?vm = "set_table 0x5000 (\<lambda>_. page_zero) (vm\<lparr>vm_fresh := []\<rparr>)"
    obtain vm1 where vm1: "clone_entry 0x3000 0x5000 0 ?vm = Inr vm1" "vm_table vm1 0x3000 = vm_table ?vm 0x3000"
      "vm_dir vm1 = vm_dir ?vm" "kernel_directory vm1 = kernel_directory ?vm"
      using e0 [of ?vm] v by (auto simp: set_table_def page_zero_def)
    have "clone_entry 0x3000 0x5000 i vm1 = Inr vm1" if "i \<in> set [Suc 0..<1024]" for i
      using that vm1(2) v by (simp add: clone_entry_def set_table_def demo_vm_def page_zero_def)
    then have "fold_result (clone_entry 0x3000 0x5000) [Suc 0..<1024] vm1 = Inr vm1"
      by (rule fold_result_noop)
    then have "fold_result (clone_entry 0x3000 0x5000) [0..<1024] ?vm = Inr vm1"
      unfolding split using vm1(1) by simp
    then show ?thesis
      using v vm1 by (simp add: clone_table_def vm_kmalloc_ap_def set_table_def)
  qed
  let ?vm = "demo_vm\<lparr>vm_fresh := [(0x5000, 0x50000)], vm_dir := (vm_dir demo_vm)(0x4000 := blank_directory 0x40000)\<rparr>"
  obtain ph vm1 where c: "clone_table 0x3000 ?vm = Inr ((0x5000, ph), vm1)" "vm_dir vm1 = vm_dir ?vm"
    "kernel_directory vm1 = kernel_directory ?vm"
    using ct [of ?vm] by auto
  let ?vm2 = "set_dir_entry 0x4000 0 0x5000 (ph OR 0x07) vm1"
  have "clone_dir_entry 0x2000 0x4000 0 ?vm = Inr ?vm2"
    using c by (simp add: clone_dir_entry_def Let_def demo_vm_def)
  moreover have "clone_dir_entry 0x2000 0x4000 i ?vm2 = Inr ?vm2" if "i \<in> set [Suc 0..<1024]" for i
    using that c(2) by (simp add: clone_dir_entry_def Let_def demo_vm_def)
  then have "fold_result (clone_dir_entry 0x2000 0x4000) [Suc 0..<1024] ?vm2 = Inr ?vm2"
    by (rule fold_result_noop)
  ultimately have "fold_result (clone_dir_entry 0x2000 0x4000) [0..<1024] ?vm = Inr ?vm2"
    unfolding split by simp
  then show ?thesis
    by (simp add: clone_directory_def vm_kmalloc_ap_def demo_vm_def)
qed


subsection \<open>Translation\<close>

text \<open>The entry a directory has for a virtual address; a missing table maps nothing.\<close>

definition lookup_page :: "vmem \<Rightarrow> u32 \<Rightarrow> u32 \<Rightarrow> page" where
  "lookup_page vm d va =
    (let tbl = pd_tables (vm_dir vm d) (unat (va div cPageSize div 1024))
     in if tbl = 0 then page_zero else vm_table vm tbl (unat (va div cPageSize mod 1024)))"

text \<open>No two entries of the directory share a table, and fresh addresses are new to it.\<close>

definition dir_sep :: "vmem \<Rightarrow> u32 \<Rightarrow> bool" where
  "dir_sep vm d \<longleftrightarrow> (\<forall>i j. pd_tables (vm_dir vm d) i = pd_tables (vm_dir vm d) j
        \<and> pd_tables (vm_dir vm d) i \<noteq> 0 \<longrightarrow> i = j)
     \<and> (\<forall>i. pd_tables (vm_dir vm d) i \<notin> fresh_addrs vm) \<and> 0 \<notin> fresh_addrs vm"

lemma get_page_spec:
  assumes run: "get_page va True d vm = Inr (r, vm')" and sep: "dir_sep vm d"
  shows "\<exists>t. r = Some (t, unat (va div cPageSize mod 1024)) \<and> t \<noteq> 0
    \<and> pd_tables (vm_dir vm' d) (unat (va div cPageSize div 1024)) = t
    \<and> (\<forall>i j. pd_tables (vm_dir vm' d) i = pd_tables (vm_dir vm' d) j
        \<and> pd_tables (vm_dir vm' d) i \<noteq> 0 \<longrightarrow> i = j)
    \<and> (\<forall>a. lookup_page vm' d a = lookup_page vm d a)
    \<and> vm_frames vm' = vm_frames vm \<and> kernel_directory vm' = kernel_directory vm
    \<and> current_directory vm' = current_directory vm"
proof (cases "pd_tables (vm_dir vm d) (unat (va div cPageSize div 1024)) = 0")
  case False
  then show ?thesis
    using run sep by (auto simp: get_page_def Let_def dir_sep_def)
next
  case True
  let ?i = "unat (va div cPageSize div 1024)"
  obtain t tmp fr where fr: "vm_fresh vm = (t, tmp) # fr"
    and r: "r = Some (t, unat (va div cPageSize mod 1024))"
    and vm': "vm' = set_dir_entry d ?i t (tmp OR 0x7) (set_table t (\<lambda>_. page_zero) (vm\<lparr>vm_fresh := fr\<rparr>))"
    using run True by (auto simp: get_page_def vm_kmalloc_ap_def result_simps Let_def split: list.splits)
  have t: "t \<noteq> 0" "\<And>i. pd_tables (vm_dir vm d) i \<noteq> t"
    using sep fr by (auto simp: dir_sep_def fresh_addrs_def)
  have tab: "pd_tables (vm_dir vm' d) = (pd_tables (vm_dir vm d))(?i := t)"
    "vm_table vm' = (vm_table vm)(t := (\<lambda>_. page_zero))"
    by (simp_all add: vm' set_table_def)
  have "lookup_page vm' d a = lookup_page vm d a" for a
    using t True by (auto simp: lookup_page_def Let_def tab)
  moreover have "i = j" if "pd_tables (vm_dir vm' d) i = pd_tables (vm_dir vm' d) j" "pd_tables (vm_dir vm' d) i \<noteq> 0" for i j
    using that t(2) [of i] t(2) [of j] sep by (auto simp: tab dir_sep_def split: if_splits)
  moreover have "vm_frames vm' = vm_frames vm" "kernel_directory vm' = kernel_directory vm"
    "current_directory vm' = current_directory vm"
    by (simp_all add: vm' set_table_def)
  moreover have "pd_tables (vm_dir vm' d) ?i = t"
    by (simp add: tab)
  ultimately show ?thesis
    using r t(1) by blast
qed

lemma page_index_inj:
  assumes "unat ((a::u32) div cPageSize div 1024) = unat (b div cPageSize div 1024)"
    "unat (a div cPageSize mod 1024) = unat (b div cPageSize mod 1024)"
  shows "a div cPageSize = b div cPageSize"
proof -
  have "unat (a div cPageSize) div 1024 = unat (b div cPageSize) div 1024"
    "unat (a div cPageSize) mod 1024 = unat (b div cPageSize) mod 1024"
    using assms by (simp_all add: unat_div_distrib unat_mod_distrib)
  then show ?thesis
    by (metis div_mult_mod_eq word_unat_eq_iff)
qed

text \<open>
  C20: \<^verbatim>\<open>allocate_user\<close> maps a page that is not mapped: in the current directory its
  address becomes present, accessible from user mode and backed by a frame that
  was not in use, and the entry of no other page of the directory changes.
\<close>

theorem allocate_user_maps:
  assumes run: "allocate_user va w vm = Inr (r, vm')" and sep: "dir_sep vm (current_directory vm)"
    and fit: "frames_fit (vm_frames vm)"
    and new: "pg_frame (lookup_page vm (current_directory vm) va) = 0"
  shows "pg_present (lookup_page vm' (current_directory vm) va)
    \<and> pg_user (lookup_page vm' (current_directory vm) va)
    \<and> pg_rw (lookup_page vm' (current_directory vm) va) = w
    \<and> \<not> used vm (unat (pg_frame (lookup_page vm' (current_directory vm) va)))
    \<and> used vm' (unat (pg_frame (lookup_page vm' (current_directory vm) va)))
    \<and> (\<forall>a. a div cPageSize \<noteq> va div cPageSize \<longrightarrow>
          lookup_page vm' (current_directory vm) a = lookup_page vm (current_directory vm) a)"
proof -
  let ?d = "current_directory vm" and ?i = "unat (va div cPageSize div 1024)" and ?j = "unat (va div cPageSize mod 1024)"
  obtain q vm1 where g: "get_page va True ?d vm = Inr (q, vm1)"
    using run by (auto simp: allocate_user_def get_current_page_def result_simps)
  from get_page_spec [OF g sep] obtain t where q: "q = Some (t, ?j)"
    and t: "t \<noteq> 0" "pd_tables (vm_dir vm1 ?d) ?i = t"
    and inj: "\<And>i j. pd_tables (vm_dir vm1 ?d) i = pd_tables (vm_dir vm1 ?d) j \<Longrightarrow> pd_tables (vm_dir vm1 ?d) i \<noteq> 0 \<Longrightarrow> i = j"
    and same: "\<And>a. lookup_page vm1 ?d a = lookup_page vm ?d a" "vm_frames vm1 = vm_frames vm"
    by blast
  obtain p fm where a: "alloc_frame (vm_table vm1 t ?j) False w (vm_frames vm) = Inr (p, fm)"
    and vm': "vm' = set_page t ?j p (vm1\<lparr>vm_frames := fm\<rparr>)"
    using run g q same(2)
    by (auto simp: allocate_user_def get_current_page_def vm_alloc_frame_def result_simps)
  have "vm_table vm1 t ?j = lookup_page vm ?d va"
    using same(1) [of va] t by (simp add: lookup_page_def Let_def)
  then have "pg_frame (vm_table vm1 t ?j) = 0"
    using new by simp
  note fresh = alloc_frame_fresh [OF a this fit]
  have p: "lookup_page vm' ?d va = p"
    using t by (simp add: lookup_page_def Let_def vm')
  have "lookup_page vm' ?d a = lookup_page vm1 ?d a" if "a div cPageSize \<noteq> va div cPageSize" for a
    using page_index_inj [of a va] that inj [of "unat (a div cPageSize div 1024)" ?i] t
    by (auto simp: lookup_page_def Let_def vm')
  then show ?thesis
    using fresh p same(1) by (auto simp: vm')
qed

lemma demo_sep: "dir_sep demo_vm (current_directory demo_vm)"
  by (auto simp: dir_sep_def demo_vm_def fresh_addrs_def)

theorem allocate_user_maps_witness:
  "\<exists>r vm'. allocate_user 0x7000 True demo_vm = Inr (r, vm') \<and> pg_present (lookup_page vm' 0x2000 0x7000)
     \<and> lookup_page vm' 0x2000 0 = lookup_page demo_vm 0x2000 0"
proof -
  have frame: "first_frame (vm_frames demo_vm) = Some 2" and fit: "frames_fit (vm_frames demo_vm)"
    by (simp_all add: demo_vm_def first_frame_def first_frame_from.simps first_bit_from.simps
        INDEX_FROM_BIT_def frames_fit_def)
  have cur: "current_directory demo_vm = 0x2000" "vm_table demo_vm 0x3000 7 = page_zero"
    "pd_tables (vm_dir demo_vm 0x2000) 0 = 0x3000"
    by (simp_all add: demo_vm_def)
  have new: "pg_frame (lookup_page demo_vm (current_directory demo_vm) 0x7000) = 0"
    by (simp add: cur lookup_page_def cPageSize_def page_zero_def)
  have "\<exists>r vm'. allocate_user 0x7000 True demo_vm = Inr (r, vm')"
    using frame cur by (simp add: allocate_user_def get_current_page_def get_page_def cPageSize_def
        vm_alloc_frame_def alloc_frame_def page_zero_def)
  then obtain r vm' where r: "allocate_user 0x7000 True demo_vm = Inr (r, vm')"
    by blast
  show ?thesis
    using allocate_user_maps [OF r demo_sep fit new] r by (auto simp: cur cPageSize_def)
qed

end
