(* ===== verification/Memory_Mapping.thy ===== *)
theory Memory_Mapping
  imports Address_Space Vfs
begin

text \<open>
  \<^verbatim>\<open>MemoryMapping\<close> of \<^verbatim>\<open>paging.hpp\<close> and the demand paging of \<^verbatim>\<open>paging.cpp\<close>: the page fault
  handler and \<^verbatim>\<open>MemoryMapping::fulfill\<close>.  The file behind a mapping is an
  \<^verbatim>\<open>fs::Node\<close>, whose virtual method \<^verbatim>\<open>read(offset, size, buffer)\<close> is the argument
  \<open>node_read\<close>; the memory of the current address space is \<open>m\<close>.
\<close>

subsection \<open>Definitions\<close>

record 'n memory_mapping =
  mm_page_start :: u32
  mm_page_end :: u32
  mm_address :: u32
  mm_mem_size :: u32
  mm_node :: "'n option"
  mm_offset :: u32
  mm_file_size :: u32
  mm_flags :: u32

definition eReadable :: u32 where "eReadable = 1"
definition eWritable :: u32 where "eWritable = 2"
definition eExecutable :: u32 where "eExecutable = 4"
definition eAll :: u32 where "eAll = 7"

definition memory_mapping_new ::
    "u32 \<Rightarrow> u32 \<Rightarrow> 'n option \<Rightarrow> u32 \<Rightarrow> u32 \<Rightarrow> u32 \<Rightarrow> 'n memory_mapping" where
  "memory_mapping_new address mem_size node offset sz flags =
    \<lparr>mm_page_start = address AND cPageMask, mm_page_end = align (address + mem_size) cPageSize,
     mm_address = address, mm_mem_size = mem_size, mm_node = node, mm_offset = offset,
     mm_file_size = sz, mm_flags = flags\<rparr>"

definition mm_end_address :: "'n memory_mapping \<Rightarrow> u32" where
  "mm_end_address mm = mm_address mm + mm_mem_size mm"

definition enlarge_mem_size :: "u32 \<Rightarrow> 'n memory_mapping \<Rightarrow> 'n memory_mapping" where
  "enlarge_mem_size ammount mm =
    (let mm = mm\<lparr>mm_mem_size := mm_mem_size mm + ammount\<rparr>
     in mm\<lparr>mm_page_end := align (mm_address mm + mm_mem_size mm) cPageSize\<rparr>)"

definition contains_p :: "u32 \<Rightarrow> 'n memory_mapping \<Rightarrow> bool" where
  "contains_p addr mm \<longleftrightarrow> addr \<ge> mm_page_start mm \<and> addr < mm_page_end mm"

definition readable_p :: "'n memory_mapping \<Rightarrow> bool" where
  "readable_p mm \<longleftrightarrow> mm_flags mm AND eReadable = eReadable"

definition writable_p :: "'n memory_mapping \<Rightarrow> bool" where
  "writable_p mm \<longleftrightarrow> mm_flags mm AND eWritable = eWritable"

definition fulfill :: "'n node_read \<Rightarrow> 'n memory_mapping \<Rightarrow> u32 \<Rightarrow> vmem \<times> mem \<Rightarrow> (vmem \<times> mem) result" where
  "fulfill node_read mm request = (\<lambda>(vm, m).
    let page_address = request AND cPageMask in
    if page_address < mm_address mm
    then bind_result (allocate_user page_address (writable_p mm) vm) (\<lambda>(_, vm).
      let m = memset page_address 0 (unat (mm_address mm - page_address)) m;
          target_offset = mm_offset mm;
          target_size = (page_address + cPageSize) - mm_address mm;
          read_size = algo_min target_size (mm_file_size mm)
      in case mm_node mm of
           None \<Rightarrow> Inl NullDeref
         | Some node \<Rightarrow>
             bind_result (node_read node target_offset read_size (mm_address mm) m) (\<lambda>(_, m).
               Inr (vm, if read_size < target_size
                        then memset (mm_address mm + read_size) 0 (unat (target_size - read_size)) m else m)))
    else
      let request_offset = page_address - mm_address mm;
          target_offset = mm_offset mm + request_offset;
          target_size = (if request_offset > mm_file_size mm then 0
                         else let t = mm_file_size mm - request_offset
                              in if t > cPageSize then cPageSize else t);
          zero_fill_size = cPageSize - target_size
      in bind_result (allocate_user page_address (writable_p mm) vm) (\<lambda>(_, vm).
           bind_result
             (if target_size > 0
              then case mm_node mm of
                     None \<Rightarrow> Inl NullDeref
                   | Some node \<Rightarrow>
                         bind_result (node_read node target_offset target_size page_address m) (\<lambda>(_, m). Inr m)
              else Inr m) (\<lambda>m.
           Inr (vm, if zero_fill_size > 0
                    then memset (page_address + target_size) 0 (unat zero_fill_size) m else m))))"

text \<open>\<^verbatim>\<open>PageFaultCode\<close> of \<^verbatim>\<open>isr.hpp\<close>, and the handler; the diagnostics it prints before
  \<^verbatim>\<open>PANIC\<close> are not modelled.\<close>

definition pf_present_p :: "u32 \<Rightarrow> bool" where "pf_present_p code \<longleftrightarrow> code AND 0x1 \<noteq> 0"
definition pf_write_p :: "u32 \<Rightarrow> bool" where "pf_write_p code \<longleftrightarrow> code AND 0x2 \<noteq> 0"
definition pf_user_p :: "u32 \<Rightarrow> bool" where "pf_user_p code \<longleftrightarrow> code AND 0x4 \<noteq> 0"
definition pf_reserved_p :: "u32 \<Rightarrow> bool" where "pf_reserved_p code \<longleftrightarrow> code AND 0x8 \<noteq> 0"

definition find_mapping :: "u32 \<Rightarrow> 'n memory_mapping list \<Rightarrow> 'n memory_mapping option" where
  "find_mapping addr mmaps = find (contains_p addr) mmaps"

definition page_fault_handle ::
    "'n node_read \<Rightarrow> 'n memory_mapping list \<Rightarrow> u32 \<Rightarrow> u32 \<Rightarrow> vmem \<times> mem \<Rightarrow> (vmem \<times> mem) result" where
  "page_fault_handle node_read mmaps code faulting_address = (\<lambda>(vm, m).
    let mmap = find_mapping faulting_address mmaps;
        present = pf_present_p code;
        rw = pf_write_p code;
        us = pf_user_p code
    in if \<not> present \<and> \<not> us \<and> faulting_address > KERNEL_VIRTUAL_BASE
       then let page_address = faulting_address AND cPageMask in
         bind_result (get_current_page page_address True vm) (\<lambda>(p, vm).
           case p of None \<Rightarrow> Inl NullDeref
           | Some (t, i) \<Rightarrow>
               bind_result (vm_alloc_frame t i True True vm) (\<lambda>vm. Inr (vm, m)))
       else case mmap of
              Some mm \<Rightarrow> if \<not> rw \<or> writable_p mm then fulfill node_read mm faulting_address (vm, m)
                         else Inl Panicked
            | None \<Rightarrow> Inl Panicked)"

subsection \<open>Contents of a faulted page\<close>

lemma memset_adr:
  assumes "a + n \<le> 2 ^ 32" "x < 2 ^ 32"
  shows "memset (adr a) v n m (adr x) = (if a \<le> x \<and> x < a + n then v else m (adr x))"
proof (cases "n = 0")
  case False
  then have u: "unat (adr x - adr a) = (if a \<le> x then x - a else 2 ^ 32 + x - a)"
    using assms by (intro unat_addr_sub) auto
  show ?thesis
  proof (cases "unat (adr x - adr a) < n")
    case True
    then show ?thesis
      using assms u memset_sets [of "adr x" "adr a" n v m] by (auto split: if_splits)
  next
    case False
    then show ?thesis
      using assms u memset_other [of "adr x" "adr a" n v m] by (auto split: if_splits)
  qed
qed (use memset_other [of "adr x" "adr a" 0 v m] in auto)

text \<open>What the byte at address \<open>x\<close> of a mapped page has to be: file data, or zero.\<close>

definition mapped_byte :: "(nat \<Rightarrow> u8) \<Rightarrow> 'n memory_mapping \<Rightarrow> nat \<Rightarrow> u8" where
  "mapped_byte content mm x =
    (if unat (mm_address mm) \<le> x \<and> x - unat (mm_address mm) < unat (mm_file_size mm)
     then content (unat (mm_offset mm) + (x - unat (mm_address mm))) else 0)"

definition page_of :: "u32 \<Rightarrow> nat" where
  "page_of a = unat a div 4096 * 4096"

lemma page_mask: "a AND cPageMask = adr (page_of a)" "page_of a < 2 ^ 32" "page_of a + 4096 \<le> 2 ^ 32"
proof -
  have "NOT (mask 12) = cPageMask"
    by (simp add: cPageMask_def mask_eq_exp_minus_1)
  then have "unat (a AND cPageMask) = page_of a"
    using and_not_mask_unat [of a 12] by (simp add: page_of_def)
  then show "a AND cPageMask = adr (page_of a)"
    by (metis addr_unat)
  have "unat a div 4096 < 2 ^ 20"
    using unat_u32_lt [of a] by (simp add: less_mult_imp_div_less)
  then show "page_of a < 2 ^ 32" "page_of a + 4096 \<le> 2 ^ 32"
    by (simp_all add: page_of_def)
qed

lemma apart_part:
  assumes "\<And>y. y \<in> S \<Longrightarrow> \<not> in_block (adr P) 4096 y" "y \<in> S" "P \<le> A" "A + R \<le> P + 4096" "P + 4096 \<le> 2 ^ 32"
  shows "\<not> in_block (adr A) R y"
proof
  assume b: "in_block (adr A) R y"
  then have "0 < R" by (auto simp: in_block_def)
  then have A: "A < 2 ^ 32" "P < 2 ^ 32" using assms(4,5) by auto
  have "unat (y - adr A) = (if A \<le> unat y then unat y - A else 2 ^ 32 + unat y - A)"
    "unat (y - adr P) = (if P \<le> unat y then unat y - P else 2 ^ 32 + unat y - P)"
    using unat_addr_sub [OF unat_u32_lt A(1), of y] unat_addr_sub [OF unat_u32_lt A(2), of y] by simp_all
  then have "in_block (adr P) 4096 y"
    using b assms(3-5) A unat_u32_lt [of y] by (auto simp: in_block_def split: if_splits)
  then show False using assms(1,2) by blast
qed

context file_node
begin

lemma fulfill_first_page:
  assumes run: "allocate_user (adr P) (writable_p mm) vm = Inr (pg, vm')"
    and P: "P = page_of request" and A: "A = unat (mm_address mm)" and F: "F = unat (mm_file_size mm)"
    and inpage: "P < A" "A < P + 4096" and node: "mm_node mm = Some n"
    and len: "unat (mm_offset mm) + F \<le> file_len n m" "unat (mm_offset mm) + F < 2 ^ 32"
    and apart: "\<And>y. y \<in> storage n m \<Longrightarrow> \<not> in_block (adr P) 4096 y"
  shows "\<exists>m'. fulfill node_read mm request (vm, m) = Inr (vm', m') \<and> (\<forall>x < 2 ^ 32.
    m' (adr x) = (if P \<le> x \<and> x < P + 4096 then mapped_byte (content n m) mm x else m (adr x)))"
proof -
  define T R where "T = P + 4096 - A" and "R = min T F"
  have bound: "P + 4096 \<le> 2 ^ 32" "request AND cPageMask = adr P"
    using page_mask [of request] P by simp_all
  have ad: "mm_address mm = adr A" "mm_file_size mm = adr F" "mm_offset mm = adr (unat (mm_offset mm))"
    by (simp_all add: A F)
  have lt: "A < 2 ^ 32" "F < 2 ^ 32" "T < 2 ^ 32" "R \<le> T" "A + T = P + 4096"
    using inpage bound len by (auto simp: A T_def R_def unat_u32_lt)
  have small: "adr P < adr A" "unat (adr A - adr P) = A - P" "adr P + cPageSize - adr A = adr T"
    "algo_min (adr T) (adr F) = adr R" "adr R < adr T \<longleftrightarrow> R < T" "unat (adr T - adr R) = T - R"
    using inpage bound lt
    by (auto simp: addr_simps cPageSize_def T_def algo_min_def R_def min_def)
  define m1 where "m1 = memset (adr P) 0 (A - P) m"
  have m1x: "m1 (adr y) = (if P \<le> y \<and> y < A then 0 else m (adr y))" if "y < 2 ^ 32" for y
    using that bound inpage by (simp add: m1_def memset_adr)
  have "m1 y = m y" if "y \<in> storage n m" for y
    using apart [OF that] inpage memset_other [of y "adr P" "A - P" 0 m] by (simp add: m1_def in_block_def)
  then have same: "content n m1 = content n m" "file_len n m1 = file_len n m" "storage n m1 = storage n m"
    using storage_law by blast+
  obtain m2 where m2: "node_read n (mm_offset mm) (adr R) (adr A) m1 = Inr (adr R, m2)"
    "\<And>y. y < 2 ^ 32 \<Longrightarrow> m2 (adr y) = (if A \<le> y \<and> y < A + R then content n m (unat (mm_offset mm) + (y - A)) else m1 (adr y))"
  proof -
    have "\<not> in_block (adr A) R y" if "y \<in> storage n m1" for y
      using apart_part [of "storage n m" P y A R] apart that same(3) inpage lt bound by simp
    moreover have "unat (mm_offset mm) + R \<le> file_len n m1" "unat (mm_offset mm) + R < 2 ^ 32" "A + R \<le> 2 ^ 32"
      using len lt bound(1) by (auto simp: R_def same(2))
    ultimately obtain m2 where "node_read n (adr (unat (mm_offset mm))) (adr R) (adr A) m1 = Inr (adr R, m2)"
      "\<forall>x < 2 ^ 32. m2 (adr x) = (if A \<le> x \<and> x < A + R then content n m1 (unat (mm_offset mm) + (x - A)) else m1 (adr x))"
      using read_law [of "unat (mm_offset mm)" R n m1 A] by blast
    then show ?thesis
      by (intro that [of m2]) (simp_all add: same(1))
  qed
  define m' where "m' = (if R < T then memset (adr (A + R)) 0 (T - R) m2 else m2)"
  have "fulfill node_read mm request (vm, m) = Inr (vm', m')"
    unfolding fulfill_def Let_def prod.case bound(2) ad(1,2)
    by (simp add: run node small m1_def [symmetric] m2(1) addr_plus m'_def)
  moreover have "m' (adr x) = (if P \<le> x \<and> x < P + 4096 then mapped_byte (content n m) mm x else m (adr x))"
    if "x < 2 ^ 32" for x
    using that bound inpage m1x [OF that] m2(2) [OF that] lt
    by (auto simp: m'_def memset_adr mapped_byte_def A [symmetric] F [symmetric] R_def min_def)
  ultimately show ?thesis by blast
qed

lemma fulfill_later_page:
  assumes run: "allocate_user (adr P) (writable_p mm) vm = Inr (pg, vm')"
    and P: "P = page_of request" and A: "A = unat (mm_address mm)" and F: "F = unat (mm_file_size mm)"
    and inpage: "A \<le> P" and node: "mm_node mm = Some n"
    and len: "unat (mm_offset mm) + F \<le> file_len n m" "unat (mm_offset mm) + F < 2 ^ 32"
    and apart: "\<And>y. y \<in> storage n m \<Longrightarrow> \<not> in_block (adr P) 4096 y"
  shows "\<exists>m'. fulfill node_read mm request (vm, m) = Inr (vm', m') \<and> (\<forall>x < 2 ^ 32.
    m' (adr x) = (if P \<le> x \<and> x < P + 4096 then mapped_byte (content n m) mm x else m (adr x)))"
proof -
  define off T where "off = P - A" and "T = (if off > F then 0 else min (F - off) 4096)"
  have bound: "P + 4096 \<le> 2 ^ 32" "request AND cPageMask = adr P"
    using page_mask [of request] P by simp_all
  have ad: "mm_address mm = adr A" "mm_file_size mm = adr F" "mm_offset mm = adr (unat (mm_offset mm))"
    by (simp_all add: A F)
  have lt: "F < 2 ^ 32" "off < 2 ^ 32" "T \<le> 4096"
    using inpage bound len by (auto simp: off_def T_def)
  have small: "\<not> adr P < adr A" "adr P - adr A = adr off" "adr F < adr off \<longleftrightarrow> F < off"
    "(if F < off then 0 else if cPageSize < adr F - adr off then cPageSize else adr F - adr off) = adr T"
    "cPageSize - adr T = adr (4096 - T)" "0 < adr T \<longleftrightarrow> 0 < T" "0 < adr (4096 - T) \<longleftrightarrow> T < 4096"
    "unat (adr (4096 - T)) = 4096 - T"
  proof -
    have c: "cPageSize = adr 4096" "0 = adr 0"
      by (simp_all add: cPageSize_def adr_def)
    show "\<not> adr P < adr A" "adr P - adr A = adr off" "adr F < adr off \<longleftrightarrow> F < off"
      "(if F < off then 0 else if cPageSize < adr F - adr off then cPageSize else adr F - adr off) = adr T"
      "cPageSize - adr T = adr (4096 - T)" "0 < adr T \<longleftrightarrow> 0 < T" "0 < adr (4096 - T) \<longleftrightarrow> T < 4096"
      "unat (adr (4096 - T)) = 4096 - T"
      using inpage bound lt unfolding c by (auto simp: addr_minus(2) addr_less off_def T_def min_def)
  qed
  have o: "mm_offset mm + adr off = adr (unat (mm_offset mm) + off)"
    by (subst ad(3)) (simp only: addr_plus)
  obtain m2 where m2: "if 0 < T then node_read n (mm_offset mm + adr off) (adr T) (adr P) m = Inr (adr T, m2) else m2 = m"
    "\<And>y. y < 2 ^ 32 \<Longrightarrow> m2 (adr y) = (if P \<le> y \<and> y < P + T then content n m (unat (mm_offset mm) + off + (y - P)) else m (adr y))"
  proof (cases "0 < T")
    case True
    have "\<not> in_block (adr P) T y" if "y \<in> storage n m" for y
      using apart [OF that] lt(3) by (simp add: in_block_def)
    moreover have "unat (mm_offset mm) + off + T \<le> file_len n m" "unat (mm_offset mm) + off + T < 2 ^ 32" "P + T \<le> 2 ^ 32"
      using len lt bound(1) True by (auto simp: T_def split: if_splits)
    ultimately obtain m2 where "node_read n (adr (unat (mm_offset mm) + off)) (adr T) (adr P) m = Inr (adr T, m2)"
      "\<forall>x < 2 ^ 32. m2 (adr x) = (if P \<le> x \<and> x < P + T then content n m (unat (mm_offset mm) + off + (x - P)) else m (adr x))"
      using read_law [of "unat (mm_offset mm) + off" T n m P] by blast
    then show ?thesis
      using True by (intro that [of m2]) (simp_all add: o)
  next
    case False
    then show ?thesis by (intro that [of m]) auto
  qed
  define m' where "m' = (if T < 4096 then memset (adr (P + T)) 0 (4096 - T) m2 else m2)"
  have "fulfill node_read mm request (vm, m) = Inr (vm', m')"
    using m2(1) unfolding fulfill_def Let_def prod.case bound(2) ad(1,2) small(2) small(3) small(4) small(5)
    by (auto simp: run node small(1,6,7,8) addr_plus m'_def)
  moreover have "m' (adr x) = (if P \<le> x \<and> x < P + 4096 then mapped_byte (content n m) mm x else m (adr x))"
    if x: "x < 2 ^ 32" for x
  proof -
    have "mapped_byte (content n m) mm x = (if x < P + T then content n m (unat (mm_offset mm) + off + (x - P)) else 0)"
      if "P \<le> x" "x < P + 4096"
    proof -
      have "x - A = off + (x - P)" "A \<le> x"
        using that inpage by (auto simp: off_def)
      moreover have "off + (x - P) < F \<longleftrightarrow> x < P + T"
        using that by (auto simp: T_def)
      ultimately show ?thesis
        by (simp add: mapped_byte_def A [symmetric] F [symmetric] add.assoc)
    qed
    moreover have "m' (adr x) = (if P + T \<le> x \<and> x < P + 4096 then 0 else m2 (adr x))"
      using x bound lt by (auto simp: m'_def memset_adr)
    ultimately show ?thesis
      using m2(2) [OF x] lt(3) by auto
  qed
  ultimately show ?thesis by blast
qed

end

text \<open>
  C10: Demand paging of a file-backed mapping: once the page has a frame,
  \<^verbatim>\<open>MemoryMapping::fulfill\<close> returns, each byte of the faulting page then holds the byte of
  the file that belongs there, or zero beyond the end of the file data and before
  the start of the mapping, and no memory outside the page has changed.
\<close>

theorem fulfill_contents:
  assumes node: "file_node node_read content file_len storage" and mm: "mm_node mm = Some n"
    and run: "allocate_user (request AND cPageMask) (writable_p mm) vm = Inr (pg, vm')"
    and request: "unat (mm_address mm) < page_of request + 4096"
    and len: "unat (mm_offset mm) + unat (mm_file_size mm) \<le> file_len n m"
      "unat (mm_offset mm) + unat (mm_file_size mm) < 2 ^ 32"
    and apart: "\<And>y. y \<in> storage n m \<Longrightarrow> \<not> in_block (adr (page_of request)) 4096 y"
  shows "\<exists>m'. fulfill node_read mm request (vm, m) = Inr (vm', m') \<and> (\<forall>x < 2 ^ 32. m' (adr x) =
    (if page_of request \<le> x \<and> x < page_of request + 4096 then mapped_byte (content n m) mm x else m (adr x)))"
proof (cases "page_of request < unat (mm_address mm)")
  case True
  then show ?thesis
    using file_node.fulfill_first_page [OF node run [unfolded page_mask(1)] refl refl refl _ request mm len apart]
    by simp
next
  case False
  then show ?thesis
    using file_node.fulfill_later_page [OF node run [unfolded page_mask(1)] refl refl refl _ mm len apart] by simp
qed

end
