(* ===== verification/Initrd.thy ===== *)
theory Initrd
  imports Memory_Mapping
begin

text \<open>
  The initial ramdisk, \<^verbatim>\<open>fs/initrd.cpp\<close>, and the tool that writes its image,
  \<^verbatim>\<open>make_initrd.c\<close>.  The image is in memory, its headers are read there; the nodes
  that \<^verbatim>\<open>FS::init\<close> allocates are named by their role.
\<close>

subsection \<open>Copying names\<close>

text \<open>
  \<^verbatim>\<open>strcpy\<close> between separate buffers: the copied characters are those before the first
  terminator behind the first character, and the terminator is not copied.
\<close>

partial_function (option) strcpy_len :: "cstr \<Rightarrow> nat \<Rightarrow> nat option" where
  "strcpy_len src i = (if src (Suc i) \<noteq> 0 then strcpy_len src (Suc i) else Some (Suc i))"

definition name_copy :: "cstr \<Rightarrow> cstr \<Rightarrow> cstr result" where
  "name_copy src dest =
    (case strcpy_len src 0 of
       None \<Rightarrow> Inl Diverges
     | Some n \<Rightarrow> if n \<le> 128 then Inr (\<lambda>i. if i < n then src i else dest i) else Inl OutOfBounds)"

definition str_lit :: "string \<Rightarrow> cstr" where
  "str_lit s i = (if i < length s then of_char (s ! i) else 0)"


subsection \<open>The mounted ramdisk\<close>

text \<open>\<^verbatim>\<open>FileHeader\<close>: a byte, the name, three bytes of padding, the offset and the length.\<close>

definition FILE_HEADER_SIZE :: nat where "FILE_HEADER_SIZE = 76"

definition fh_name :: "mem \<Rightarrow> u32 \<Rightarrow> cstr" where
  "fh_name m a i = m (a + 1 + adr i)"

definition fh_offset :: "mem \<Rightarrow> u32 \<Rightarrow> u32" where
  "fh_offset m a = load_u32 m (a + 68)"

definition fh_length :: "mem \<Rightarrow> u32 \<Rightarrow> u32" where
  "fh_length m a = load_u32 m (a + 72)"

datatype initrd_id = InitrdRoot | InitrdDev | InitrdData | InitrdTmp | InitrdFile nat

record initrd_fs =
  file_headers :: u32
  initrd_node :: "initrd_id \<Rightarrow> initrd_id fs_node"
  nroot_nodes :: u32

definition file_header :: "initrd_fs \<Rightarrow> initrd_id \<Rightarrow> u32" where
  "file_header fs nid = file_headers fs + nd_inode (initrd_node fs nid) * 76"

definition initrd_read :: "initrd_fs \<Rightarrow> initrd_id node_read" where
  "initrd_read fs nid offset sz0 buffer m =
    (let header = file_header fs nid
     in if offset > fh_length m header then Inr (0, m)
        else let sz = (if offset + sz0 > fh_length m header then fh_length m header - offset else sz0)
             in Inr (sz, memcpy buffer (fh_offset m header + offset) (unat sz) m))"

text \<open>\<^verbatim>\<open>readdir\<close> fills the global \<^verbatim>\<open>dirent\<close>, whose name buffer held \<open>old\<close>: name and inode.\<close>

definition initrd_readdir :: "initrd_fs \<Rightarrow> initrd_id \<Rightarrow> u32 \<Rightarrow> cstr \<Rightarrow> (cstr \<times> u32) option result" where
  "initrd_readdir fs nid idx old =
    (if nid = InitrdRoot \<and> idx = 0
     then bind_result (name_copy (str_lit ''dev'') old) (\<lambda>name. Inr (Some (name(3 := 0), 0)))
     else if idx - 1 \<ge> nroot_nodes fs then Inr None
     else let node = initrd_node fs (InitrdFile (unat (idx - 1)))
          in bind_result (name_copy (nd_name node) old) (\<lambda>name.
               case strlen (nd_name node) of
                 None \<Rightarrow> Inl Diverges
               | Some n \<Rightarrow> Inr (Some (name(n := 0), nd_inode node))))"

fun find_root_node :: "initrd_fs \<Rightarrow> cstr \<Rightarrow> nat \<Rightarrow> nat list \<Rightarrow> initrd_id option" where
  "find_root_node fs name len [] = None"
| "find_root_node fs name len (i # is) =
    (if strncmp name (nd_name (initrd_node fs (InitrdFile i))) len = 0 then Some (InitrdFile i)
     else find_root_node fs name len is)"

definition initrd_finddir :: "initrd_fs \<Rightarrow> initrd_id \<Rightarrow> cstr \<Rightarrow> int \<Rightarrow> initrd_id option" where
  "initrd_finddir fs nid name len =
    (if nid = InitrdRoot \<and> len = 3 \<and> strncmp name (str_lit ''dev'') (nat len) = 0 then Some InitrdDev
     else if nid = InitrdRoot \<and> len = 4 \<and> strncmp name (str_lit ''data'') (nat len) = 0 then Some InitrdData
     else if nid = InitrdRoot \<and> len = 3 \<and> strncmp name (str_lit ''tmp'') (nat len) = 0 then Some InitrdTmp
     else find_root_node fs name (nat len) [0..<unat (nroot_nodes fs)])"

definition initrd_directory :: "string \<Rightarrow> cstr \<Rightarrow> initrd_id fs_node result" where
  "initrd_directory s junk =
    bind_result (name_copy (str_lit s) (nd_name (fs_node_new junk :: initrd_id fs_node))) (\<lambda>name.
      Inr ((fs_node_new junk)\<lparr>nd_name := name, nd_flags := FS_DIRECTORY\<rparr>))"

definition initrd_init_file :: "u32 \<Rightarrow> cstr \<Rightarrow> nat \<Rightarrow> initrd_fs \<times> mem \<Rightarrow> (initrd_fs \<times> mem) result" where
  "initrd_init_file location junk i = (\<lambda>(fs, m).
    let header = file_headers fs + adr (FILE_HEADER_SIZE * i);
        m = store_u32 m (header + 68) (fh_offset m header + location);
        node = fs_node_new junk
    in bind_result (name_copy (fh_name m header) (nd_name node)) (\<lambda>name.
         let node = node\<lparr>nd_name := name, nd_mask := 0, nd_uid := 0, nd_gid := 0,
               nd_length := fh_length m header, nd_inode := adr i, nd_flags := FS_FILE\<rparr>
         in Inr (fs\<lparr>initrd_node := (initrd_node fs)(InitrdFile i := node)\<rparr>, m)))"

definition initrd_init :: "u32 \<Rightarrow> cstr \<Rightarrow> initrd_fs \<Rightarrow> mem \<Rightarrow> (initrd_fs \<times> mem) result" where
  "initrd_init location junk fs m =
    bind_result (initrd_directory ''initrd'' junk) (\<lambda>root.
    bind_result (initrd_directory ''dev'' junk) (\<lambda>dev.
    bind_result (initrd_directory ''data'' junk) (\<lambda>data.
    bind_result (initrd_directory ''tmp'' junk) (\<lambda>tmp.
      let nfiles = load_u32 m location;
          fs = fs\<lparr>file_headers := location + 4, nroot_nodes := nfiles,
                  initrd_node := (initrd_node fs)(InitrdRoot := root, InitrdDev := dev,
                    InitrdData := data, InitrdTmp := tmp)\<rparr>
      in fold_result (initrd_init_file location junk) [0..<unat nfiles] (fs, m)))))"


subsection \<open>Writing the image\<close>

text \<open>
  \<open>hs\<close> is the memory of the array \<^verbatim>\<open>headers\<close> on the stack of the tool, from 0 on.  A file is
  given by its name in the ramdisk and its bytes.  \<^verbatim>\<open>argc\<close> is declared \<^verbatim>\<open>char\<close>.
\<close>

fun write_bytes :: "u32 \<Rightarrow> u8 list \<Rightarrow> mem \<Rightarrow> mem" where
  "write_bytes a [] m = m"
| "write_bytes a (b # bs) m = write_bytes (a + 1) bs (m(a := b))"

definition write_header :: "nat \<Rightarrow> u8 list \<Rightarrow> u32 \<Rightarrow> u32 \<Rightarrow> mem \<Rightarrow> mem" where
  "write_header i name off len hs =
    (let a = adr (FILE_HEADER_SIZE * i);
         hs = write_bytes (a + 1) (name @ [0]) hs;
         hs = store_u32 hs (a + 68) off;
         hs = store_u32 hs (a + 72) len
     in hs(a := 0xBF))"

fun write_headers :: "nat \<Rightarrow> (u8 list \<times> u8 list) list \<Rightarrow> u32 \<Rightarrow> mem \<Rightarrow> mem result" where
  "write_headers i [] off hs = Inr hs"
| "write_headers i ((name, data) # rest) off hs =
    (if i < 64 \<and> length name < 64
     then write_headers (Suc i) rest (off + adr (length data))
            (write_header i name off (adr (length data)) hs)
     else Inl OutOfBounds)"

definition u32_bytes :: "u32 \<Rightarrow> u8 list" where
  "u32_bytes v = map (\<lambda>k. ucast (drop_bit (8 * k) v)) [0..<4]"

definition make_initrd :: "mem \<Rightarrow> (u8 list \<times> u8 list) list \<Rightarrow> u8 list result" where
  "make_initrd junk files =
    (let argc = word_of_nat (1 + 2 * length files) :: u8;
         nheaders = (sint argc - 1) div 2;
         files = take (nat nheaders) files
     in bind_result (write_headers 0 files (adr (FILE_HEADER_SIZE * 64 + 4)) junk) (\<lambda>hs.
          Inr (u32_bytes (word_of_int nheaders) @ map (\<lambda>k. hs (adr k)) [0..<FILE_HEADER_SIZE * 64]
               @ concat (map snd files))))"

text \<open>The boot loader puts the image into memory.\<close>

definition load_image :: "nat \<Rightarrow> u8 list \<Rightarrow> mem \<Rightarrow> mem" where
  "load_image loc img m =
    (\<lambda>x. if loc \<le> unat x \<and> unat x - loc < length img then img ! (unat x - loc) else m x)"


subsection \<open>The ramdisk as a provider of file nodes\<close>

definition initrd_node_read :: "(initrd_fs \<times> initrd_id) node_read" where
  "initrd_node_read n = initrd_read (fst n) (snd n)"

definition initrd_len :: "initrd_fs \<times> initrd_id \<Rightarrow> mem \<Rightarrow> nat" where
  "initrd_len n m = unat (fh_length m (file_header (fst n) (snd n)))"

definition initrd_content :: "initrd_fs \<times> initrd_id \<Rightarrow> mem \<Rightarrow> nat \<Rightarrow> u8" where
  "initrd_content n m i =
    (if i < initrd_len n m then m (fh_offset m (file_header (fst n) (snd n)) + adr i) else 0)"

definition initrd_storage :: "initrd_fs \<times> initrd_id \<Rightarrow> mem \<Rightarrow> u32 set" where
  "initrd_storage n m =
    {y. in_block (file_header (fst n) (snd n)) FILE_HEADER_SIZE y
      \<or> in_block (fh_offset m (file_header (fst n) (snd n))) (initrd_len n m) y}"

lemma load_u32_cong: "(\<And>y. in_block a 4 y \<Longrightarrow> m' y = m y) \<Longrightarrow> load_u32 m' a = load_u32 m a"
  by (simp add: load_u32_def in_block_def)

lemma in_block_sub:
  assumes "in_block (a + adr k) n y" "k + n \<le> l" "l < 2 ^ 32"
  shows "in_block a l y"
proof -
  have "y - a = adr k + (y - (a + adr k))"
    by (simp add: algebra_simps)
  also have "\<dots> = adr (k + unat (y - (a + adr k)))"
    by (simp add: addr_plus(2) [symmetric])
  finally show ?thesis
    using assms by (simp add: in_block_def)
qed

lemma fh_same:
  assumes "\<And>y. in_block h FILE_HEADER_SIZE y \<Longrightarrow> m' y = m y"
  shows "fh_offset m' h = fh_offset m h" "fh_length m' h = fh_length m h"
  using assms in_block_sub [of h 68 4 _ 76] in_block_sub [of h 72 4 _ 76]
  by (auto simp: fh_offset_def fh_length_def FILE_HEADER_SIZE_def adr_def intro!: load_u32_cong)

lemma memcpy_adr:
  assumes "a + n \<le> 2 ^ 32" "n < 2 ^ 32" "x < 2 ^ 32" "\<And>k. k < n \<Longrightarrow> src + adr k \<noteq> adr a"
  shows "memcpy (adr a) src n m (adr x) = (if a \<le> x \<and> x < a + n then m (src + adr (x - a)) else m (adr x))"
proof (cases "a \<le> x \<and> x < a + n")
  case True
  have "src + adr (unat (adr a - src)) = adr a" by simp
  then have "n \<le> unat (adr a - src)"
    using assms(4) [of "unat (adr a - src)"] by linarith
  then have "memcpy (adr a) src n m (adr a + adr (x - a)) = m (src + adr (x - a))"
    using True assms(2) memcpy_copies [of "x - a" n "adr a" src m] by (auto simp: adr_def)
  then show ?thesis
    using True by (simp add: addr_plus)
next
  case False
  show ?thesis
  proof (cases "n = 0")
    case False
    then have "\<not> unat (adr x - adr a) < n"
      using \<open>\<not> (a \<le> x \<and> x < a + n)\<close> assms unat_addr_sub [of x a] by (auto split: if_splits)
    then show ?thesis
      using \<open>\<not> (a \<le> x \<and> x < a + n)\<close> by (auto simp: memcpy_other)
  qed auto
qed

interpretation initrd_nodes: file_node initrd_node_read initrd_content initrd_len initrd_storage
proof (unfold_locales, goal_cases)
  case (1 off sz n m a)
  define h fo where "h = file_header (fst n) (snd n)" and "fo = fh_offset m h"
  have L: "off + sz \<le> unat (fh_length m h)"
    using 1(1) by (simp add: initrd_len_def h_def)
  then have "\<not> fh_length m h < adr off" "\<not> fh_length m h < adr off + adr sz"
    using 1(2) by (simp_all add: word_less_nat_alt addr_plus)
  then have run: "initrd_node_read n (adr off) (adr sz) (adr a) m = Inr (adr sz, memcpy (adr a) (fo + adr off) sz m)"
    using 1(2) by (simp add: initrd_node_read_def initrd_read_def h_def [symmetric] fo_def)
  have apart: "fo + adr off + adr k \<noteq> adr a" if "k < sz" for k
  proof
    assume eq: "fo + adr off + adr k = adr a"
    have "in_block (fo + adr off) sz (adr a)"
      using that 1(2) by (simp add: eq [symmetric] in_block_def)
    then have "adr a \<in> initrd_storage n m"
      using in_block_sub [of fo off sz "adr a" "initrd_len n m"] 1(1) unat_u32_lt
      by (simp add: initrd_storage_def h_def [symmetric] fo_def [symmetric] initrd_len_def)
    then show False
      using 1(4) [of "adr a"] that by (simp add: in_block_def)
  qed
  have "initrd_content n m (off + (x - a)) = m (fo + adr off + adr (x - a))" if "x < a + sz" "a \<le> x" for x
  proof -
    have "off + (x - a) < initrd_len n m" using that 1(1) by linarith
    then show ?thesis
      by (simp only: initrd_content_def h_def [symmetric] fo_def [symmetric] add.assoc addr_plus if_True)
  qed
  then show ?case
    unfolding run using memcpy_adr [OF 1(3) _ _ apart] 1(2) by auto
next
  case (2 n m m')
  define h where "h = file_header (fst n) (snd n)"
  have same: "fh_offset m' h = fh_offset m h" "fh_length m' h = fh_length m h"
    using fh_same [of h m' m] 2 by (auto simp: initrd_storage_def h_def)
  then have "initrd_len n m' = initrd_len n m"
    by (simp add: initrd_len_def h_def)
  moreover have "initrd_content n m' i = initrd_content n m i" for i
    using same 2 [of "fh_offset m h + adr i"] calculation unat_u32_lt [of "fh_length m h"]
    by (auto simp: initrd_content_def initrd_storage_def h_def in_block_def initrd_len_def)
  ultimately show ?case
    using same by (auto simp: initrd_storage_def h_def)
qed

text \<open>A ramdisk with one file of five bytes, and a mapping of its last four.\<close>

definition demo_initrd :: initrd_fs where
  "demo_initrd = \<lparr>file_headers = 0xC0001000, initrd_node = (\<lambda>_. fs_node_new (\<lambda>_. 0)), nroot_nodes = 1\<rparr>"

definition demo_image :: mem where
  "demo_image = store_u32 (store_u32 (\<lambda>_. 7) (adr 0xC0001048) 5) (adr 0xC0001044) 0xC0002000"

definition demo_mapping :: "(initrd_fs \<times> initrd_id) memory_mapping" where
  "demo_mapping = \<lparr>mm_page_start = 0x7000, mm_page_end = 0x8000, mm_address = 0x7004, mm_mem_size = 8,
     mm_node = Some (demo_initrd, InitrdFile 0), mm_offset = 1, mm_file_size = 4, mm_flags = 3\<rparr>"

lemma in_block_bounds:
  assumes "in_block (adr a) n y" "a + n \<le> 2 ^ 32" "0 < a"
  shows "a \<le> unat y" "unat y < a + n"
proof -
  have "a < 2 ^ 32"
    using assms by (cases n) (auto simp: in_block_def)
  then show "a \<le> unat y" "unat y < a + n"
    using assms unat_addr_sub [of "unat y" a] unat_u32_lt [of y]
    by (auto simp: in_block_def split: if_splits)
qed

lemma demo_header:
  "file_header demo_initrd nid = adr 0xC0001000"
  "fh_length demo_image (adr 0xC0001000) = 5" "fh_offset demo_image (adr 0xC0001000) = adr 0xC0002000"
proof -
  show "file_header demo_initrd nid = adr 0xC0001000"
    by (simp add: file_header_def demo_initrd_def fs_node_new_def adr_def)
  have a: "adr 0xC0001000 + 72 = adr 0xC0001048" "adr 0xC0001000 + 68 = adr 0xC0001044"
    by (simp_all add: addr_plus)
  show "fh_length demo_image (adr 0xC0001000) = 5"
    unfolding fh_length_def a demo_image_def by (simp add: load_store_u32_disjoint)
  show "fh_offset demo_image (adr 0xC0001000) = adr 0xC0002000"
    unfolding fh_offset_def a demo_image_def by (simp add: adr_def)
qed

theorem fulfill_contents_witness:
  "\<exists>vm' m'. fulfill initrd_node_read demo_mapping 0x7008 (demo_vm, demo_image) = Inr (vm', m')
    \<and> m' (adr 0x7005) = initrd_content (demo_initrd, InitrdFile 0) demo_image 2 \<and> m' (adr 0x7009) = 0"
proof -
  have frame: "first_frame (vm_frames demo_vm) = Some 2"
    by (simp add: demo_vm_def first_frame_def first_frame_from.simps first_bit_from.simps INDEX_FROM_BIT_def)
  have cur: "current_directory demo_vm = 0x2000" "vm_table demo_vm 0x3000 7 = page_zero"
    "pd_tables (vm_dir demo_vm 0x2000) 0 = 0x3000"
    by (simp_all add: demo_vm_def)
  have "\<exists>r vm'. allocate_user 0x7000 (writable_p demo_mapping) demo_vm = Inr (r, vm')"
    using frame cur by (simp add: allocate_user_def get_current_page_def get_page_def cPageSize_def
        vm_alloc_frame_def alloc_frame_def page_zero_def)
  then obtain r vm' where r: "allocate_user (0x7008 AND cPageMask) (writable_p demo_mapping) demo_vm = Inr (r, vm')"
    by (auto simp: cPageMask_def)
  have page: "page_of 0x7008 = 0x7000"
    by (simp add: page_of_def)
  have apart: "\<not> in_block (adr (page_of 0x7008)) 4096 y"
    if "y \<in> initrd_storage (demo_initrd, InitrdFile 0) demo_image" for y
    using that in_block_bounds [of "0xC0001000" 76 y] in_block_bounds [of "0xC0002000" 5 y]
      in_block_bounds [of "0x7000" 4096 y]
    by (auto simp: initrd_storage_def demo_header initrd_len_def FILE_HEADER_SIZE_def page)
  have mm: "mm_node demo_mapping = Some (demo_initrd, InitrdFile 0)"
    "unat (mm_address demo_mapping) < page_of 0x7008 + 4096"
    "unat (mm_offset demo_mapping) + unat (mm_file_size demo_mapping) \<le> initrd_len (demo_initrd, InitrdFile 0) demo_image"
    "unat (mm_offset demo_mapping) + unat (mm_file_size demo_mapping) < 2 ^ 32"
    by (simp_all add: demo_mapping_def page initrd_len_def demo_header)
  obtain m' where m': "fulfill initrd_node_read demo_mapping 0x7008 (demo_vm, demo_image) = Inr (vm', m')"
    "\<forall>x < 2 ^ 32. m' (adr x) = (if page_of 0x7008 \<le> x \<and> x < page_of 0x7008 + 4096
       then mapped_byte (initrd_content (demo_initrd, InitrdFile 0) demo_image) demo_mapping x else demo_image (adr x))"
    using fulfill_contents [OF initrd_nodes.file_node_axioms mm(1) r mm(2-4) apart] by blast
  show ?thesis
    using m'(1) m'(2) [rule_format, of "0x7005"] m'(2) [rule_format, of "0x7009"]
    by (auto simp: mapped_byte_def demo_mapping_def page simp flip: numeral_2_eq_2)
qed


subsection \<open>The image\<close>

lemma agree_write_bytes:
  assumes "hi \<le> 2 ^ 32" "a + length bs \<le> 2 ^ 32" "hi \<le> a \<or> a + length bs \<le> lo"
  shows "agree lo hi (write_bytes (adr a) bs m) m"
  using assms(2,3)
proof (induction bs arbitrary: a m)
  case (Cons b bs)
  have "agree lo hi (write_bytes (adr (a + 1)) bs (m(adr a := b))) (m(adr a := b))"
    using Cons.prems by (intro Cons.IH) auto
  moreover have "agree lo hi (m(adr a := b)) m"
    using Cons.prems assms(1) by (intro agree_upd) auto
  ultimately show ?case
    unfolding write_bytes.simps addr_plus_1 by (rule agree_trans)
qed simp

lemma write_bytes_at:
  assumes "a + length bs \<le> 2 ^ 32" "j < length bs"
  shows "write_bytes (adr a) bs m (adr (a + j)) = bs ! j"
  using assms
proof (induction bs arbitrary: a m j)
  case (Cons b bs)
  show ?case
  proof (cases j)
    case 0
    then show ?thesis
      using Cons.prems agree_write_bytes [of "a + 1" "a + 1" bs a "m(adr a := b)"]
      by (simp add: addr_plus_1 agree_def)
  next
    case (Suc k)
    then show ?thesis
      using Cons.IH [of "a + 1" k] Cons.prems by (simp add: addr_plus_1)
  qed
qed simp

text \<open>What a header in memory says: its name, where its data is and how much.\<close>

definition header_at :: "mem \<Rightarrow> nat \<Rightarrow> u8 list \<Rightarrow> u32 \<Rightarrow> u32 \<Rightarrow> bool" where
  "header_at m a name off len \<longleftrightarrow>
    (\<forall>j \<le> length name. m (adr (a + 1 + j)) = (name @ [0]) ! j)
    \<and> load_u32 m (adr (a + 68)) = off \<and> load_u32 m (adr (a + 72)) = len"

lemma header_at_agree:
  assumes "agree a (a + 76) m m'" "length name < 64" "header_at m' a name off len"
  shows "header_at m a name off len"
  using assms load_agree [OF assms(1), of "a + 68"] load_agree [OF assms(1), of "a + 72"]
  by (auto simp: header_at_def agree_def)

lemma write_header_at:
  assumes "76 * i + 76 \<le> 2 ^ 32" "length name < 64"
  shows "header_at (write_header i name off len hs) (76 * i) name off len"
    "hi \<le> 2 ^ 32 \<Longrightarrow> hi \<le> 76 * i \<or> 76 * i + 76 \<le> lo \<Longrightarrow> agree lo hi (write_header i name off len hs) hs"
proof -
  define a where "a = 76 * i"
  define h1 where "h1 = write_bytes (adr (a + 1)) (name @ [0]) hs"
  have w: "write_header i name off len hs
    = (store_u32 (store_u32 h1 (adr (a + 68)) off) (adr (a + 72)) len)(adr a := 0xBF)"
    by (simp add: write_header_def h1_def a_def FILE_HEADER_SIZE_def addr_plus addr_plus_1)
  have a: "a + 76 \<le> 2 ^ 32" using assms(1) by (simp add: a_def)
  have "agree (a + 1) (a + 66) (write_header i name off len hs) h1"
    unfolding w using a
    by (intro agree_trans [OF agree_upd] agree_trans [OF agree_store] agree_store) auto
  then have "write_header i name off len hs (adr (a + 1 + j)) = (name @ [0]) ! j" if "j \<le> length name" for j
    using that assms(2) a write_bytes_at [of "a + 1" "name @ [0]" j hs] by (simp add: agree_def h1_def)
  moreover have "load_u32 (write_header i name off len hs) (adr (a + 68)) = off"
    "load_u32 (write_header i name off len hs) (adr (a + 72)) = len"
    using a by (simp_all add: w load_upd_disjoint load_store_u32_disjoint)
  ultimately show "header_at (write_header i name off len hs) (76 * i) name off len"
    by (simp add: header_at_def a_def)
  assume hi: "hi \<le> 2 ^ 32" "hi \<le> 76 * i \<or> 76 * i + 76 \<le> lo"
  have "agree lo hi h1 hs"
    unfolding h1_def using hi assms(2) a by (intro agree_write_bytes) (auto simp: a_def)
  then show "agree lo hi (write_header i name off len hs) hs"
    unfolding w using a hi
    by (intro agree_trans [OF agree_upd] agree_trans [OF agree_store] agree_trans [OF agree_store] ) (auto simp: a_def)
qed

definition data_offset :: "(u8 list \<times> u8 list) list \<Rightarrow> nat \<Rightarrow> nat" where
  "data_offset files k = sum_list (map (length \<circ> snd) (take k files))"

lemma write_headers_at:
  assumes "i + length files \<le> 64" "\<And>f. f \<in> set files \<Longrightarrow> length (fst f) < 64"
  shows "\<exists>hs'. write_headers i files (adr off) hs = Inr hs' \<and>
    (\<forall>k < length files. header_at hs' (76 * (i + k)) (fst (files ! k))
       (adr (off + data_offset files k)) (adr (length (snd (files ! k)))))
    \<and> agree 0 (76 * i) hs' hs"
  using assms
proof (induction files arbitrary: i off hs)
  case (Cons f files)
  obtain name data where f: "f = (name, data)" by fastforce
  define hs1 where "hs1 = write_header i name (adr off) (adr (length data)) hs"
  have len: "length name < 64" "76 * i + 76 \<le> 2 ^ 32" using Cons.prems(2) [of f] Cons.prems(1) f by auto
  obtain hs' where run: "write_headers (Suc i) files (adr (off + length data)) hs1 = Inr hs'"
    and at: "\<forall>k < length files. header_at hs' (76 * (Suc i + k)) (fst (files ! k))
       (adr (off + length data + data_offset files k)) (adr (length (snd (files ! k))))"
    and ag: "agree 0 (76 * Suc i) hs' hs1"
    using Cons.IH [of "Suc i" "off + length data" hs1] Cons.prems by auto
  have "header_at hs' (76 * i) name (adr off) (adr (length data))"
    using header_at_agree [OF agree_mono [OF ag]] write_header_at(1) [OF len(2,1)] len(1) by (simp add: hs1_def)
  then have "header_at hs' (76 * (i + k)) (fst ((f # files) ! k))
       (adr (off + data_offset (f # files) k)) (adr (length (snd ((f # files) ! k))))" if "k < Suc (length files)" for k
    using that at f by (cases k) (auto simp: data_offset_def add.assoc)
  moreover have "agree 0 (76 * i) hs' hs"
  proof (rule agree_trans)
    show "agree 0 (76 * i) hs' hs1" using ag by (rule agree_mono) auto
    show "agree 0 (76 * i) hs1 hs" unfolding hs1_def using len by (intro write_header_at(2)) auto
  qed
  moreover have "write_headers i (f # files) (adr off) hs = Inr hs'"
    using run f len Cons.prems(1) by (simp add: hs1_def addr_plus)
  ultimately show ?case by auto
qed simp

definition image_end :: "(u8 list \<times> u8 list) list \<Rightarrow> nat" where
  "image_end files = 4868 + data_offset files (length files)"

lemma concat_data_nth:
  assumes "k < length files" "j < length (snd (files ! k))"
  shows "concat (map snd files) ! (data_offset files k + j) = snd (files ! k) ! j"
  using assms
proof (induction files arbitrary: k)
  case (Cons f files)
  then show ?case
    by (cases k) (simp_all add: data_offset_def nth_append add.assoc)
qed simp

lemma length_concat_data: "length (concat (map snd files)) = data_offset files (length files)"
  by (simp add: length_concat data_offset_def)

lemma data_offset_le: "k < length files \<Longrightarrow> data_offset files k + length (snd (files ! k)) \<le> data_offset files (length files)"
proof (induction files arbitrary: k)
  case (Cons f files)
  then show ?case
    by (cases k) (simp_all add: data_offset_def)
qed simp

lemma make_initrd_image:
  assumes "length files \<le> 63" "\<And>f. f \<in> set files \<Longrightarrow> length (fst f) < 64"
  obtains img hs where "make_initrd junk files = Inr img"
    "img = u32_bytes (adr (length files)) @ map (\<lambda>k. hs (adr k)) [0..<4864] @ concat (map snd files)"
    "\<And>k. k < length files \<Longrightarrow> header_at hs (76 * k) (fst (files ! k))
       (adr (4868 + data_offset files k)) (adr (length (snd (files ! k))))"
proof -
  obtain hs where hs: "write_headers 0 files (adr 4868) junk = Inr hs"
    "\<forall>k < length files. header_at hs (76 * (0 + k)) (fst (files ! k))
       (adr (4868 + data_offset files k)) (adr (length (snd (files ! k))))"
    using write_headers_at [of 0 files 4868 junk] assms by auto
  have s: "sint (word_of_nat (1 + 2 * length files) :: u8) = int (1 + 2 * length files)"
    using assms(1) unfolding signed_of_nat by (subst signed_take_bit_int_eq_self) simp_all
  define argc where "argc = (word_of_nat (1 + 2 * length files) :: u8)"
  have s: "(sint argc - 1) div 2 = int (length files)"
    using s by (simp add: argc_def)
  have "make_initrd junk files = Inr (u32_bytes (adr (length files)) @ map (\<lambda>k. hs (adr k)) [0..<4864] @ concat (map snd files))"
    unfolding make_initrd_def Let_def argc_def [symmetric] s using hs(1)
    by (simp add: FILE_HEADER_SIZE_def adr_def)
  then show ?thesis
    using hs(2) by (intro that [of _ hs]) auto
qed

lemma load_image_at: "loc + length img \<le> 2 ^ 32 \<Longrightarrow> j < length img \<Longrightarrow> load_image loc img m (adr (loc + j)) = img ! j"
  by (simp add: load_image_def)

lemma load_u32_bytes:
  assumes "\<And>k. k < 4 \<Longrightarrow> m (adr (a + k)) = u32_bytes v ! k"
  shows "load_u32 m (adr a) = v"
proof -
  have "m (adr a) = ucast v" "m (adr (a + 1)) = ucast (drop_bit 8 v)" "m (adr (a + 2)) = ucast (drop_bit 16 v)"
    "m (adr (a + 3)) = ucast (drop_bit 24 v)"
    using assms [of 0] assms [of 1] assms [of 2] assms [of 3] by (simp_all add: u32_bytes_def)
  then show ?thesis
    unfolding load_u32_def addr_plus_1 addr_plus by (simp only: u32_split_bytes [symmetric])
qed

text \<open>An image of \<open>files\<close> in memory, with offsets relative to \<open>base\<close>.\<close>

definition file_at :: "mem \<Rightarrow> nat \<Rightarrow> nat \<Rightarrow> (u8 list \<times> u8 list) list \<Rightarrow> nat \<Rightarrow> bool" where
  "file_at m loc base files k \<longleftrightarrow> header_at m (loc + 4 + 76 * k) (fst (files ! k))
     (adr (base + (4868 + data_offset files k))) (adr (length (snd (files ! k))))"

definition data_at :: "mem \<Rightarrow> nat \<Rightarrow> (u8 list \<times> u8 list) list \<Rightarrow> nat \<Rightarrow> bool" where
  "data_at m loc files k \<longleftrightarrow> (\<forall>j < length (snd (files ! k)).
     m (adr (loc + (4868 + data_offset files k) + j)) = snd (files ! k) ! j)"

lemma loaded_image:
  assumes "length files \<le> 63" "\<And>f. f \<in> set files \<Longrightarrow> length (fst f) < 64" "loc + image_end files \<le> 2 ^ 32"
  obtains img where "make_initrd junk files = Inr img" "length img = image_end files"
    "load_u32 (load_image loc img m) (adr loc) = adr (length files)"
    "\<And>k. k < length files \<Longrightarrow> file_at (load_image loc img m) loc 0 files k \<and> data_at (load_image loc img m) loc files k"
proof -
  obtain img hs where mk: "make_initrd junk files = Inr img"
    and img: "img = u32_bytes (adr (length files)) @ map (\<lambda>k. hs (adr k)) [0..<4864] @ concat (map snd files)"
    and hs: "\<And>k. k < length files \<Longrightarrow> header_at hs (76 * k) (fst (files ! k))
       (adr (4868 + data_offset files k)) (adr (length (snd (files ! k))))"
    using make_initrd_image [OF assms(1,2), of junk] by blast
  have u: "length (u32_bytes v) = 4" for v by (simp add: u32_bytes_def)
  have len: "length img = image_end files"
    by (simp add: img u image_end_def length_concat_data del: length_concat)
  let ?m = "load_image loc img m"
  have at: "?m (adr (loc + j)) = img ! j" if "j < image_end files" for j
    using that assms(3) len by (simp add: load_image_at)
  have "load_u32 ?m (adr loc) = adr (length files)"
    using at by (intro load_u32_bytes) (auto simp: image_end_def img u nth_append)
  moreover have "file_at ?m loc 0 files k" if k: "k < length files" for k
  proof -
    have b: "76 * k + 76 \<le> 4864" using k assms(1) by simp
    have byte: "?m (adr (loc + 4 + x)) = hs (adr x)" if "x < 4864" for x
      using that at [of "4 + x"] by (simp add: image_end_def img u nth_append add.assoc)
    have ld: "load_u32 ?m (adr (loc + 4 + x)) = load_u32 hs (adr x)" if "x + 4 \<le> 4864" for x
      using that byte [of x] byte [of "x + 1"] byte [of "x + 2"] byte [of "x + 3"]
      by (simp add: load_u32_def addr_plus addr_plus_1 add.assoc)
    have n: "length (fst (files ! k)) < 64" using assms(2) k by simp
    have "?m (adr (loc + 4 + 76 * k + 1 + j)) = (fst (files ! k) @ [0]) ! j" if "j \<le> length (fst (files ! k))" for j
      using hs [OF k] that n b byte [of "76 * k + 1 + j"] by (simp add: header_at_def add.assoc)
    then show ?thesis
      using hs [OF k] b ld [of "76 * k + 68"] ld [of "76 * k + 72"]
      unfolding file_at_def header_at_def by (simp add: add.assoc)
  qed
  moreover have "data_at ?m loc files k" if k: "k < length files" for k
    unfolding data_at_def
  proof (intro allI impI)
    fix j assume j: "j < length (snd (files ! k))"
    then have "4868 + data_offset files k + j < image_end files"
      using data_offset_le [OF k] by (simp add: image_end_def)
    then show "?m (adr (loc + (4868 + data_offset files k) + j)) = snd (files ! k) ! j"
      using at [of "4868 + data_offset files k + j"] concat_data_nth [OF k j]
      by (simp add: img u nth_append add.assoc)
  qed
  ultimately show ?thesis
    using that mk len by blast
qed


subsection \<open>Mounting the image\<close>

lemma fold_result_append: "fold_result f (xs @ ys) s = bind_result (fold_result f xs s) (fold_result f ys)"
  by (induction xs arbitrary: s) (simp_all add: bind_result_def split: sum.splits)

lemma strcpy_len_correct: "is_cstr s bs \<Longrightarrow> i < length bs \<Longrightarrow> strcpy_len s i = Some (length bs)"
proof (induction "length bs - i" arbitrary: i)
  case (Suc d)
  then show ?case
    by (subst strcpy_len.simps) (auto simp: is_cstr_zero)
qed simp

lemma is_cstr_lit: "list_all (\<lambda>c. of_char c \<noteq> (0::u8)) s \<Longrightarrow> is_cstr (str_lit s) (map of_char s)"
  by (auto simp: is_cstr_def str_lit_def list_all_iff)

lemma name_copy_cstr:
  assumes "is_cstr s bs" "bs \<noteq> []" "length bs \<le> 128"
  shows "name_copy s dest = Inr (\<lambda>i. if i < length bs then bs ! i else dest i)"
proof -
  have "(\<lambda>i. if i < length bs then s i else dest i) = (\<lambda>i. if i < length bs then bs ! i else dest i)"
    using assms(1) by (auto simp: is_cstr_def)
  then show ?thesis
    using assms strcpy_len_correct [of s bs 0] by (simp add: name_copy_def)
qed

lemma initrd_directory_ok:
  "\<exists>n. initrd_directory ''initrd'' junk = Inr n" "\<exists>n. initrd_directory ''dev'' junk = Inr n"
  "\<exists>n. initrd_directory ''data'' junk = Inr n" "\<exists>n. initrd_directory ''tmp'' junk = Inr n"
  by (simp_all add: initrd_directory_def name_copy_cstr [OF is_cstr_lit])

definition node_of :: "cstr \<Rightarrow> u8 list \<times> u8 list \<Rightarrow> nat \<Rightarrow> initrd_id fs_node \<Rightarrow> bool" where
  "node_of junk f k node \<longleftrightarrow> (\<forall>j. nd_name node j = (if j < length (fst f) then fst f ! j else junk j))
     \<and> nd_inode node = adr k \<and> nd_length node = adr (length (snd f)) \<and> nd_flags node = FS_FILE"

lemma init_file_step:
  assumes at: "file_at m loc 0 files k" and k: "k < 64"
    and f: "length (fst (files ! k)) < 64" "fst (files ! k) \<noteq> []" "0 \<notin> set (fst (files ! k))"
    and hd: "file_headers fs = adr (loc + 4)" and b: "loc + 4868 \<le> 2 ^ 32"
  shows "\<exists>node m'. initrd_init_file (adr loc) junk k (fs, m)
      = Inr (fs\<lparr>initrd_node := (initrd_node fs)(InitrdFile k := node)\<rparr>, m')
    \<and> node_of junk (files ! k) k node \<and> file_at m' loc loc files k
    \<and> (\<forall>lo hi. hi \<le> 2 ^ 32 \<and> (hi \<le> loc + 4 + 76 * k \<or> loc + 4 + 76 * k + 76 \<le> lo) \<longrightarrow> agree lo hi m' m)"
proof -
  define a where "a = loc + 4 + 76 * k"
  have a: "a + 76 \<le> 2 ^ 32" using k b by (simp add: a_def)
  have h: "file_headers fs + adr (FILE_HEADER_SIZE * k) = adr a"
    by (simp add: hd FILE_HEADER_SIZE_def addr_plus a_def)
  define off where "off = 4868 + data_offset files k"
  define m' where "m' = store_u32 m (adr (a + 68)) (adr off + adr loc)"
  have m: "header_at m a (fst (files ! k)) (adr off) (adr (length (snd (files ! k))))"
    using at by (simp add: file_at_def a_def off_def)
  have ag: "agree lo hi m' m" if "hi \<le> 2 ^ 32" "hi \<le> a + 68 \<or> a + 72 \<le> lo" for lo hi
    unfolding m'_def using that a by (intro agree_store) auto
  have "agree (a + 1) (a + 65) m' m" "agree (a + 72) (a + 76) m' m"
    using a by (auto intro: ag)
  then have m': "header_at m' a (fst (files ! k)) (adr (loc + off)) (adr (length (snd (files ! k))))"
    using m f(1) load_agree [of "a + 72" "a + 76" m' m "a + 72"]
    by (auto simp: header_at_def agree_def m'_def addr_plus add.commute)
  have "is_cstr (fh_name m' (adr a)) (fst (files ! k))"
    using m' f(3) by (auto simp: is_cstr_def fh_name_def header_at_def addr_plus addr_plus_1 nth_append
        dest: spec [of _ "length (fst (files ! k))"] split: if_splits)
  note name = name_copy_cstr [OF this f(2)]
  let ?node = "(fs_node_new junk)\<lparr>nd_name := \<lambda>i. if i < length (fst (files ! k)) then fst (files ! k) ! i else (junk(0 := 0)) i,
      nd_length := adr (length (snd (files ! k))), nd_inode := adr k, nd_flags := FS_FILE\<rparr> :: initrd_id fs_node"
  have "m' = store_u32 m (adr a + 68) (fh_offset m (adr a) + adr loc)"
    using m by (simp add: m'_def fh_offset_def header_at_def addr_plus)
  moreover have "fh_length m' (adr a) = adr (length (snd (files ! k)))"
    using m' by (simp add: fh_length_def header_at_def addr_plus)
  ultimately have "\<exists>node. initrd_init_file (adr loc) junk k (fs, m)
      = Inr (fs\<lparr>initrd_node := (initrd_node fs)(InitrdFile k := node)\<rparr>, m') \<and> node_of junk (files ! k) k node"
    using name f(1,2) by (intro exI [of _ ?node]) (auto simp: initrd_init_file_def h Let_def node_of_def fs_node_new_def)
  moreover have "file_at m' loc loc files k"
    using m' by (simp add: file_at_def a_def off_def)
  ultimately show ?thesis
    using ag by (fastforce simp: a_def)
qed

lemma init_files:
  assumes "\<And>k. k < length files \<Longrightarrow> file_at m loc 0 files k" "length files \<le> 63"
    and "\<And>f. f \<in> set files \<Longrightarrow> length (fst f) < 64 \<and> fst f \<noteq> [] \<and> 0 \<notin> set (fst f)"
    and "file_headers fs = adr (loc + 4)" "loc + 4868 \<le> 2 ^ 32" "n \<le> length files"
  shows "\<exists>fs' m'. fold_result (initrd_init_file (adr loc) junk) [0..<n] (fs, m) = Inr (fs', m')
    \<and> file_headers fs' = adr (loc + 4) \<and> nroot_nodes fs' = nroot_nodes fs
    \<and> (\<forall>k < n. node_of junk (files ! k) k (initrd_node fs' (InitrdFile k)) \<and> file_at m' loc loc files k)
    \<and> (\<forall>k < length files. n \<le> k \<longrightarrow> file_at m' loc 0 files k)
    \<and> agree (loc + 4868) (2 ^ 32) m' m"
  using assms(6)
proof (induction n)
  case (Suc n)
  obtain fs1 m1 where run: "fold_result (initrd_init_file (adr loc) junk) [0..<n] (fs, m) = Inr (fs1, m1)"
    and fs1: "file_headers fs1 = adr (loc + 4)" "nroot_nodes fs1 = nroot_nodes fs"
    and old: "\<And>k. k < n \<Longrightarrow> node_of junk (files ! k) k (initrd_node fs1 (InitrdFile k)) \<and> file_at m1 loc loc files k"
    and todo: "\<And>k. k < length files \<Longrightarrow> n \<le> k \<Longrightarrow> file_at m1 loc 0 files k"
    and ag1: "agree (loc + 4868) (2 ^ 32) m1 m"
    using Suc by auto
  have n: "n < length files" "n < 64" using Suc.prems assms(2) by auto
  obtain node m2 where step: "initrd_init_file (adr loc) junk n (fs1, m1)
      = Inr (fs1\<lparr>initrd_node := (initrd_node fs1)(InitrdFile n := node)\<rparr>, m2)"
    and new: "node_of junk (files ! n) n node" "file_at m2 loc loc files n"
    and ag: "\<And>lo hi. hi \<le> 2 ^ 32 \<Longrightarrow> hi \<le> loc + 4 + 76 * n \<or> loc + 4 + 76 * n + 76 \<le> lo \<Longrightarrow> agree lo hi m2 m1"
    using init_file_step [OF todo [OF n(1) le_refl] n(2) _ _ _ fs1(1) assms(5), of junk] assms(3) [of "files ! n"] n(1)
    by (metis nth_mem)
  have other: "file_at m2 loc base files k \<longleftrightarrow> file_at m1 loc base files k" if "k < length files" "k \<noteq> n" for k base
  proof -
    define b where "b = loc + 4 + 76 * k"
    have "agree b (b + 76) m2 m1"
      unfolding b_def using that assms(2,5) by (intro ag) auto
    then have ag': "agree b (b + 76) m2 m1" "agree b (b + 76) m1 m2" by (auto simp: agree_def)
    have "length (fst (files ! k)) < 64" using that(1) assms(3) by simp
    then show ?thesis
      unfolding file_at_def b_def [symmetric] using ag' header_at_agree by blast
  qed
  have "agree (loc + 4868) (2 ^ 32) m2 m"
    using agree_trans [OF ag ag1] n assms(2) by simp
  then show ?case
    using run step fs1 old todo new other n
    by (auto simp: fold_result_append less_Suc_eq)
qed (use assms in auto)

lemma mounted_file:
  assumes at: "file_at m loc loc files k" "data_at m loc files k" and k: "k < length files" "k < 64"
    and fs: "file_headers fs = adr (loc + 4)" "nd_inode (initrd_node fs (InitrdFile k)) = adr k"
    and b: "loc + image_end files \<le> 2 ^ 32"
    and buf: "a + length (snd (files ! k)) \<le> loc \<or> loc + image_end files \<le> a" "a + length (snd (files ! k)) \<le> 2 ^ 32" "0 < loc"
  shows "\<exists>m'. initrd_read fs (InitrdFile k) 0 (adr (length (snd (files ! k)))) (adr a) m
      = Inr (adr (length (snd (files ! k))), m')
    \<and> (\<forall>j < length (snd (files ! k)). m' (adr (a + j)) = snd (files ! k) ! j)"
proof -
  define n len where "n = (fs, InitrdFile k)" and "len = length (snd (files ! k))"
  define h off where "h = loc + 4 + 76 * k" and "off = loc + (4868 + data_offset files k)"
  have end_le: "off + len \<le> loc + image_end files" "h + 76 \<le> loc + image_end files" "len < 2 ^ 32" "loc \<le> h" "loc \<le> off"
    using data_offset_le [OF k(1)] k(2) b by (auto simp: off_def len_def image_end_def h_def)
  have header: "file_header (fst n) (snd n) = adr h" "fh_offset m (adr h) = adr off" "fh_length m (adr h) = adr len"
  proof -
    have "adr (loc + 4) + adr k * 76 = adr h"
      unfolding adr_def h_def by (simp only: of_nat_add of_nat_mult of_nat_numeral mult.commute)
    then show "file_header (fst n) (snd n) = adr h"
      by (simp add: n_def file_header_def fs)
    show "fh_offset m (adr h) = adr off" "fh_length m (adr h) = adr len"
      using at(1) by (simp_all add: file_at_def header_at_def fh_offset_def fh_length_def addr_plus h_def off_def len_def)
  qed
  have len: "initrd_len n m = len"
    using end_le(3) by (simp add: initrd_len_def header)
  have apart: "\<not> in_block (adr a) len y" if "y \<in> initrd_storage n m" for y
  proof
    assume y: "in_block (adr a) len y"
    have "loc \<le> unat y \<and> unat y < loc + image_end files"
      using that in_block_bounds [of h 76 y] in_block_bounds [of off len y] end_le b buf(3)
      by (auto simp: initrd_storage_def header FILE_HEADER_SIZE_def len)
    moreover have "a \<le> unat y \<and> unat y < a + len"
      using in_block_bounds [OF y] buf(2) y unat_u32_lt [of y]
      by (cases "a = 0") (auto simp: len_def in_block_def adr_def)
    ultimately show False
      using buf(1) by (auto simp: len_def)
  qed
  have content: "initrd_content n m j = snd (files ! k) ! j" if "j < len" for j
    using that at(2) by (simp add: initrd_content_def len header addr_plus data_at_def off_def len_def)
  obtain m' where m': "initrd_node_read n (adr 0) (adr len) (adr a) m = Inr (adr len, m')"
    "\<forall>x < 2 ^ 32. m' (adr x) = (if a \<le> x \<and> x < a + len then initrd_content n m (0 + (x - a)) else m (adr x))"
    using initrd_nodes.read_law [of 0 len n m a] apart end_le(3) buf(2) len by (auto simp: len_def)
  have "m' (adr (a + j)) = snd (files ! k) ! j" if "j < len" for j
    using that m'(2) content buf(2) by (simp add: len_def)
  then show ?thesis
    using m'(1) by (auto simp: initrd_node_read_def n_def len_def adr_def)
qed

text \<open>
  C11: Round trip of the ramdisk: the image that \<^verbatim>\<open>make_initrd\<close> writes, once loaded into memory,
  is accepted by \<^verbatim>\<open>FS::init\<close>, every file has its node with its length, and reading
  the whole file through the node gives back exactly the bytes it was made from.
  The name field of the node holds the bytes of the name and after them what its memory
  held before: \<^verbatim>\<open>strcpy\<close> writes no terminator.
\<close>

theorem initrd_roundtrip:
  assumes "length files \<le> 63" "\<forall>f \<in> set files. length (fst f) < 64 \<and> fst f \<noteq> [] \<and> 0 \<notin> set (fst f)"
    and "0 < loc" "loc + image_end files \<le> 2 ^ 32" "k < length files"
    and "a + length (snd (files ! k)) \<le> loc \<or> loc + image_end files \<le> a" "a + length (snd (files ! k)) \<le> 2 ^ 32"
  shows "\<exists>img fs m m'. make_initrd junk files = Inr img
    \<and> initrd_init (adr loc) junk' fs0 (load_image loc img m0) = Inr (fs, m)
    \<and> nroot_nodes fs = adr (length files)
    \<and> (\<forall>j. nd_name (initrd_node fs (InitrdFile k)) j = (if j < length (fst (files ! k)) then fst (files ! k) ! j else junk' j))
    \<and> nd_length (initrd_node fs (InitrdFile k)) = adr (length (snd (files ! k)))
    \<and> initrd_read fs (InitrdFile k) 0 (nd_length (initrd_node fs (InitrdFile k))) (adr a) m
        = Inr (adr (length (snd (files ! k))), m')
    \<and> (\<forall>j < length (snd (files ! k)). m' (adr (a + j)) = snd (files ! k) ! j)"
proof -
  have names: "\<And>f. f \<in> set files \<Longrightarrow> length (fst f) < 64" using assms(2) by blast
  obtain img where mk: "make_initrd junk files = Inr img"
    and n: "load_u32 (load_image loc img m0) (adr loc) = adr (length files)"
    and at: "\<And>k. k < length files \<Longrightarrow> file_at (load_image loc img m0) loc 0 files k \<and> data_at (load_image loc img m0) loc files k"
    using loaded_image [OF assms(1) names assms(4), of junk m0] by blast
  let ?m = "load_image loc img m0"
  have b: "loc + 4868 \<le> 2 ^ 32" using assms(4) by (simp add: image_end_def)
  obtain r d t u where dirs: "initrd_directory ''initrd'' junk' = Inr r" "initrd_directory ''dev'' junk' = Inr d"
    "initrd_directory ''data'' junk' = Inr t" "initrd_directory ''tmp'' junk' = Inr u"
    using initrd_directory_ok by metis
  define fs1 where "fs1 = fs0\<lparr>file_headers := adr loc + 4, nroot_nodes := adr (length files),
      initrd_node := (initrd_node fs0)(InitrdRoot := r, InitrdDev := d, InitrdData := t, InitrdTmp := u)\<rparr>"
  have init: "initrd_init (adr loc) junk' fs0 ?m = fold_result (initrd_init_file (adr loc) junk') [0..<length files] (fs1, ?m)"
    using n assms(1) by (simp add: initrd_init_def dirs fs1_def)
  have fs1: "file_headers fs1 = adr (loc + 4)" "nroot_nodes fs1 = adr (length files)"
    by (simp_all add: fs1_def addr_plus)
  obtain fs m where run: "initrd_init (adr loc) junk' fs0 ?m = Inr (fs, m)"
    and fs: "file_headers fs = adr (loc + 4)" "nroot_nodes fs = adr (length files)"
    and node: "node_of junk' (files ! k) k (initrd_node fs (InitrdFile k))" "file_at m loc loc files k"
    and ag: "agree (loc + 4868) (2 ^ 32) m ?m"
    using init_files [OF conjunct1 [OF at] assms(1) _ fs1(1) b le_refl, of junk'] assms(2,5) fs1(2) init by auto
  have "loc + (4868 + data_offset files k) + j < 2 ^ 32" if "j < length (snd (files ! k))" for j
    using that data_offset_le [OF assms(5)] assms(4) by (simp add: image_end_def)
  then have "data_at m loc files k"
    using at [OF assms(5)] ag by (simp add: data_at_def agree_def)
  then show ?thesis
    using mounted_file [OF node(2) _ assms(5) _ fs(1) _ assms(4,6,7,3)] node(1) mk run fs(2) assms(1,5)
    by (auto simp: node_of_def)
qed

theorem initrd_roundtrip_witness:
  "\<exists>img fs m m'. make_initrd (\<lambda>_. 0xCC) [([0x61], [1, 2, 3])] = Inr img
    \<and> initrd_init (adr 0x100000) (\<lambda>_. 0xCC) demo_initrd (load_image 0x100000 img (\<lambda>_. 0)) = Inr (fs, m)
    \<and> initrd_read fs (InitrdFile 0) 0 (nd_length (initrd_node fs (InitrdFile 0))) (adr 0x2000) m = Inr (adr 3, m')
    \<and> m' (adr 0x2001) = 2"
proof -
  have e: "image_end [([0x61], [1, 2, 3])] = 4871"
    by (simp add: image_end_def data_offset_def)
  show ?thesis
    using initrd_roundtrip [of "[([0x61], [1, 2, 3])]" "0x100000" 0 "0x2000" "\<lambda>_. 0xCC" "\<lambda>_. 0xCC" demo_initrd "\<lambda>_. 0"]
    unfolding e by (auto simp flip: numeral_3_eq_3 dest: spec [of _ 1])
qed

text \<open>
  C28: Reading a ramdisk file through an open \<^verbatim>\<open>fs::File\<close> piece by piece, with any sequence of
  sizes whose sum is within the length of the file, into a buffer apart from the ramdisk, advances the offset by their sum and puts the bytes of
  the file one after the other into the buffer, touching no other memory.
\<close>

theorem initrd_file_pieces:
  assumes "sum_list szs \<le> initrd_len n m" "sum_list szs < 2 ^ 31" "a + sum_list szs \<le> 2 ^ 32"
    and "\<forall>y \<in> initrd_storage n m. \<not> in_block (adr a) (sum_list szs) y"
  shows "\<exists>m'. file_read_pieces initrd_node_read (file_new n) a szs m = Inr (\<lparr>fl_node = n, fl_offset = adr (sum_list szs)\<rparr>, m')
    \<and> (\<forall>x < 2 ^ 32. m' (adr x) = (if a \<le> x \<and> x < a + sum_list szs then initrd_content n m (x - a) else m (adr x)))"
proof -
  have f: "fl_node (file_new n) = n" "fl_offset (file_new n) = 0" "(file_new n)\<lparr>fl_offset := v\<rparr> = \<lparr>fl_node = n, fl_offset = v\<rparr>" for v
    by (simp_all add: file_new_def)
  show ?thesis
    using initrd_nodes.file_read_pieces_content [of "file_new n" szs m a] assms
    unfolding f unsigned_0 add_0 by blast
qed

theorem initrd_file_pieces_witness:
  "\<exists>m'. file_read_pieces initrd_node_read (file_new (demo_initrd, InitrdFile 0)) 0x9000 [2, 1] demo_image
      = Inr (\<lparr>fl_node = (demo_initrd, InitrdFile 0), fl_offset = adr 3\<rparr>, m')
    \<and> m' (adr 0x9002) = initrd_content (demo_initrd, InitrdFile 0) demo_image 2"
proof -
  have len: "initrd_len (demo_initrd, InitrdFile 0) demo_image = 5"
    by (simp add: initrd_len_def demo_header)
  have "\<not> in_block (adr 0x9000) 3 y" if "y \<in> initrd_storage (demo_initrd, InitrdFile 0) demo_image" for y
    using that in_block_bounds [of "0xC0001000" 76 y] in_block_bounds [of "0xC0002000" 5 y]
      in_block_bounds [of "0x9000" 3 y]
    by (auto simp: initrd_storage_def demo_header len FILE_HEADER_SIZE_def)
  then show ?thesis
    using initrd_file_pieces [of "[2, 1]" "(demo_initrd, InitrdFile 0)" demo_image "0x9000"]
    by (auto simp: len dest!: spec [of _ "0x9002"])
qed

end
