(* ===== verification/Mounts.thy ===== *)
theory Mounts
  imports Tmpfs Initrd
begin

text \<open>
  The mounted file systems together: the nodes of \<^verbatim>\<open>tmpfs\<close> and \<^verbatim>\<open>devfs\<close> in one store, with the
  virtual methods dispatched on the class of a node, path lookup over them, and
  \<^verbatim>\<open>fs::mount\<close>.  \<open>junk\<close> is what fresh memory holds.
\<close>

subsection \<open>The node store\<close>

datatype node_class = TmpDirectory tmp_dir | TmpFile tmp_file | DevRoot | DevBlock | DevCharacter nat | OtherNode

record vfs =
  v_node :: "nat \<Rightarrow> nat fs_node"
  v_class :: "nat \<Rightarrow> node_class"
  v_next :: nat
  v_root :: nat
  dev_head :: "nat option"
  dev_root :: nat
  dev_next :: "nat \<Rightarrow> nat option"

definition v_new :: "node_class \<Rightarrow> nat fs_node \<Rightarrow> vfs \<Rightarrow> nat \<times> vfs" where
  "v_new cls node s =
    (v_next s, s\<lparr>v_node := (v_node s)(v_next s := node), v_class := (v_class s)(v_next s := cls),
       v_next := Suc (v_next s)\<rparr>)"

definition slash_node :: "cstr \<Rightarrow> nat fs_node" where
  "slash_node junk = (fs_node_new junk)\<lparr>nd_name := (junk(0 := 0x2F))(1 := 0), nd_mask := 0, nd_uid := 0,
     nd_gid := 0, nd_flags := FS_DIRECTORY, nd_inode := 0, nd_length := 0, nd_delegate := None\<rparr>"

text \<open>\<^verbatim>\<open>tmpfs::FS::FS\<close>, and \<^verbatim>\<open>load\<close>, which refuses a device.\<close>

definition tmpfs_new :: "cstr \<Rightarrow> vfs \<Rightarrow> nat \<times> vfs" where
  "tmpfs_new junk s = v_new (TmpDirectory ht_new) (slash_node junk) s"

definition tmpfs_load :: "cstr \<Rightarrow> nat option \<Rightarrow> vfs \<Rightarrow> nat option \<times> vfs" where
  "tmpfs_load junk dev s =
    (if dev \<noteq> None then (None, s) else let (root, s) = tmpfs_new junk s in (Some root, s))"

definition tmpfs_init :: "fixed_string \<Rightarrow> 'l \<Rightarrow> 'l registered_fs list \<Rightarrow> 'l registered_fs list" where
  "tmpfs_init junk load registry = add_fs (registered_fs_new junk (str_lit ''tmpfs'') load) registry"


subsection \<open>devfs\<close>

definition devfs_init :: "cstr \<Rightarrow> vfs \<Rightarrow> vfs" where
  "devfs_init junk s =
    (let s = s\<lparr>dev_head := None\<rparr>;
         (root, s) = v_new DevRoot (slash_node junk) s
     in s\<lparr>dev_root := root, dev_next := (dev_next s)(root := None)\<rparr>)"

definition dev_node_name :: "cstr \<Rightarrow> nat \<Rightarrow> cstr \<Rightarrow> cstr" where
  "dev_node_name name n junk =
    (let sz = (if n > 127 then 127 else n) in (\<lambda>i. if i < sz then name i else junk i)(sz := 0))"

definition dev_link :: "nat \<Rightarrow> vfs \<Rightarrow> vfs" where
  "dev_link node s =
    (case dev_head s of
       None \<Rightarrow> s\<lparr>dev_head := Some node\<rparr>
     | Some h \<Rightarrow> s\<lparr>dev_next := (dev_next s)(h := Some node)\<rparr>)"

text \<open>\<^verbatim>\<open>strlen\<close> of the name may not end; then neither does the call.\<close>

definition add_device :: "cstr \<Rightarrow> node_class \<Rightarrow> u32 \<Rightarrow> cstr \<Rightarrow> vfs \<Rightarrow> vfs option" where
  "add_device junk cls inode name s =
    (case strlen name of
       None \<Rightarrow> None
     | Some n \<Rightarrow>
         let node = (fs_node_new junk)\<lparr>nd_name := dev_node_name name n junk, nd_flags := FS_BLOCKDEVICE, nd_inode := inode\<rparr>;
             (nid, s) = v_new cls node s;
             s = s\<lparr>dev_next := (dev_next s)(nid := None)\<rparr>
         in Some (dev_link nid s))"

definition add_block_device :: "cstr \<Rightarrow> u32 \<Rightarrow> cstr \<Rightarrow> vfs \<Rightarrow> vfs option" where
  "add_block_device junk dev_id name s = add_device junk DevBlock dev_id name s"

definition add_char_device :: "cstr \<Rightarrow> nat \<Rightarrow> cstr \<Rightarrow> vfs \<Rightarrow> vfs option" where
  "add_char_device junk dev name s = add_device junk (DevCharacter dev) 0 name s"

partial_function (option) dev_find :: "vfs \<Rightarrow> cstr \<Rightarrow> nat \<Rightarrow> nat option \<Rightarrow> nat option option" where
  "dev_find s name len node =
    (if node = None then Some None
     else if strncmp (nd_name (v_node s (the node))) name len = 0 then Some node
     else dev_find s name len (dev_next s (the node)))"


subsection \<open>Lookup and mount\<close>

definition v_finddir :: "cstr \<Rightarrow> vfs \<Rightarrow> nat \<Rightarrow> cstr \<Rightarrow> int \<Rightarrow> nat option option" where
  "v_finddir junk s d name len =
    (case v_class s d of
       TmpDirectory t \<Rightarrow> tmp_finddir junk t name len
     | DevRoot \<Rightarrow> dev_find s name (nat len) (dev_head s)
     | _ \<Rightarrow> Some None)"

definition v_create_file :: "cstr \<Rightarrow> nat \<Rightarrow> cstr \<Rightarrow> int \<Rightarrow> vfs \<Rightarrow> (nat option \<times> vfs) option" where
  "v_create_file junk d name len s =
    (case v_class s d of
       TmpDirectory t \<Rightarrow>
         (case string_set junk (Some name) (unat (word_of_int len :: u32)) False (string_blank junk) of
            None \<Rightarrow> None
          | Some str \<Rightarrow>
              let (file, s) = v_new (TmpFile (tmp_file_new junk)) (fs_node_new junk) s
              in Some (Some file, s\<lparr>v_class := (v_class s)(d := TmpDirectory (tmp_create_file junk str file t))\<rparr>))
     | _ \<Rightarrow> Some (None, s))"

definition v_delegate :: "vfs \<Rightarrow> nat \<Rightarrow> nat option" where
  "v_delegate s d = nd_delegate (v_node s d)"

definition vfs_lookup :: "cstr \<Rightarrow> cstr \<Rightarrow> int \<Rightarrow> nat \<Rightarrow> vfs \<Rightarrow> (nat option \<times> vfs) option" where
  "vfs_lookup junk name len dir s = fs_lookup (v_finddir junk) (v_create_file junk) v_delegate name len dir s"

text \<open>
  \<open>load\<close> stands for the virtual \<^verbatim>\<open>load\<close> of a registered type and \<open>get_dev\<close> for
  \<^verbatim>\<open>block::registry.get\<close>.  The result is the return code and the new state.
\<close>

definition lookup_path :: "cstr \<Rightarrow> cstr \<Rightarrow> vfs \<Rightarrow> (nat option \<times> vfs) option" where
  "lookup_path junk path s =
    Option.bind (strlen path) (\<lambda>n. vfs_lookup junk (\<lambda>i. path (Suc i)) (int n - 1) (v_root s) s)"

definition mount_device :: "cstr \<Rightarrow> (u32 \<Rightarrow> nat option) \<Rightarrow> cstr option \<Rightarrow> vfs \<Rightarrow> (nat option option \<times> vfs) option" where
  "mount_device junk get_dev dev_name s =
    (case dev_name of
       None \<Rightarrow> Some (Some None, s)
     | Some path \<Rightarrow>
         Option.bind (lookup_path junk path s) (\<lambda>(node, s).
           case node of
             None \<Rightarrow> Some (None, s)
           | Some d \<Rightarrow>
               if nd_flags (v_node s d) \<noteq> FS_BLOCKDEVICE then Some (None, s)
               else (case get_dev (nd_inode (v_node s d)) of
                       None \<Rightarrow> Some (None, s)
                     | Some dev \<Rightarrow> Some (Some (Some dev), s))))"

definition mount :: "cstr \<Rightarrow> ('l \<Rightarrow> nat option \<Rightarrow> vfs \<Rightarrow> nat option \<times> vfs) \<Rightarrow> 'l registered_fs list
    \<Rightarrow> (u32 \<Rightarrow> nat option) \<Rightarrow> cstr \<Rightarrow> cstr \<Rightarrow> cstr option \<Rightarrow> vfs \<Rightarrow> (int \<times> vfs) option" where
  "mount junk load registry get_dev name ty dev_name s =
    Option.bind (lookup_path junk name s) (\<lambda>(node, s).
      case node of
        None \<Rightarrow> Some (- 1, s)
      | Some nid \<Rightarrow>
          Option.bind (registry_find ty registry) (\<lambda>fs.
            case fs of
              None \<Rightarrow> Some (- 1, s)
            | Some f \<Rightarrow>
                Option.bind (mount_device junk get_dev dev_name s) (\<lambda>(dev, s).
                  case dev of
                    None \<Rightarrow> Some (- 1, s)
                  | Some d \<Rightarrow>
                      (case load (rf_load f) d s of
                         (None, s) \<Rightarrow> Some (- 1, s)
                       | (Some root, s) \<Rightarrow>
                           Some (0, s\<lparr>v_node := (v_node s)(nid := (v_node s nid)\<lparr>nd_delegate := Some root\<rparr>)\<rparr>)))))"


subsection \<open>Path lookup, component by component\<close>

fun path_bytes :: "u8 list list \<Rightarrow> u8 list" where
  "path_bytes [] = []"
| "path_bytes [c] = c"
| "path_bytes (c # cs) = c @ 0x2F # path_bytes cs"

definition component_ok :: "u8 list \<Rightarrow> bool" where
  "component_ok c \<longleftrightarrow> c \<noteq> [] \<and> 0x2F \<notin> set c \<and> 0 \<notin> set c \<and> length c < 2 ^ 31"

text \<open>The specification of lookup on a list of names; \<open>enter\<close> follows a mount.\<close>

definition enter :: "('s \<Rightarrow> 'n \<Rightarrow> 'n option) \<Rightarrow> 's \<Rightarrow> 'n \<Rightarrow> 'n" where
  "enter delegate s d = (case delegate s d of Some r \<Rightarrow> r | None \<Rightarrow> d)"

fun walk :: "('s \<Rightarrow> 'n \<Rightarrow> u8 list \<Rightarrow> 'n option) \<Rightarrow> ('n \<Rightarrow> u8 list \<Rightarrow> 's \<Rightarrow> 'n option \<times> 's)
    \<Rightarrow> ('s \<Rightarrow> 'n \<Rightarrow> 'n option) \<Rightarrow> 'n \<Rightarrow> u8 list list \<Rightarrow> 's \<Rightarrow> 'n option \<times> 's" where
  "walk entry create delegate d [] s = (None, s)"
| "walk entry create delegate d [c] s =
    (case entry s (enter delegate s d) c of
       Some ch \<Rightarrow> (Some (enter delegate s ch), s)
     | None \<Rightarrow> create (enter delegate s d) c s)"
| "walk entry create delegate d (c # cs) s =
    (case entry s (enter delegate s d) c of Some ch \<Rightarrow> walk entry create delegate ch cs s | None \<Rightarrow> (None, s))"

lemma sub_length_component:
  assumes "\<And>k. k < length c \<Longrightarrow> name k = c ! k" "0x2F \<notin> set c" "int (length c) \<le> len"
    and "len = int (length c) \<or> name (length c) = 0x2F" and "i \<le> length c"
  shows "sub_length name len i = length c"
  using assms(5)
proof (induction "length c - i" arbitrary: i)
  case 0
  then have "i = length c" by simp
  then show ?case
    using assms(3,4) sub_length.simps [of name len "length c"] by auto
next
  case (Suc d)
  then have i: "i < length c" by simp
  then have "name i \<noteq> 0x2F" "int i < len"
    using assms(1) [OF i] assms(2,3) nth_mem [OF i] by (metis, linarith)
  then show ?case
    using Suc.hyps(1) [of "Suc i"] Suc.hyps(2) i sub_length.simps [of name len i] by simp
qed

locale name_space =
  fixes finddir :: "'s \<Rightarrow> 'n \<Rightarrow> cstr \<Rightarrow> int \<Rightarrow> 'n option option"
    and create_file :: "'n \<Rightarrow> cstr \<Rightarrow> int \<Rightarrow> 's \<Rightarrow> ('n option \<times> 's) option"
    and entry :: "'s \<Rightarrow> 'n \<Rightarrow> u8 list \<Rightarrow> 'n option"
    and create :: "'n \<Rightarrow> u8 list \<Rightarrow> 's \<Rightarrow> 'n option \<times> 's"
    and ok :: "'s \<Rightarrow> bool"
  assumes finddir_law: "ok s \<Longrightarrow> component_ok c \<Longrightarrow> (\<And>k. k < length c \<Longrightarrow> name k = c ! k) \<Longrightarrow>
      finddir s d name (int (length c)) = Some (entry s d c)"
    and create_law: "ok s \<Longrightarrow> component_ok c \<Longrightarrow> (\<And>k. k < length c \<Longrightarrow> name k = c ! k) \<Longrightarrow>
      create_file d name (int (length c)) s = Some (create d c s)"
begin

lemma lookup_walk:
  assumes "ok s" "cs \<noteq> []" "\<And>c. c \<in> set cs \<Longrightarrow> component_ok c"
    and "\<And>k. k < length (path_bytes cs) \<Longrightarrow> name k = path_bytes cs ! k"
  shows "fs_lookup finddir create_file delegate name (int (length (path_bytes cs))) d s
    = Some (walk entry create delegate d cs s)"
  using assms(2-)
proof (induction cs arbitrary: name d rule: path_bytes.induct)
  case (2 c)
  have c: "component_ok c" "\<And>k. k < length c \<Longrightarrow> name k = c ! k" using 2 by auto
  have sl: "sub_length name (int (length c)) 0 = length c"
    using sub_length_component [of c name "int (length c)" 0] c by (auto simp: component_ok_def)
  show ?case
    using finddir_law [OF assms(1) c] create_law [OF assms(1) c] sl
    by (subst fs_lookup.simps) (simp add: Let_def enter_def split: option.splits)
next
  case (3 c c' cs)
  let ?p = "path_bytes (c' # cs)" and ?len = "int (length (path_bytes (c # c' # cs)))"
  have c: "component_ok c" "\<And>k. k < length c \<Longrightarrow> name k = c ! k"
    using 3(3) 3(4) by (auto simp: nth_append)
  have "name (length c) = 0x2F"
    using 3(4) [of "length c"] by (simp add: nth_append)
  then have sl: "sub_length name ?len 0 = length c"
    using sub_length_component [of c name ?len 0] c by (auto simp: component_ok_def)
  have rest: "name (k + (length c + 1)) = ?p ! k" if "k < length ?p" for k
    using 3(4) [of "k + (length c + 1)"] that by (simp add: nth_append)
  have "fs_lookup finddir create_file delegate (\<lambda>i. name (i + (length c + 1))) (int (length ?p)) d' s
      = Some (walk entry create delegate d' (c' # cs) s)" for d'
    using 3(1) [of "\<lambda>i. name (i + (length c + 1))" d'] 3(3) rest by auto
  then show ?case
    using finddir_law [OF assms(1) c] sl
    by (subst fs_lookup.simps) (simp add: Let_def enter_def split: option.splits)
qed simp

end


subsection \<open>Names in directories\<close>

definition name_key :: "u8 list \<Rightarrow> kstring" where
  "name_key c = \<lparr>st_flags = eMalloc, st_size = length c, st_data = Some (\<lambda>i. c ! i), st_local = (\<lambda>_. 0)\<rparr>"

lemma string_data_key: "string_data (name_key c) = (\<lambda>i. c ! i)" "st_size (name_key c) = length c"
  by (simp_all add: name_key_def string_data_def eMalloc_def)

lemma string_bytes_key [simp]: "string_bytes (name_key c) = c"
  by (simp add: string_bytes_def string_data_key map_nth)

lemma strncmp_from_cong: "(\<And>j. j < len \<Longrightarrow> t j = t' j) \<Longrightarrow> strncmp_from s t len i = strncmp_from s t' len i"
proof (induction s t len i rule: strncmp_from.induct)
  case (1 s t len i)
  then show ?case
    using strncmp_from.simps [of s t len i] strncmp_from.simps [of s t' len i] by auto
qed

lemma strncmp_cong: "(\<And>j. j < len \<Longrightarrow> t j = t' j) \<Longrightarrow> strncmp s t len = strncmp s t' len"
  unfolding strncmp_def by (rule strncmp_from_cong)

lemma string_bytes_eq:
  "string_bytes a = string_bytes b \<longleftrightarrow> st_size a = st_size b \<and> (\<forall>i < st_size a. string_data a i = string_data b i)"
  by (auto simp: string_bytes_def list_eq_iff_nth_eq)

lemma fetch_bytes:
  assumes "string_bytes k = string_bytes k'"
  shows "ht_fetch oo_hash_string string_eq k t = ht_fetch oo_hash_string string_eq k' t"
proof -
  have "string_eq a k = string_eq a k'" for a
    using assms strncmp_cong [of "st_size a" "string_data k" "string_data k'"]
    by (auto simp: string_eq_def string_bytes_eq)
  then have "chain_fetch string_eq k chain = chain_fetch string_eq k' chain" for chain :: "(kstring \<times> 'a) list"
    by (induction chain) auto
  then show ?thesis
    using assms by (simp add: ht_fetch_def oo_hash_string_def string_hash_bytes)
qed

lemma string_copy_bytes:
  assumes "string_bytes a = string_bytes b"
  shows "string_copy junk a s = string_copy junk b s"
proof -
  have "copy_terminated (string_data a) (st_size a) old = copy_terminated (string_data b) (st_size b) old" for old
    using assms by (auto simp: copy_terminated_def string_bytes_eq)
  then show ?thesis
    using assms by (simp add: string_copy_def Let_def string_bytes_eq)
qed

lemma component_string:
  assumes "component_ok c" "\<And>k. k < length c \<Longrightarrow> name k = c ! k"
  obtains str where "string_set junk (Some name) (unat (word_of_int (int (length c)) :: u32)) False s = Some str"
    "string_bytes str = c"
proof -
  have n: "unat (word_of_int (int (length c)) :: u32) = length c" "0 < length c"
    using assms(1) unat_of_nat_u32 [of "length c"] by (auto simp: component_ok_def)
  obtain str where str: "string_set junk (Some name) (length c) False s = Some str"
    using n(2) by (auto simp: string_set_def)
  have "map name [0..<length c] = c"
    using assms(2) by (intro nth_equalityI) auto
  then show ?thesis
    using that str string_bytes_set(1) [OF str n(2)] n(1) by simp
qed

text \<open>The device nodes that are reached from \<^verbatim>\<open>head_\<close>.\<close>

fun dev_seg :: "vfs \<Rightarrow> nat option \<Rightarrow> nat list \<Rightarrow> bool" where
  "dev_seg s p [] \<longleftrightarrow> p = None"
| "dev_seg s p (n # ns) \<longleftrightarrow> p = Some n \<and> dev_seg s (dev_next s n) ns"

fun dev_list :: "nat \<Rightarrow> vfs \<Rightarrow> nat option \<Rightarrow> nat list" where
  "dev_list 0 s p = []"
| "dev_list (Suc k) s p = (case p of None \<Rightarrow> [] | Some n \<Rightarrow> n # dev_list k s (dev_next s n))"

definition devs_ok :: "vfs \<Rightarrow> bool" where
  "devs_ok s \<longleftrightarrow> dev_seg s (dev_head s) (dev_list (v_next s) s (dev_head s))"

lemma dev_find_seg:
  "dev_seg s p ns \<Longrightarrow> dev_find s name len p = Some (find (\<lambda>n. strncmp (nd_name (v_node s n)) name len = 0) ns)"
  by (induction ns arbitrary: p) (subst dev_find.simps, auto)+

definition v_entry :: "vfs \<Rightarrow> nat \<Rightarrow> u8 list \<Rightarrow> nat option" where
  "v_entry s d c =
    (case v_class s d of
       TmpDirectory t \<Rightarrow> ht_fetch oo_hash_string string_eq (name_key c) t
     | DevRoot \<Rightarrow> find (\<lambda>n. strncmp (nd_name (v_node s n)) (\<lambda>i. c ! i) (length c) = 0)
                    (dev_list (v_next s) s (dev_head s))
     | _ \<Rightarrow> None)"

definition v_create :: "cstr \<Rightarrow> nat \<Rightarrow> u8 list \<Rightarrow> vfs \<Rightarrow> nat option \<times> vfs" where
  "v_create junk d c s =
    (case v_class s d of
       TmpDirectory t \<Rightarrow>
         let (file, s) = v_new (TmpFile (tmp_file_new junk)) (fs_node_new junk) s
         in (Some file, s\<lparr>v_class := (v_class s)(d := TmpDirectory (tmp_create_file junk (name_key c) file t))\<rparr>)
     | _ \<Rightarrow> (None, s))"

lemma v_finddir_entry:
  assumes "devs_ok s" "component_ok c" "\<And>k. k < length c \<Longrightarrow> name k = c ! k"
  shows "v_finddir junk s d name (int (length c)) = Some (v_entry s d c)"
proof (cases "v_class s d")
  case (TmpDirectory t)
  obtain str where str: "string_set junk (Some name) (unat (word_of_int (int (length c)) :: u32)) False (string_blank junk) = Some str"
    "string_bytes str = c"
    using component_string [OF assms(2,3)] by blast
  have "string_bytes (string_copy junk str (string_blank junk)) = string_bytes (name_key c)"
    using str(2) by (simp add: string_bytes_copy)
  from fetch_bytes [OF this, of t] show ?thesis
    using TmpDirectory str(1) by (simp add: v_finddir_def v_entry_def tmp_finddir_def)
next
  case DevRoot
  then show ?thesis
    using assms(1) strncmp_cong [of "length c" name "\<lambda>i. c ! i"] assms(3)
    by (simp add: v_finddir_def v_entry_def devs_ok_def dev_find_seg)
qed (simp_all add: v_finddir_def v_entry_def)

lemma v_create_file_create:
  assumes "component_ok c" "\<And>k. k < length c \<Longrightarrow> name k = c ! k"
  shows "v_create_file junk d name (int (length c)) s = Some (v_create junk d c s)"
proof (cases "v_class s d")
  case (TmpDirectory t)
  obtain str where str: "string_set junk (Some name) (unat (word_of_int (int (length c)) :: u32)) False (string_blank junk) = Some str"
    "string_bytes str = c"
    using component_string [OF assms] by blast
  have "string_copy junk str (string_blank junk) = string_copy junk (name_key c) (string_blank junk)"
    using str(2) by (intro string_copy_bytes) simp
  then show ?thesis
    using TmpDirectory str(1) by (simp add: v_create_file_def v_create_def tmp_create_file_def v_new_def)
qed (simp_all add: v_create_file_def v_create_def)

interpretation vfs_names: name_space "v_finddir junk" "v_create_file junk" v_entry "v_create junk" devs_ok
  by unfold_locales (simp_all add: v_finddir_entry v_create_file_create)


subsection \<open>Properties\<close>

lemma lookup_path_run:
  assumes "is_cstr path (0x2F # path_bytes cs)" "cs \<noteq> []" "\<forall>c \<in> set cs. component_ok c" "devs_ok s"
  shows "lookup_path junk path s = Some (walk v_entry (v_create junk) v_delegate (v_root s) cs s)"
proof -
  have "strlen path = Some (Suc (length (path_bytes cs)))"
    using strlen_correct [OF assms(1)] by simp
  moreover have "path (Suc k) = path_bytes cs ! k" if "k < length (path_bytes cs)" for k
    using is_cstr_nth [OF assms(1), of "Suc k"] that by simp
  ultimately show ?thesis
    using vfs_names.lookup_walk [OF assms(4,2), of "\<lambda>i. path (Suc i)"] assms(3)
    by (simp add: lookup_path_def vfs_lookup_def)
qed

text \<open>
  C12: Looking up an absolute path refines the walk over its components: at every step the
  directory (or the root of the file system mounted on it) is asked for the exact
  component, the last component is created when it is missing, and a missing inner
  component gives the null node.
\<close>

theorem lookup_path_walk:
  assumes "is_cstr path (0x2F # path_bytes cs)" "cs \<noteq> []" "\<forall>c \<in> set cs. component_ok c" "devs_ok s"
  shows "lookup_path junk path s = Some (walk v_entry (v_create junk) v_delegate (v_root s) cs s)"
  using assms by (rule lookup_path_run)

definition demo_vfs :: vfs where
  "demo_vfs = \<lparr>v_node = (\<lambda>_. fs_node_new (\<lambda>_. 0)), v_class = (\<lambda>n. if n = 0 then TmpDirectory ht_new else OtherNode),
     v_next = 1, v_root = 0, dev_head = None, dev_root = 0, dev_next = (\<lambda>_. None)\<rparr>"

definition demo_path :: cstr where
  "demo_path i = (if i = 0 then 0x2F else if i = 1 then 0x61 else 0)"

lemma demo_path_ok: "is_cstr demo_path (0x2F # path_bytes [[0x61]])" "component_ok [0x61]" "devs_ok demo_vfs"
  by (auto simp: is_cstr_def demo_path_def component_ok_def devs_ok_def demo_vfs_def less_Suc_eq)

theorem lookup_path_walk_witness:
  "lookup_path (\<lambda>_. 0) demo_path demo_vfs = Some (walk v_entry (v_create (\<lambda>_. 0)) v_delegate 0 [[0x61]] demo_vfs)"
  using lookup_path_walk [OF demo_path_ok(1) _ _ demo_path_ok(3)] demo_path_ok(2) by (simp add: demo_vfs_def)

lemma dev_list_None [simp]: "dev_list n s None = []"
  by (cases n) simp_all

lemma fetch_created:
  assumes inv: "ht_inv oo_hash_string string_eq string_ok t" "ht_bins t < 2 ^ 31" and c: "component_ok c"
  shows "ht_fetch oo_hash_string string_eq (name_key c) (tmp_create_file junk (name_key c) n t) = Some n"
proof -
  have k: "string_ok (string_copy junk (name_key c) (string_blank junk))"
    using c by (simp add: string_ok_def string_bytes_copy component_ok_def)
  then show ?thesis
    using string_keys.store_spec [OF inv(1) k inv(2), of n]
      fetch_bytes [of "name_key c" "string_copy junk (name_key c) (string_blank junk)"]
    unfolding tmp_create_file_def string_bytes_copy by (metis string_bytes_copy)
qed

text \<open>
  Opening a path that does not exist yet, in a \<^verbatim>\<open>tmpfs\<close> root, creates an empty file node, and a
  second lookup of the same path finds that same node and changes nothing.
\<close>

lemma lookup_creates_once:
  assumes path: "is_cstr path (0x2F # c)" and c: "component_ok c" and devs: "devs_ok s"
    and root: "v_class s (v_root s) = TmpDirectory t" "v_delegate s (v_root s) = None" "v_root s < v_next s"
    and inv: "ht_inv oo_hash_string string_eq string_ok t" "ht_bins t < 2 ^ 31"
    and new: "v_entry s (v_root s) c = None" and dev: "dev_head s = None"
  shows "\<exists>s'. lookup_path junk path s = Some (Some (v_next s), s')
    \<and> v_class s' (v_next s) = TmpFile (tmp_file_new junk)
    \<and> lookup_path junk path s' = Some (Some (v_next s), s')"
proof -
  define t' where "t' = tmp_create_file junk (name_key c) (v_next s) t"
  define s' where "s' = s\<lparr>v_node := (v_node s)(v_next s := fs_node_new junk), v_next := Suc (v_next s),
    v_class := (v_class s)(v_next s := TmpFile (tmp_file_new junk), v_root s := TmpDirectory t')\<rparr>"
  have w: "lookup_path junk path u = Some (walk v_entry (v_create junk) v_delegate (v_root u) [c] u)" if "devs_ok u" for u
    using lookup_path_run [of path "[c]" u] path c that by simp
  have first: "lookup_path junk path s = Some (Some (v_next s), s')"
    using w [OF devs] root new by (simp add: enter_def v_create_def v_new_def s'_def t'_def)
  have "ht_fetch oo_hash_string string_eq (name_key c) t' = Some (v_next s)"
    using fetch_created [OF inv c] by (simp add: t'_def)
  then have "v_entry s' (v_root s') c = Some (v_next s)"
    by (simp add: v_entry_def s'_def)
  moreover have "v_delegate s' (v_root s') = None" "v_delegate s' (v_next s) = None" "devs_ok s'"
    using root dev by (auto simp: v_delegate_def s'_def fs_node_new_def devs_ok_def)
  ultimately have "lookup_path junk path s' = Some (Some (v_next s), s')"
    using w by (simp add: enter_def)
  then show ?thesis
    using first root(3) by (intro exI [of _ s']) (simp add: s'_def)
qed

text \<open>
  The node a path leads to before a mount on it is followed, and the nodes on the way to it, each
  before the mount on it is followed.
\<close>

fun path_to :: "vfs \<Rightarrow> nat \<Rightarrow> u8 list list \<Rightarrow> nat option" where
  "path_to s d [] = Some d"
| "path_to s d (c # cs) = Option.bind (v_entry s (enter v_delegate s d) c) (\<lambda>ch. path_to s ch cs)"

fun trail :: "vfs \<Rightarrow> nat \<Rightarrow> u8 list list \<Rightarrow> nat list" where
  "trail s d [] = []"
| "trail s d (c # cs) = d # (case v_entry s (enter v_delegate s d) c of None \<Rightarrow> [] | Some ch \<Rightarrow> trail s ch cs)"

lemma walk_path_to: "path_to s d cs = Some n \<Longrightarrow> cs \<noteq> [] \<Longrightarrow> walk v_entry create v_delegate d cs s = (Some (enter v_delegate s n), s)"
proof (induction s d cs rule: path_to.induct)
  case (2 s d c cs)
  then show ?case
    by (cases cs) (auto split: bind_splits)
qed simp

text \<open>Every node that can be reached is allocated.\<close>

definition vfs_ok :: "vfs \<Rightarrow> bool" where
  "vfs_ok s \<longleftrightarrow> devs_ok s \<and> v_root s < v_next s \<and> (\<forall>x \<in> set (dev_list (v_next s) s (dev_head s)). x < v_next s)
     \<and> (\<forall>d < v_next s. \<forall>c n. v_entry s d c = Some n \<longrightarrow> n < v_next s)
     \<and> (\<forall>d < v_next s. \<forall>r. v_delegate s d = Some r \<longrightarrow> r < v_next s)"

lemma vfs_okD:
  assumes "vfs_ok s"
  shows "devs_ok s" "v_root s < v_next s" "\<And>x. x \<in> set (dev_list (v_next s) s (dev_head s)) \<Longrightarrow> x < v_next s"
    "\<And>d c n. d < v_next s \<Longrightarrow> v_entry s d c = Some n \<Longrightarrow> n < v_next s" "\<And>d r. d < v_next s \<Longrightarrow> v_delegate s d = Some r \<Longrightarrow> r < v_next s"
  using assms unfolding vfs_ok_def by blast+

lemma vfs_ok_enter: "vfs_ok s \<Longrightarrow> d < v_next s \<Longrightarrow> enter v_delegate s d < v_next s"
  using vfs_okD(5) by (cases "v_delegate s d") (simp_all add: enter_def)

lemma dev_list_Suc: "dev_seg s p (dev_list n s p) \<Longrightarrow> dev_list (Suc n) s p = dev_list n s p"
proof (induction n arbitrary: p)
  case (Suc n)
  then show ?case
    by (cases p) (auto simp del: dev_list.simps(2) simp: dev_list.simps(2) [of n] dev_list.simps(2) [of "Suc n"])
qed simp

lemma dev_list_next: "dev_next s' = dev_next s \<Longrightarrow> dev_list n s' p = dev_list n s p"
  by (induction n arbitrary: p) (auto split: option.split)

lemma dev_seg_next: "dev_next s' = dev_next s \<Longrightarrow> dev_seg s' p ns = dev_seg s p ns"
  by (induction ns arbitrary: p) auto

text \<open>The state after a fresh \<^verbatim>\<open>tmpfs\<close> was made and put on the node \<open>t\<close>.\<close>

definition mounted :: "cstr \<Rightarrow> nat \<Rightarrow> vfs \<Rightarrow> vfs" where
  "mounted junk t s = (let s1 = snd (tmpfs_new junk s)
    in s1\<lparr>v_node := (v_node s1)(t := (v_node s1 t)\<lparr>nd_delegate := Some (v_next s)\<rparr>)\<rparr>)"

lemma mounted_fields:
  "v_next (mounted junk t s) = Suc (v_next s)" "v_root (mounted junk t s) = v_root s" "dev_head (mounted junk t s) = dev_head s"
  "dev_next (mounted junk t s) = dev_next s" "v_class (mounted junk t s) = (v_class s)(v_next s := TmpDirectory ht_new)"
  by (simp_all add: mounted_def tmpfs_new_def v_new_def Let_def)

lemma mounted_node:
  assumes "t < v_next s" "d < v_next s"
  shows "v_delegate (mounted junk t s) d = (if d = t then Some (v_next s) else v_delegate s d)"
    "nd_name (v_node (mounted junk t s) d) = nd_name (v_node s d)"
  using assms by (auto simp: mounted_def tmpfs_new_def v_new_def v_delegate_def Let_def)

lemma mounted_root: "t < v_next s \<Longrightarrow> v_delegate (mounted junk t s) (v_next s) = None"
  by (auto simp: mounted_def tmpfs_new_def v_new_def v_delegate_def slash_node_def Let_def)

lemma mounted_devs:
  assumes "vfs_ok s"
  shows "dev_list (v_next (mounted junk t s)) (mounted junk t s) (dev_head (mounted junk t s)) = dev_list (v_next s) s (dev_head s)"
  using assms dev_list_Suc [of s "dev_head s" "v_next s"] unfolding mounted_fields dev_list_next [OF mounted_fields(4)]
  by (simp add: devs_ok_def [symmetric] vfs_okD)

lemma mounted_entry:
  assumes "vfs_ok s" "t < v_next s"
  shows "v_entry (mounted junk t s) d c = (if d = v_next s then None else v_entry s d c)"
proof -
  have "find (\<lambda>n. strncmp (nd_name (v_node (mounted junk t s) n)) (\<lambda>i. c ! i) (length c) = 0) (dev_list (v_next s) s (dev_head s))
      = find (\<lambda>n. strncmp (nd_name (v_node s n)) (\<lambda>i. c ! i) (length c) = 0) (dev_list (v_next s) s (dev_head s))"
    by (rule find_cong) (simp_all add: mounted_node(2) [OF assms(2)] vfs_okD(3) [OF assms(1)])
  moreover have "ht_fetch oo_hash_string string_eq (name_key c) (ht_new :: tmp_dir) = None"
    by (simp add: ht_fetch_def ht_new_def)
  ultimately show ?thesis
    unfolding v_entry_def mounted_devs [OF assms(1)] by (simp add: mounted_fields split: node_class.split)
qed

lemma mounted_ok:
  assumes "vfs_ok s" "t < v_next s"
  shows "vfs_ok (mounted junk t s)"
  unfolding vfs_ok_def mounted_devs [OF assms(1)]
proof (intro conjI ballI allI impI)
  show "devs_ok (mounted junk t s)"
    using vfs_okD(1) [OF assms(1)]
    unfolding devs_ok_def mounted_devs [OF assms(1)] by (simp add: dev_seg_next [OF mounted_fields(4)] mounted_fields(3))
  show "r < v_next (mounted junk t s)" if "d < v_next (mounted junk t s)" "v_delegate (mounted junk t s) d = Some r" for d r
    using that mounted_root [OF assms(2), of junk] mounted_node(1) [OF assms(2), of d junk] vfs_okD(5) [OF assms(1), of d r]
    by (cases "d = v_next s") (auto simp: mounted_fields split: if_splits)
  show "n < v_next (mounted junk t s)" if "d < v_next (mounted junk t s)" "v_entry (mounted junk t s) d c = Some n" for d c n
    using that vfs_okD(4) [OF assms(1), of d c n] mounted_entry [OF assms, of junk d c] by (auto simp: mounted_fields split: if_splits)
qed (use vfs_okD(2,3) [OF assms(1)] in \<open>auto simp: mounted_fields intro: less_SucI\<close>)

lemma mounted_path:
  assumes "vfs_ok s" "t < v_next s"
  shows "d < v_next s \<Longrightarrow> t \<notin> set (trail s d cs) \<Longrightarrow> path_to s d cs = Some n
    \<Longrightarrow> path_to (mounted junk t s) d cs = Some n \<and> n < v_next s"
proof (induction cs arbitrary: d)
  case (Cons c cs)
  then obtain ch where ch: "v_entry s (enter v_delegate s d) c = Some ch" "path_to s ch cs = Some n"
    by (auto split: bind_splits)
  have e: "enter v_delegate s d < v_next s"
    using vfs_ok_enter [OF assms(1) Cons.prems(1)] .
  moreover have "enter v_delegate (mounted junk t s) d = enter v_delegate s d"
    using Cons.prems mounted_node(1) [OF assms(2) Cons.prems(1), of junk] by (simp add: enter_def)
  moreover have "ch < v_next s"
    using vfs_okD(4) [OF assms(1) e ch(1)] .
  ultimately show ?case
    using Cons.IH [of ch] Cons.prems(2) ch mounted_entry [OF assms, of junk "enter v_delegate s d" c] by simp
qed (simp add: assms)

lemma path_to_allocated: "vfs_ok s \<Longrightarrow> d < v_next s \<Longrightarrow> path_to s d cs = Some n \<Longrightarrow> n < v_next s"
proof (induction cs arbitrary: d)
  case (Cons c cs)
  then obtain ch where ch: "v_entry s (enter v_delegate s d) c = Some ch" "path_to s ch cs = Some n"
    by (auto split: bind_splits)
  have "ch < v_next s"
    using vfs_okD(4) [OF Cons.prems(1) vfs_ok_enter [OF Cons.prems(1,2)] ch(1)] .
  then show ?case
    using Cons.IH [OF Cons.prems(1) _ ch(2)] by simp
qed simp

lemma mount_run:
  assumes path: "is_cstr path (0x2F # path_bytes cs)" "cs \<noteq> []" "\<forall>c \<in> set cs. component_ok c" and ok: "vfs_ok s"
    and ty: "registry_find ty registry = Some (Some f)" "load (rf_load f) = tmpfs_load junk"
    and node: "path_to s (v_root s) cs = Some nid" and t: "t = enter v_delegate s nid" "t \<notin> set (trail s (v_root s) cs)"
  shows "mount junk load registry get_dev path ty None s = Some (0, mounted junk t s)"
    and "lookup_path junk path (mounted junk t s) = Some (Some (enter v_delegate (mounted junk t s) nid), mounted junk t s)"
    and "vfs_ok (mounted junk t s)" "nid < v_next s" "t < v_next s"
proof -
  have root: "v_root s < v_next s" and devs: "devs_ok s"
    using vfs_okD(1,2) [OF ok] by simp_all
  show nid: "nid < v_next s"
    using path_to_allocated [OF ok root node] .
  show tn: "t < v_next s"
    using vfs_ok_enter [OF ok nid] t(1) by simp
  show ok': "vfs_ok (mounted junk t s)"
    using mounted_ok [OF ok tn] .
  have "lookup_path junk path s = Some (Some t, s)"
    using lookup_path_run [OF path devs, of junk] walk_path_to [OF node path(2)] t(1) by simp
  then show "mount junk load registry get_dev path ty None s = Some (0, mounted junk t s)"
    using ty by (simp add: mount_def mount_device_def tmpfs_load_def tmpfs_new_def v_new_def mounted_def Let_def)
  have "devs_ok (mounted junk t s)"
    using vfs_okD(1) [OF ok'] .
  from lookup_path_run [OF path this, of junk] show "lookup_path junk path (mounted junk t s)
      = Some (Some (enter v_delegate (mounted junk t s) nid), mounted junk t s)"
    using walk_path_to [OF conjunct1 [OF mounted_path [OF ok tn root t(2) node]] path(2)] by (simp add: mounted_fields)
qed

text \<open>
  C23: Mounting a fresh \<^verbatim>\<open>tmpfs\<close> on an existing path of any depth takes effect, if the node it leads to carries no mount yet and is not passed on the
  way to itself: \<^verbatim>\<open>mount\<close> returns 0, the path then leads to the empty root of the new file system, and every reachable node is still allocated.
\<close>

theorem mount_takes_effect:
  assumes path: "is_cstr path (0x2F # path_bytes cs)" "cs \<noteq> []" "\<forall>c \<in> set cs. component_ok c" and ok: "vfs_ok s"
    and ty: "registry_find ty registry = Some (Some f)" "load (rf_load f) = tmpfs_load junk"
    and node: "path_to s (v_root s) cs = Some nid" "v_delegate s nid = None" "nid \<notin> set (trail s (v_root s) cs)"
  shows "\<exists>s'. mount junk load registry get_dev path ty None s = Some (0, s')
    \<and> lookup_path junk path s' = Some (Some (v_next s), s') \<and> v_class s' (v_next s) = TmpDirectory ht_new \<and> vfs_ok s'"
proof -
  have "nid = enter v_delegate s nid"
    using node(2) by (simp add: enter_def)
  note run = mount_run [where load = load and f = f and junk = junk, OF path ok ty node(1) this node(3)]
  have "enter v_delegate (mounted junk nid s) nid = v_next s"
    using mounted_node(1) [OF run(5,4), of junk] by (simp add: enter_def)
  then show ?thesis
    using run by (auto simp: mounted_fields)
qed

text \<open>
  C24: Mounting a second time on the same path reports success and has no effect on lookup: the path
  still leads to the root \<open>r\<close> mounted first, since only one mount is followed.  The second mount is put on \<open>r\<close>, which must
  differ from the node of the path and from the nodes on the way to it.
\<close>

theorem mount_twice_hidden:
  assumes path: "is_cstr path (0x2F # path_bytes cs)" "cs \<noteq> []" "\<forall>c \<in> set cs. component_ok c" and ok: "vfs_ok s"
    and ty: "registry_find ty registry = Some (Some f)" "load (rf_load f) = tmpfs_load junk"
    and node: "path_to s (v_root s) cs = Some nid" "v_delegate s nid = Some r" "r \<noteq> nid" "r \<notin> set (trail s (v_root s) cs)"
  shows "\<exists>s'. mount junk load registry get_dev path ty None s = Some (0, s')
    \<and> lookup_path junk path s' = Some (Some r, s') \<and> v_delegate s' r = Some (v_next s) \<and> vfs_ok s'"
proof -
  have "r = enter v_delegate s nid"
    using node(2) by (simp add: enter_def)
  note run = mount_run [where load = load and f = f and junk = junk, OF path ok ty node(1) this node(4)]
  have "enter v_delegate (mounted junk r s) nid = r" "v_delegate (mounted junk r s) r = Some (v_next s)"
    using mounted_node(1) [OF run(5,4), of junk] mounted_node(1) [OF run(5,5), of junk] node(2,3) by (simp_all add: enter_def)
  then show ?thesis
    using run by auto
qed

text \<open>
  A state in which \<^verbatim>\<open>/a\<close> carries a \<^verbatim>\<open>tmpfs\<close> with an entry \<^verbatim>\<open>b\<close> and a device is registered; \<^verbatim>\<open>/a/b\<close> is node 3, with or without a mount on it.
\<close>

definition demo_mounts :: "nat option \<Rightarrow> vfs" where
  "demo_mounts del = \<lparr>v_node = (\<lambda>n. (fs_node_new (\<lambda>_. 0))\<lparr>nd_delegate := if n = 1 then Some 2 else if n = 3 then del else None\<rparr>),
     v_class = (\<lambda>n. if n = 0 then TmpDirectory (tmp_create_file (\<lambda>_. 0) (name_key [0x61]) 1 ht_new)
       else if n = 2 then TmpDirectory (tmp_create_file (\<lambda>_. 0) (name_key [0x62]) 3 ht_new)
       else if n = 4 then DevBlock else OtherNode),
     v_next = 6, v_root = 0, dev_head = Some 4, dev_root = 5, dev_next = (\<lambda>_. None)\<rparr>"

definition demo_registry :: "unit registered_fs list" where
  "demo_registry = add_fs \<lparr>rf_name = \<lparr>fx_data = str_lit ''tmpfs'', fx_size = 5\<rparr>, rf_load = ()\<rparr> []"

definition demo_deep_path :: cstr where
  "demo_deep_path i = (if i = 0 then 0x2F else if i = 1 then 0x61 else if i = 2 then 0x2F else if i = 3 then 0x62 else 0)"

lemma demo_deep_path_ok: "is_cstr demo_deep_path (0x2F # path_bytes [[0x61], [0x62]])" "\<forall>c \<in> set [[0x61], [0x62]]. component_ok c"
  by (auto simp: is_cstr_def demo_deep_path_def component_ok_def less_Suc_eq)

lemma demo_mounts_fields:
  "v_root (demo_mounts del) = 0" "v_next (demo_mounts del) = 6" "dev_head (demo_mounts del) = Some 4"
  "v_delegate (demo_mounts del) n = (if n = 1 then Some 2 else if n = 3 then del else None)"
  by (simp_all add: demo_mounts_def v_delegate_def)

lemma fetch_single: "ht_fetch oo_hash_string string_eq k (tmp_create_file junk str n ht_new) = Some m \<Longrightarrow> m = n"
  by (auto simp: tmp_create_file_def ht_store_def ht_new_def ht_fetch_def max_density_p_def ht_MinSize_def Let_def split: if_splits)

lemma demo_mounts_entry:
  "v_entry (demo_mounts del) 0 [0x61] = Some 1" "v_entry (demo_mounts del) 2 [0x62] = Some 3"
  "v_entry (demo_mounts del) d c = Some n \<Longrightarrow> n < 6"
proof -
  have b: "ht_bins (ht_new :: tmp_dir) < 2 ^ 31" by (simp add: ht_new_def ht_MinSize_def)
  then show "v_entry (demo_mounts del) 0 [0x61] = Some 1" "v_entry (demo_mounts del) 2 [0x62] = Some 3"
    using fetch_created [OF string_keys.inv_new b, of "[0x61]" "\<lambda>_. 0" 1] fetch_created [OF string_keys.inv_new b, of "[0x62]" "\<lambda>_. 0" 3]
      demo_deep_path_ok(2) by (simp_all add: v_entry_def demo_mounts_def)
  show "v_entry (demo_mounts del) d c = Some n \<Longrightarrow> n < 6"
    by (auto simp: v_entry_def demo_mounts_def dest!: fetch_single split: if_splits)
qed

lemma demo_mounts_ok: "del \<in> {None, Some 5} \<Longrightarrow> vfs_ok (demo_mounts del)"
proof -
  assume del: "del \<in> {None, Some 5}"
  have "dev_list 6 (demo_mounts del) (Some 4) = [4]"
    by (simp add: demo_mounts_def eval_nat_numeral)
  then show ?thesis
    using del demo_mounts_entry(3) unfolding vfs_ok_def devs_ok_def
    by (auto simp: demo_mounts_fields split: if_splits) (simp_all add: demo_mounts_def)
qed

lemma demo_registry_find:
  "registry_find (str_lit ''tmpfs'') demo_registry = Some (Some \<lparr>rf_name = \<lparr>fx_data = str_lit ''tmpfs'', fx_size = 5\<rparr>, rf_load = ()\<rparr>)"
proof -
  have "is_cstr (str_lit ''tmpfs'') (map of_char ''tmpfs'')" by (rule is_cstr_lit) simp
  then show ?thesis
    by (simp add: demo_registry_def add_fs_def fixed_eq_correct)
qed

theorem mount_takes_effect_witness:
  "\<exists>s'. mount (\<lambda>_. 0) (\<lambda>_. tmpfs_load (\<lambda>_. 0)) demo_registry (\<lambda>_. None) demo_deep_path (str_lit ''tmpfs'') None (demo_mounts None)
      = Some (0, s') \<and> lookup_path (\<lambda>_. 0) demo_deep_path s' = Some (Some 6, s')"
  using mount_takes_effect [of demo_deep_path "[[0x61], [0x62]]" "demo_mounts None" "str_lit ''tmpfs''" demo_registry _
      "\<lambda>_. tmpfs_load (\<lambda>_. 0)" "\<lambda>_. 0" 3 "\<lambda>_. None"] demo_mounts_ok [of None] demo_registry_find demo_deep_path_ok
  by (auto simp: demo_mounts_fields demo_mounts_entry enter_def)

theorem mount_twice_hidden_witness:
  "\<exists>s'. mount (\<lambda>_. 0) (\<lambda>_. tmpfs_load (\<lambda>_. 0)) demo_registry (\<lambda>_. None) demo_deep_path (str_lit ''tmpfs'') None (demo_mounts (Some 5))
      = Some (0, s') \<and> lookup_path (\<lambda>_. 0) demo_deep_path s' = Some (Some 5, s')"
  using mount_twice_hidden [of demo_deep_path "[[0x61], [0x62]]" "demo_mounts (Some 5)" "str_lit ''tmpfs''" demo_registry _
      "\<lambda>_. tmpfs_load (\<lambda>_. 0)" "\<lambda>_. 0" 3 5 "\<lambda>_. None"] demo_mounts_ok [of "Some 5"] demo_registry_find demo_deep_path_ok
  by (auto simp: demo_mounts_fields demo_mounts_entry enter_def)


subsection \<open>Devices\<close>

fun add_devices :: "cstr \<Rightarrow> (node_class \<times> u32 \<times> cstr) list \<Rightarrow> vfs \<Rightarrow> vfs option" where
  "add_devices junk [] s = Some s"
| "add_devices junk ((cls, inode, name) # ds) s = Option.bind (add_device junk cls inode name s) (add_devices junk ds)"

text \<open>The chain of device nodes from \<^verbatim>\<open>head_\<close> after \<open>n\<close> devices, the first of them node \<open>h\<close>.\<close>

definition dev_state :: "nat \<Rightarrow> nat \<Rightarrow> vfs \<Rightarrow> bool" where
  "dev_state h n s \<longleftrightarrow> v_next s = h + n \<and>
    dev_seg s (dev_head s) (if n = 0 then [] else if n = 1 then [h] else [h, h + n - 1])"

lemma add_device_state:
  assumes "dev_state h n s" "strlen name = Some l"
  shows "\<exists>s'. add_device junk cls inode name s = Some s' \<and> dev_state h (Suc n) s'"
  using assms by (auto simp: dev_state_def add_device_def v_new_def dev_link_def Let_def split: if_splits)

lemma add_devices_state:
  assumes "dev_state h n s" "\<forall>d \<in> set ds. strlen (snd (snd d)) \<noteq> None"
  shows "\<exists>s'. add_devices junk ds s = Some s' \<and> dev_state h (n + length ds) s'"
  using assms
proof (induction ds arbitrary: n s)
  case (Cons d ds)
  obtain cls inode name where d: "d = (cls, inode, name)" by (cases d) auto
  obtain l where "strlen name = Some l" using Cons.prems(2) d by auto
  then obtain s1 where s1: "add_device junk cls inode name s = Some s1" "dev_state h (Suc n) s1"
    using add_device_state Cons.prems(1) by blast
  then show ?case
    using Cons.IH [OF s1(2)] Cons.prems(2) d by auto
qed auto

text \<open>
  C29: Of the devices added to \<^verbatim>\<open>devfs\<close>, only the first and the last can be found: each further device
  replaces the previous one behind the head of the chain.
\<close>

theorem devfs_first_and_last:
  assumes "2 \<le> length ds" "\<forall>d \<in> set ds. strlen (snd (snd d)) \<noteq> None"
  shows "\<exists>s'. add_devices junk ds (devfs_init junk s) = Some s'
    \<and> dev_list (v_next s') s' (dev_head s') = [Suc (v_next s), v_next s + length ds]
    \<and> (\<forall>name len nid. dev_find s' name len (dev_head s') = Some (Some nid) \<longrightarrow>
         nid = Suc (v_next s) \<or> nid = v_next s + length ds)"
proof -
  have "dev_state (Suc (v_next s)) 0 (devfs_init junk s)"
    by (simp add: dev_state_def devfs_init_def v_new_def)
  then obtain s' where s': "add_devices junk ds (devfs_init junk s) = Some s'"
    "dev_state (Suc (v_next s)) (length ds) s'"
    using add_devices_state [OF _ assms(2)] by force
  have "length ds \<noteq> 0" "length ds \<noteq> 1"
    using assms(1) by auto
  then have seg: "dev_seg s' (dev_head s') [Suc (v_next s), v_next s + length ds]"
    using s'(2) unfolding dev_state_def by (simp only: if_False) simp
  then have "dev_list (Suc (Suc k)) s' (dev_head s') = [Suc (v_next s), v_next s + length ds]" for k
    by simp
  moreover obtain k where "v_next s' = Suc (Suc k)"
    using s'(2) assms(1) unfolding dev_state_def by (metis add_2_eq_Suc le_Suc_ex trans_le_add2)
  ultimately show ?thesis
    using s'(1) dev_find_seg [OF seg] by (auto split: if_splits)
qed

theorem devfs_first_and_last_witness:
  "\<exists>s'. add_devices (\<lambda>_. 0) [(DevBlock, 0, \<lambda>_. 0), (DevBlock, 1, \<lambda>_. 0), (DevBlock, 2, \<lambda>_. 0)] (devfs_init (\<lambda>_. 0) demo_vfs) = Some s'
    \<and> dev_list (v_next s') s' (dev_head s') = [2, 4]"
proof -
  have "strlen (\<lambda>_. 0) = Some 0" by (simp add: strlen_def strlen_from.simps)
  then show ?thesis
    using devfs_first_and_last [of "[(DevBlock, 0, \<lambda>_. 0), (DevBlock, 1, \<lambda>_. 0), (DevBlock, 2, \<lambda>_. 0)]" "\<lambda>_. 0" demo_vfs]
    by (auto simp: demo_vfs_def)
qed

end
