(* ===== verification/Process.thy ===== *)
theory Process
  imports Mounts
begin

text \<open>
  Processes: \<^verbatim>\<open>process.hpp\<close>, \<^verbatim>\<open>process.cpp\<close>, \<^verbatim>\<open>session.hpp\<close> and \<^verbatim>\<open>tty.hpp\<close>.  The list of mappings is
  the sequence its nodes hold, and \<^verbatim>\<open>break_mapping_\<close>, a pointer to an element of it,
  is the position of that element.  Open files, threads and channels are named by
  numbers; \<^verbatim>\<open>fds_\<close> and \<^verbatim>\<open>channels_\<close> have the indices 0 to 15.
\<close>

subsection \<open>Sessions and terminals\<close>

record tty =
  tt_pgrp :: int
  tt_session :: int
  tt_canonical :: bool
  tt_echo :: bool

definition tty_new :: tty where
  "tty_new = \<lparr>tt_pgrp = 0, tt_session = 0, tt_canonical = True, tt_echo = True\<rparr>"

definition set_canonical :: "bool \<Rightarrow> tty \<Rightarrow> tty" where "set_canonical val t = t\<lparr>tt_canonical := val\<rparr>"
definition set_echo :: "bool \<Rightarrow> tty \<Rightarrow> tty" where "set_echo val t = t\<lparr>tt_echo := val\<rparr>"

record posix_session =
  se_leader :: bool
  se_pgrp :: int
  se_session :: int
  se_uid :: int
  se_euid :: int
  se_suid :: int
  se_gid :: int
  se_egid :: int
  se_sgid :: int
  se_tty :: "nat option"

definition session_copy :: "posix_session \<Rightarrow> posix_session" where
  "session_copy parent = parent\<lparr>se_leader := False\<rparr>"

definition session_init :: posix_session where
  "session_init = \<lparr>se_leader = True, se_pgrp = 0, se_session = 0, se_uid = 0, se_euid = 0, se_suid = 0,
     se_gid = 0, se_egid = 0, se_sgid = 0, se_tty = None\<rparr>"

definition tty_set_session :: "posix_session \<Rightarrow> tty \<Rightarrow> tty" where
  "tty_set_session se t = t\<lparr>tt_pgrp := se_pgrp se, tt_session := se_session se\<rparr>"

definition set_tty :: "nat \<Rightarrow> posix_session \<times> (nat \<Rightarrow> tty) \<Rightarrow> posix_session \<times> (nat \<Rightarrow> tty)" where
  "set_tty t = (\<lambda>(se, ttys).
    if se_leader se \<and> se_tty se = None
    then let se = se\<lparr>se_tty := Some t\<rparr> in (se, ttys(t := tty_set_session se (ttys t)))
    else (se, ttys))"


subsection \<open>The process\<close>

definition cDefaultMMapStart :: u32 where "cDefaultMMapStart = 0x1000000"
definition cDefaultBreakStart :: u32 where "cDefaultBreakStart = 0x2000000"

record process =
  p_pid :: int
  p_session :: posix_session
  p_mmaps :: "nat memory_mapping list"
  p_break :: "nat option"
  p_fds :: "nat \<Rightarrow> nat option"
  p_channels :: "nat \<Rightarrow> nat option"
  p_alive :: bool
  p_exit_code :: int
  p_thread_ids :: int
  p_next_mmap :: u32
  p_threads :: "nat list"
  p_directory :: u32

text \<open>The constructor; \<open>raw\<close> is the memory of the object, which keeps the fields not set.\<close>

definition process_new :: "int \<Rightarrow> posix_session \<Rightarrow> process \<Rightarrow> process" where
  "process_new pid se raw =
    raw\<lparr>p_pid := pid, p_session := session_copy se, p_mmaps := [], p_break := None, p_thread_ids := 0,
        p_next_mmap := cDefaultMMapStart, p_fds := (\<lambda>_. None), p_channels := (\<lambda>_. None), p_threads := []\<rparr>"

definition add_mmap :: "nat option \<Rightarrow> u32 \<Rightarrow> u32 \<Rightarrow> u32 \<Rightarrow> u32 \<Rightarrow> u32 \<Rightarrow> process \<Rightarrow> process" where
  "add_mmap node offset sz addr mem_size flags p =
    p\<lparr>p_mmaps := p_mmaps p @ [memory_mapping_new addr mem_size node offset sz flags]\<rparr>"

definition find_fd :: "process \<Rightarrow> nat option" where
  "find_fd p = find (\<lambda>i. p_fds p i = None) [0..<16]"

definition add_channel :: "nat \<Rightarrow> process \<Rightarrow> int \<times> process" where
  "add_channel chan p =
    (case find (\<lambda>i. p_channels p i = None) [0..<16] of
       Some i \<Rightarrow> (int i, p\<lparr>p_channels := (p_channels p)(i := Some chan)\<rparr>)
     | None \<Rightarrow> (- 1, p))"

definition add_thread :: "nat \<Rightarrow> process \<Rightarrow> process" where
  "add_thread thr p = p\<lparr>p_threads := p_threads p @ [thr]\<rparr>"

text \<open>Storing to \<^verbatim>\<open>fds_[fd]\<close> with the result of \<^verbatim>\<open>find_fd\<close>: index -1 is outside the array.\<close>

definition put_fd :: "nat \<Rightarrow> process \<Rightarrow> (int \<times> process) result" where
  "put_fd file p =
    (case find_fd p of
       Some fd \<Rightarrow> Inr (int fd, p\<lparr>p_fds := (p_fds p)(fd := Some file)\<rparr>)
     | None \<Rightarrow> Inl OutOfBounds)"

record file_table =
  ft_files :: "nat \<Rightarrow> nat ofile"
  ft_next :: nat

definition file_alloc :: "nat \<Rightarrow> file_table \<Rightarrow> nat \<times> file_table" where
  "file_alloc node ft =
    (ft_next ft, ft\<lparr>ft_files := (ft_files ft)(ft_next ft := file_new node), ft_next := Suc (ft_next ft)\<rparr>)"

text \<open>\<open>node_open\<close> is the virtual \<^verbatim>\<open>open\<close> of the node.\<close>

definition open_file :: "cstr \<Rightarrow> (nat \<Rightarrow> vfs \<Rightarrow> vfs) \<Rightarrow> cstr \<Rightarrow> process \<times> file_table \<times> vfs
    \<Rightarrow> (int \<times> process \<times> file_table \<times> vfs) result" where
  "open_file junk node_open path = (\<lambda>(p, ft, s).
    case lookup_path junk path s of
      None \<Rightarrow> Inl Diverges
    | Some (None, s) \<Rightarrow> Inr (- 1, p, ft, s)
    | Some (Some node, s) \<Rightarrow>
        let s = node_open node s;
            (file, ft) = file_alloc node ft
        in bind_result (put_fd file p) (\<lambda>(fd, p). Inr (fd, p, ft, s)))"

definition get_file :: "int \<Rightarrow> process \<Rightarrow> nat option" where
  "get_file fd p = (if fd < 0 \<or> fd \<ge> 16 then None else p_fds p (nat fd))"

definition dup_fd :: "int \<Rightarrow> process \<Rightarrow> (int \<times> process) result" where
  "dup_fd fd p = (case get_file fd p of None \<Rightarrow> Inr (- 1, p) | Some file \<Rightarrow> put_fd file p)"

definition append_break :: "nat memory_mapping \<Rightarrow> process \<Rightarrow> process" where
  "append_break mm p = p\<lparr>p_mmaps := p_mmaps p @ [mm], p_break := Some (length (p_mmaps p))\<rparr>"

definition enlarge_break :: "nat \<Rightarrow> u32 \<Rightarrow> process \<Rightarrow> process" where
  "enlarge_break b bytes p = p\<lparr>p_mmaps := (p_mmaps p)[b := enlarge_mem_size bytes (p_mmaps p ! b)]\<rparr>"

definition change_heap :: "u32 \<Rightarrow> process \<Rightarrow> u32 \<times> process" where
  "change_heap bytes p =
    (case p_break p of
       None \<Rightarrow> (0x2000000, append_break (memory_mapping_new 0x2000000 bytes None 0 0 eAll) p)
     | Some b \<Rightarrow> (mm_end_address (p_mmaps p ! b), enlarge_break b bytes p))"

definition new_mmap_region :: "u32 \<Rightarrow> process \<Rightarrow> u32 \<times> process" where
  "new_mmap_region sz p = (p_next_mmap p, p\<lparr>p_next_mmap := p_next_mmap p + sz\<rparr>)"

definition position_brk :: "u32 \<Rightarrow> process \<Rightarrow> process" where
  "position_brk fin p = append_break (memory_mapping_new fin 0 None 0 0 eAll) p"

definition set_brk :: "u32 \<Rightarrow> process \<Rightarrow> u32 \<times> process" where
  "set_brk target p =
    (case p_break p of
       None \<Rightarrow>
         if target = 0
         then (cDefaultBreakStart, append_break (memory_mapping_new cDefaultBreakStart 0 None 0 0 eAll) p)
         else if target < cDefaultBreakStart then (target, p)
         else (target, append_break (memory_mapping_new cDefaultBreakStart (target - cDefaultBreakStart) None 0 0 eAll) p)
     | Some b \<Rightarrow>
         if target = 0 then (cDefaultBreakStart, p)
         else if target < mm_end_address (p_mmaps p ! b) then (target, p)
         else (target, enlarge_break b (target - mm_end_address (p_mmaps p ! b)) p))"


subsection \<open>Descriptors\<close>

lemma find_upt_first:
  "k < n \<Longrightarrow> P k \<Longrightarrow> (\<And>i. i < k \<Longrightarrow> \<not> P i) \<Longrightarrow> find P [0..<n] = Some k"
  by (auto simp: find_Some_iff intro!: exI [of _ k])

definition lowest_free :: "process \<Rightarrow> nat \<Rightarrow> bool" where
  "lowest_free p k \<longleftrightarrow> k < 16 \<and> p_fds p k = None \<and> (\<forall>i<k. p_fds p i \<noteq> None)"

lemma put_fd_lowest:
  "lowest_free p k \<Longrightarrow> put_fd file p = Inr (int k, p\<lparr>p_fds := (p_fds p)(k \<mapsto> file)\<rparr>)"
  using find_upt_first [of k 16 "\<lambda>i. p_fds p i = None"] by (simp add: lowest_free_def put_fd_def find_fd_def)

lemma put_fd_full: "(\<And>i. i < 16 \<Longrightarrow> p_fds p i \<noteq> None) \<Longrightarrow> put_fd file p = Inl OutOfBounds"
proof -
  assume "\<And>i. i < 16 \<Longrightarrow> p_fds p i \<noteq> None"
  then have "find_fd p = None"
    unfolding find_fd_def find_None_iff by (metis atLeastLessThan_iff set_upt)
  then show ?thesis
    by (simp add: put_fd_def)
qed

lemma get_file_upd:
  "k < 16 \<Longrightarrow> get_file fd (p\<lparr>p_fds := (p_fds p)(k \<mapsto> file)\<rparr>) = (if fd = int k then Some file else get_file fd p)"
  by (auto simp: get_file_def)

text \<open>
  C35: Opening a path that resolves takes the lowest descriptor that is free, makes it a new open
  file at offset 0 of the node found, and leaves every other descriptor and every other open
  file as it was.
\<close>

theorem open_lowest_fd:
  assumes "lookup_path junk path s = Some (Some node, s')" and "lowest_free p k"
  shows "\<exists>p' ft'. open_file junk node_open path (p, ft, s) = Inr (int k, p', ft', node_open node s')
    \<and> get_file (int k) p' = Some (ft_next ft) \<and> ft_files ft' (ft_next ft) = \<lparr>fl_node = node, fl_offset = 0\<rparr>
    \<and> (\<forall>fd. fd \<noteq> int k \<longrightarrow> get_file fd p' = get_file fd p)
    \<and> (\<forall>f. f \<noteq> ft_next ft \<longrightarrow> ft_files ft' f = ft_files ft f)
    \<and> p_mmaps p' = p_mmaps p \<and> p_threads p' = p_threads p"
  using assms(2) put_fd_lowest [OF assms(2)]
  by (simp add: open_file_def assms(1) file_alloc_def get_file_upd file_new_def lowest_free_def)

lemma demo_lookup:
  "\<exists>s'. lookup_path (\<lambda>_. 0) demo_path demo_vfs = Some (Some 1, s')"
proof -
  have "lookup_path (\<lambda>_. 0) demo_path demo_vfs = Some (walk v_entry (v_create (\<lambda>_. 0)) v_delegate 0 [[0x61]] demo_vfs)"
    using lookup_path_run [OF demo_path_ok(1) _ _ demo_path_ok(3)] demo_path_ok(2) by (simp add: demo_vfs_def)
  moreover have "v_entry demo_vfs 0 [0x61] = None" "v_delegate demo_vfs 0 = None"
    by (simp_all add: v_entry_def demo_vfs_def ht_fetch_def ht_new_def v_delegate_def fs_node_new_def)
  ultimately show ?thesis
    by (simp add: enter_def v_create_def v_new_def demo_vfs_def)
qed

definition demo_process :: process where
  "demo_process = process_new 1 session_init
     \<lparr>p_pid = 0, p_session = session_init, p_mmaps = [], p_break = None, p_fds = (\<lambda>_. None), p_channels = (\<lambda>_. None),
      p_alive = True, p_exit_code = 0, p_thread_ids = 0, p_next_mmap = 0, p_threads = [], p_directory = 0\<rparr>"

lemma demo_process_free: "lowest_free demo_process 0"
  by (simp add: lowest_free_def demo_process_def process_new_def)

definition demo_files :: file_table where
  "demo_files = \<lparr>ft_files = (\<lambda>_. file_new 0), ft_next = 7\<rparr>"

theorem open_lowest_fd_witness:
  "\<exists>p' ft' s'. open_file (\<lambda>_. 0) (\<lambda>_ s. s) demo_path (demo_process, demo_files, demo_vfs) = Inr (0, p', ft', s')
    \<and> get_file 0 p' = Some 7 \<and> ft_files ft' 7 = \<lparr>fl_node = 1, fl_offset = 0\<rparr>"
proof -
  obtain s' where s': "lookup_path (\<lambda>_. 0) demo_path demo_vfs = Some (Some 1, s')"
    using demo_lookup by blast
  show ?thesis
    using open_lowest_fd [OF s' demo_process_free, of "\<lambda>_ s. s" demo_files] by (auto simp: demo_files_def)
qed

subsection \<open>The heap of a process\<close>

definition brk_of :: "process \<Rightarrow> u32 option" where
  "brk_of p = map_option (\<lambda>b. mm_end_address (p_mmaps p ! b)) (p_break p)"

definition break_ok :: "process \<Rightarrow> bool" where
  "break_ok p \<longleftrightarrow> (case p_break p of None \<Rightarrow> True | Some b \<Rightarrow> b < length (p_mmaps p))"

lemma break_ok_ops:
  "break_ok (process_new pid se raw)"
  "break_ok p \<Longrightarrow> break_ok (add_mmap node off sz addr msz flags p)"
  "break_ok (position_brk fin p)"
  "break_ok p \<Longrightarrow> break_ok (snd (set_brk target p))"
  "break_ok p \<Longrightarrow> break_ok (snd (change_heap bytes p))"
  "break_ok p \<Longrightarrow> break_ok (snd (new_mmap_region sz p))"
  by (auto simp: break_ok_def process_new_def add_mmap_def position_brk_def append_break_def set_brk_def
      change_heap_def new_mmap_region_def enlarge_break_def split: option.splits)

lemma mm_end_enlarge: "mm_end_address (enlarge_mem_size n mm) = mm_end_address mm + n"
  by (simp add: mm_end_address_def enlarge_mem_size_def Let_def add.assoc)

lemma mm_end_new: "mm_end_address (memory_mapping_new a n node off sz fl) = a + n"
  by (simp add: mm_end_address_def memory_mapping_new_def)

text \<open>
  C36: \<^verbatim>\<open>brk\<close>: once the break exists, asking for a higher break moves it exactly there, returns it, and
  leaves the start of the heap and every other mapping as they were; asking for a lower
  break changes nothing, and yet the lower address is returned as if it had been set.
\<close>

theorem set_brk_result:
  assumes "break_ok p" and "p_break p = Some b" and "target \<noteq> 0"
  shows "fst (set_brk target p) = target
    \<and> brk_of (snd (set_brk target p)) = Some (if target < the (brk_of p) then the (brk_of p) else target)
    \<and> mm_address (p_mmaps (snd (set_brk target p)) ! b) = mm_address (p_mmaps p ! b)
    \<and> (\<forall>i. i \<noteq> b \<longrightarrow> p_mmaps (snd (set_brk target p)) ! i = p_mmaps p ! i)
    \<and> length (p_mmaps (snd (set_brk target p))) = length (p_mmaps p)"
  using assms
  by (auto simp: set_brk_def enlarge_break_def break_ok_def brk_of_def mm_end_enlarge) (simp add: enlarge_mem_size_def Let_def)

theorem set_brk_result_witness:
  "brk_of (snd (set_brk 0x5000 (position_brk 0x4000 demo_process))) = Some 0x5000
    \<and> set_brk 0x3000 (position_brk 0x4000 demo_process) = (0x3000, position_brk 0x4000 demo_process)"
proof -
  let ?p = "position_brk 0x4000 demo_process"
  have b: "break_ok ?p" "p_break ?p = Some 0" "the (brk_of ?p) = 0x4000"
    by (simp_all add: break_ok_def position_brk_def append_break_def demo_process_def process_new_def brk_of_def mm_end_new)
  show ?thesis
    using set_brk_result [OF b(1,2), of "0x5000"] b(2,3)
    by (simp add: set_brk_def brk_of_def)
qed

lemma mmap_regions_follow:
  "new_mmap_region a p = (x, p') \<Longrightarrow> new_mmap_region b p' = (y, p'') \<Longrightarrow> y = x + a"
  by (auto simp: new_mmap_region_def)

end
