(* ===== verification/Linked_List.thy ===== *)
theory Linked_List
  imports Kernel_Prelude
begin

text \<open>
  The intrusive doubly linked list \<^verbatim>\<open>sys::List\<close> and the allocating list
  \<^verbatim>\<open>sys::ExternalList\<close> of \<^verbatim>\<open>list.hpp\<close>.  The nodes of an intrusive list live inside the
  elements: \<open>nodes\<close> maps an element to its \<^verbatim>\<open>lists[which]\<close>, and several lists over
  the same \<^verbatim>\<open>which\<close> share that store.  A null pointer is \<open>None\<close>.  The relation
  \<open>dlist_rep\<close> says which sequence a list holds.
\<close>

subsection \<open>The intrusive list\<close>

record 't list_node =
  ln_next :: "'t option"
  ln_prev :: "'t option"
  ln_linked :: bool

record 't dlist =
  dl_head :: "'t option"
  dl_tail :: "'t option"
  dl_count :: int

type_synonym 't nodes = "'t \<Rightarrow> 't list_node"

definition list_node_new :: "'t list_node" where
  "list_node_new = \<lparr>ln_next = None, ln_prev = None, ln_linked = False\<rparr>"

definition list_init :: "'t dlist \<Rightarrow> 't dlist" where
  "list_init l = l\<lparr>dl_head := None, dl_tail := None, dl_count := 0\<rparr>"

definition node_update :: "'t \<Rightarrow> ('t list_node \<Rightarrow> 't list_node) \<Rightarrow> 't nodes \<Rightarrow> 't nodes" where
  "node_update x f nodes = nodes(x := f (nodes x))"

definition opt_update :: "'t option \<Rightarrow> ('t list_node \<Rightarrow> 't list_node) \<Rightarrow> 't nodes \<Rightarrow> 't nodes" where
  "opt_update p f nodes = (case p of None \<Rightarrow> nodes | Some x \<Rightarrow> node_update x f nodes)"

definition list_unlink :: "'t \<Rightarrow> 't nodes \<times> 't dlist \<Rightarrow> 't nodes \<times> 't dlist" where
  "list_unlink elem = (\<lambda>(nodes, l).
    if \<not> ln_linked (nodes elem) then (nodes, l)
    else
      let nodes = opt_update (ln_next (nodes elem)) (\<lambda>n. n\<lparr>ln_prev := ln_prev (nodes elem)\<rparr>) nodes;
          nodes = opt_update (ln_prev (nodes elem)) (\<lambda>n. n\<lparr>ln_next := ln_next (nodes elem)\<rparr>) nodes;
          l = (if Some elem = dl_head l then l\<lparr>dl_head := ln_next (nodes elem)\<rparr> else l);
          l = (if Some elem = dl_tail l then l\<lparr>dl_tail := ln_prev (nodes elem)\<rparr> else l);
          nodes = node_update elem (\<lambda>n. n\<lparr>ln_linked := False, ln_prev := None, ln_next := None\<rparr>) nodes
      in (nodes, l\<lparr>dl_count := dl_count l - 1\<rparr>))"

definition list_append :: "'t \<Rightarrow> 't nodes \<times> 't dlist \<Rightarrow> 't nodes \<times> 't dlist" where
  "list_append elem = (\<lambda>(nodes, l).
    if ln_linked (nodes elem) then (nodes, l)
    else
      let nodes = node_update elem (\<lambda>n. n\<lparr>ln_linked := True\<rparr>) nodes;
          l = l\<lparr>dl_count := dl_count l + 1\<rparr>;
          nodes = opt_update (dl_tail l) (\<lambda>n. n\<lparr>ln_next := Some elem\<rparr>) nodes;
          nodes = node_update elem (\<lambda>n. n\<lparr>ln_prev := dl_tail l\<rparr>) nodes;
          nodes = node_update elem (\<lambda>n. n\<lparr>ln_next := None\<rparr>) nodes;
          l = l\<lparr>dl_tail := Some elem\<rparr>;
          l = (if dl_head l = None then l\<lparr>dl_head := dl_tail l\<rparr> else l)
      in (nodes, l))"

definition list_prepend :: "'t \<Rightarrow> 't nodes \<times> 't dlist \<Rightarrow> 't nodes \<times> 't dlist" where
  "list_prepend elem = (\<lambda>(nodes, l).
    if ln_linked (nodes elem) then (nodes, l)
    else
      let nodes = node_update elem (\<lambda>n. n\<lparr>ln_linked := True\<rparr>) nodes;
          l = l\<lparr>dl_count := dl_count l + 1\<rparr>;
          nodes = opt_update (dl_head l) (\<lambda>n. n\<lparr>ln_prev := Some elem\<rparr>) nodes;
          nodes = node_update elem (\<lambda>n. n\<lparr>ln_next := dl_head l\<rparr>) nodes;
          nodes = node_update elem (\<lambda>n. n\<lparr>ln_prev := None\<rparr>) nodes;
          l = l\<lparr>dl_head := Some elem\<rparr>;
          l = (if dl_tail l = None then l\<lparr>dl_tail := dl_head l\<rparr> else l)
      in (nodes, l))"

text \<open>
  \<^verbatim>\<open>Iterator::advance\<close> gives the element and moves to its successor; a loop
  \<^verbatim>\<open>while(i.more_p()) i.advance()\<close> visits the elements in the order of \<open>list_visit\<close>.
\<close>

definition iter_advance :: "'t nodes \<Rightarrow> 't \<Rightarrow> 't \<times> 't option" where
  "iter_advance nodes node = (node, ln_next (nodes node))"

partial_function (option) list_visit :: "'t nodes \<Rightarrow> 't option \<Rightarrow> 't list option" where
  "list_visit nodes i =
    (case i of None \<Rightarrow> Some []
     | Some node \<Rightarrow>
         Option.bind (list_visit nodes (snd (iter_advance nodes node)))
           (\<lambda>xs. Some (fst (iter_advance nodes node) # xs)))"


subsection \<open>The sequence a list holds\<close>

definition first_or :: "'t list \<Rightarrow> 't option \<Rightarrow> 't option" where
  "first_or xs d = (case xs of [] \<Rightarrow> d | x # _ \<Rightarrow> Some x)"

definition last_or :: "'t list \<Rightarrow> 't option \<Rightarrow> 't option" where
  "last_or xs d = (if xs = [] then d else Some (last xs))"

fun dseg :: "'t nodes \<Rightarrow> 't option \<Rightarrow> 't list \<Rightarrow> 't option \<Rightarrow> bool" where
  "dseg nodes p [] n = True"
| "dseg nodes p (x # xs) n =
    (ln_linked (nodes x) \<and> ln_prev (nodes x) = p \<and> ln_next (nodes x) = first_or xs n
     \<and> dseg nodes (Some x) xs n)"

definition dlist_rep :: "'t nodes \<times> 't dlist \<Rightarrow> 't list \<Rightarrow> bool" where
  "dlist_rep = (\<lambda>(nodes, l) xs. distinct xs \<and> dseg nodes None xs None
     \<and> dl_head l = first_or xs None \<and> dl_tail l = last_or xs None \<and> dl_count l = int (length xs))"

lemma first_or_simps [simp]:
  "first_or [] d = d" "first_or (x # xs) d = Some x"
  "first_or (xs @ ys) d = first_or xs (first_or ys d)"
  by (simp_all add: first_or_def split: list.splits)

lemma last_or_simps [simp]:
  "last_or [] d = d" "last_or (xs @ ys) d = last_or ys (last_or xs d)"
  "last_or (x # xs) d = last_or xs (Some x)"
  by (simp_all add: last_or_def)

lemma dseg_append [simp]:
  "dseg nodes p (xs @ ys) n \<longleftrightarrow> dseg nodes p xs (first_or ys n) \<and> dseg nodes (last_or xs p) ys n"
  by (induction xs arbitrary: p) auto

lemma dseg_cong:
  "(\<And>x. x \<in> set xs \<Longrightarrow> nodes x = nodes' x) \<Longrightarrow> dseg nodes p xs n \<longleftrightarrow> dseg nodes' p xs n"
  by (induction xs arbitrary: p) auto

lemma dseg_linked: "dseg nodes p xs n \<Longrightarrow> x \<in> set xs \<Longrightarrow> ln_linked (nodes x)"
  by (induction xs arbitrary: p) auto

lemma node_update_simps [simp]:
  "node_update x f nodes x = f (nodes x)" "y \<noteq> x \<Longrightarrow> node_update x f nodes y = nodes y"
  by (simp_all add: node_update_def)

lemma opt_update_simps [simp]:
  "opt_update None f nodes = nodes" "opt_update (Some x) f nodes = node_update x f nodes"
  by (simp_all add: opt_update_def)

lemma dlist_rep_init [simp]: "dlist_rep (nodes, list_init l) []"
  by (simp add: dlist_rep_def list_init_def)

text \<open>Changing the successor of the last element, and the predecessor of the first.\<close>

lemma dseg_set_next:
  assumes "dseg nodes p xs n" "distinct xs"
  shows "dseg (opt_update (last_or xs None) (\<lambda>m. m\<lparr>ln_next := n'\<rparr>) nodes) p xs n'"
proof (cases xs rule: rev_cases)
  case (snoc ys y)
  then have "dseg (node_update y (\<lambda>m. m\<lparr>ln_next := n'\<rparr>) nodes) p ys (Some y) \<longleftrightarrow> dseg nodes p ys (Some y)"
    using assms(2) by (intro dseg_cong) (auto simp: node_update_def)
  then show ?thesis
    using assms snoc by simp
qed simp

lemma dseg_set_prev:
  assumes "dseg nodes p xs n" "distinct xs"
  shows "dseg (opt_update (first_or xs None) (\<lambda>m. m\<lparr>ln_prev := p'\<rparr>) nodes) p' xs n"
proof (cases xs)
  case (Cons y ys)
  then have "dseg (node_update y (\<lambda>m. m\<lparr>ln_prev := p'\<rparr>) nodes) (Some y) ys n \<longleftrightarrow> dseg nodes (Some y) ys n"
    using assms(2) by (intro dseg_cong) (auto simp: node_update_def)
  then show ?thesis
    using assms Cons by simp
qed simp

lemma opt_update_other: "p \<noteq> Some y \<Longrightarrow> opt_update p f nodes y = nodes y"
  by (cases p) auto

lemma first_or_notin: "x \<notin> set xs \<Longrightarrow> first_or xs None \<noteq> Some x"
  by (cases xs) auto

lemma last_or_notin: "x \<notin> set xs \<Longrightarrow> last_or xs None \<noteq> Some x"
  by (auto simp: last_or_def)

lemma list_append_rep:
  assumes rep: "dlist_rep (nodes, l) xs" and x: "\<not> ln_linked (nodes x)"
  shows "dlist_rep (list_append x (nodes, l)) (xs @ [x])"
proof -
  have xs: "distinct xs" "dseg nodes None xs None" "x \<notin> set xs"
    and l: "dl_head l = first_or xs None" "dl_tail l = last_or xs None" "dl_count l = int (length xs)"
    using rep x dseg_linked by (fastforce simp: dlist_rep_def)+
  let ?n1 = "node_update x (\<lambda>n. n\<lparr>ln_linked := True\<rparr>) nodes"
  let ?n2 = "opt_update (last_or xs None) (\<lambda>n. n\<lparr>ln_next := Some x\<rparr>) ?n1"
  let ?n4 = "node_update x (\<lambda>n. n\<lparr>ln_next := None\<rparr>) (node_update x (\<lambda>n. n\<lparr>ln_prev := dl_tail l\<rparr>) ?n2)"
  have "dseg ?n1 None xs None"
    using xs by (subst dseg_cong [of _ _ nodes]) (auto simp: node_update_def)
  then have "dseg ?n2 None xs (Some x)"
    using xs by (intro dseg_set_next)
  then have "dseg ?n4 None xs (Some x)"
    using xs by (subst dseg_cong [of _ _ ?n2]) (auto simp: node_update_def)
  moreover have "ln_linked (?n2 x)"
    using last_or_notin [OF xs(3)] by (simp add: opt_update_other)
  ultimately show ?thesis
    using x xs l by (auto simp: list_append_def Let_def dlist_rep_def first_or_def split: list.splits)
qed

lemma list_prepend_rep:
  assumes rep: "dlist_rep (nodes, l) xs" and x: "\<not> ln_linked (nodes x)"
  shows "dlist_rep (list_prepend x (nodes, l)) (x # xs)"
proof -
  have xs: "distinct xs" "dseg nodes None xs None" "x \<notin> set xs"
    and l: "dl_head l = first_or xs None" "dl_tail l = last_or xs None" "dl_count l = int (length xs)"
    using rep x dseg_linked by (fastforce simp: dlist_rep_def)+
  let ?n1 = "node_update x (\<lambda>n. n\<lparr>ln_linked := True\<rparr>) nodes"
  let ?n2 = "opt_update (first_or xs None) (\<lambda>n. n\<lparr>ln_prev := Some x\<rparr>) ?n1"
  let ?n4 = "node_update x (\<lambda>n. n\<lparr>ln_prev := None\<rparr>) (node_update x (\<lambda>n. n\<lparr>ln_next := dl_head l\<rparr>) ?n2)"
  have "dseg ?n1 None xs None"
    using xs by (subst dseg_cong [of _ _ nodes]) (auto simp: node_update_def)
  then have "dseg ?n2 (Some x) xs None"
    using xs by (intro dseg_set_prev)
  then have "dseg ?n4 (Some x) xs None"
    using xs by (subst dseg_cong [of _ _ ?n2]) (auto simp: node_update_def)
  moreover have "ln_linked (?n2 x)"
    using first_or_notin [OF xs(3)] by (simp add: opt_update_other)
  ultimately show ?thesis
    using x xs l by (auto simp: list_prepend_def Let_def dlist_rep_def last_or_def)
qed

lemma list_unlink_rep:
  assumes rep: "dlist_rep (nodes, l) (xs @ x # ys)"
  shows "dlist_rep (list_unlink x (nodes, l)) (xs @ ys)"
proof -
  have d: "distinct xs" "distinct ys" "set xs \<inter> set ys = {}" "x \<notin> set xs" "x \<notin> set ys"
    and seg: "dseg nodes None xs (Some x)" "dseg nodes (Some x) ys None" "ln_linked (nodes x)"
      "ln_prev (nodes x) = last_or xs None" "ln_next (nodes x) = first_or ys None"
    and l: "dl_head l = first_or xs (Some x)" "dl_tail l = last_or ys (Some x)"
      "dl_count l = int (length xs + length ys + 1)"
    using rep by (auto simp: dlist_rep_def)
  let ?n1 = "opt_update (first_or ys None) (\<lambda>n. n\<lparr>ln_prev := last_or xs None\<rparr>) nodes"
  let ?n2 = "opt_update (last_or xs None) (\<lambda>n. n\<lparr>ln_next := first_or ys None\<rparr>) ?n1"
  let ?n3 = "node_update x (\<lambda>n. n\<lparr>ln_linked := False, ln_prev := None, ln_next := None\<rparr>) ?n2"
  have x2: "?n1 x = nodes x" "?n2 x = nodes x"
    using first_or_notin [OF d(5)] last_or_notin [OF d(4)] by (simp_all add: opt_update_other)
  have sep: "first_or ys None \<noteq> Some z" if "z \<in> set xs" for z
    using d that by (intro first_or_notin) auto
  have sep': "last_or xs None \<noteq> Some z" if "z \<in> set ys" for z
    using d that by (intro last_or_notin) auto
  have "dseg ?n1 None xs (Some x)"
    using seg(1) sep by (subst dseg_cong [of _ _ nodes]) (auto simp: opt_update_other)
  then have "dseg ?n2 None xs (first_or ys None)"
    using d(1) by (rule dseg_set_next)
  then have xs3: "dseg ?n3 None xs (first_or ys None)"
    using d by (subst dseg_cong [of _ _ ?n2]) (auto simp: node_update_def)
  have "dseg ?n1 (last_or xs None) ys None"
    using seg(2) d(2) by (rule dseg_set_prev)
  then have ys3: "dseg ?n3 (last_or xs None) ys None"
    using d sep' by (subst dseg_cong [of _ _ ?n1]) (auto simp: opt_update_other node_update_def)
  have hd: "Some x = first_or xs (Some x) \<longleftrightarrow> xs = []" "Some x = last_or ys (Some x) \<longleftrightarrow> ys = []"
    using d by (auto simp: first_or_def last_or_def split: list.splits)
  show ?thesis
    using seg l x2 xs3 ys3 d hd
    by (auto simp: list_unlink_def Let_def dlist_rep_def)
      (auto simp: first_or_def last_or_def split: list.splits)
qed

text \<open>What the operations leave alone: nodes outside the list, and who is linked.\<close>

lemma list_append_frame:
  "dlist_rep (nodes, l) xs \<Longrightarrow> y \<notin> set xs \<Longrightarrow> y \<noteq> x \<Longrightarrow> fst (list_append x (nodes, l)) y = nodes y"
  using last_or_notin [of y xs]
  by (auto simp: list_append_def Let_def dlist_rep_def opt_update_other)

lemma list_prepend_frame:
  "dlist_rep (nodes, l) xs \<Longrightarrow> y \<notin> set xs \<Longrightarrow> y \<noteq> x \<Longrightarrow> fst (list_prepend x (nodes, l)) y = nodes y"
  using first_or_notin [of y xs]
  by (auto simp: list_prepend_def Let_def dlist_rep_def opt_update_other)

lemma list_unlink_frame:
  assumes "dlist_rep (nodes, l) (xs @ x # ys)" "y \<notin> set xs" "y \<notin> set ys" "y \<noteq> x"
  shows "fst (list_unlink x (nodes, l)) y = nodes y"
  using assms first_or_notin [of y ys] last_or_notin [of y xs] first_or_notin [of x ys]
  by (auto simp: list_unlink_def Let_def dlist_rep_def opt_update_other)

lemma linked_opt_update [simp]:
  "(\<And>n. ln_linked (f n) = ln_linked n) \<Longrightarrow> ln_linked (opt_update p f nodes y) = ln_linked (nodes y)"
  by (cases p) (auto simp: node_update_def)

lemma list_append_linked [simp]:
  "ln_linked (fst (list_append x s) y) \<longleftrightarrow> y = x \<or> ln_linked (fst s y)"
  by (cases s) (auto simp: list_append_def Let_def node_update_def)

lemma list_prepend_linked [simp]:
  "ln_linked (fst (list_prepend x s) y) \<longleftrightarrow> y = x \<or> ln_linked (fst s y)"
  by (cases s) (auto simp: list_prepend_def Let_def node_update_def)

lemma list_unlink_linked [simp]:
  "ln_linked (fst (list_unlink x s) y) \<longleftrightarrow> y \<noteq> x \<and> ln_linked (fst s y)"
  by (cases s) (auto simp: list_unlink_def Let_def node_update_def)

lemma list_unlink_unlinked: "\<not> ln_linked (fst s x) \<Longrightarrow> list_unlink x s = s"
  by (cases s) (simp add: list_unlink_def)

lemma list_append_again: "ln_linked (fst s x) \<Longrightarrow> list_append x s = s"
  by (cases s) (simp add: list_append_def)

lemma list_prepend_again: "ln_linked (fst s x) \<Longrightarrow> list_prepend x s = s"
  by (cases s) (simp add: list_prepend_def)

lemma dlist_rep_cong:
  "dlist_rep (nodes, l) xs \<Longrightarrow> (\<And>x. x \<in> set xs \<Longrightarrow> nodes' x = nodes x) \<Longrightarrow> dlist_rep (nodes', l) xs"
  using dseg_cong [of xs nodes' nodes] by (auto simp: dlist_rep_def)

text \<open>Iteration visits exactly the elements of the list, in order, and ends.\<close>

lemma list_visit_seg: "dseg nodes p xs None \<Longrightarrow> list_visit nodes (first_or xs None) = Some xs"
proof (induction xs arbitrary: p)
  case Nil
  then show ?case
    by (subst list_visit.simps) simp
next
  case (Cons x xs)
  then show ?case
    by (subst list_visit.simps) (auto simp: iter_advance_def)
qed

lemma list_visit_rep: "dlist_rep (nodes, l) xs \<Longrightarrow> list_visit nodes (dl_head l) = Some xs"
  by (auto simp: dlist_rep_def list_visit_seg)


subsection \<open>The queue contract\<close>

text \<open>
  What a scheduler relies on: operations on a state \<open>'s\<close> that holds a sequence,
  with an element either free or queued.
\<close>

locale run_queue =
  fixes rep :: "'s \<Rightarrow> 't list \<Rightarrow> bool" and free :: "'s \<Rightarrow> 't \<Rightarrow> bool"
    and prepend append unlink :: "'t \<Rightarrow> 's \<Rightarrow> 's"
    and first :: "'s \<Rightarrow> 't option" and cnt :: "'s \<Rightarrow> int"
  assumes rep_distinct: "rep s xs \<Longrightarrow> distinct xs"
    and rep_prepend: "rep s xs \<Longrightarrow> free s x \<Longrightarrow> rep (prepend x s) (x # xs)"
    and rep_append: "rep s xs \<Longrightarrow> free s x \<Longrightarrow> rep (append x s) (xs @ [x])"
    and rep_unlink: "rep s (xs @ x # ys) \<Longrightarrow> rep (unlink x s) (xs @ ys) \<and> free (unlink x s) x"
    and rep_first: "rep s xs \<Longrightarrow> first s = first_or xs None"
    and rep_count: "rep s xs \<Longrightarrow> cnt s = int (length xs)"
begin

definition rotate :: "'s \<Rightarrow> 's" where
  "rotate s = (case first s of None \<Rightarrow> s | Some x \<Rightarrow> append x (unlink x s))"

lemma rep_rotate: "rep s xs \<Longrightarrow> rep (rotate s) (rotate1 xs)"
  using rep_unlink [of s "[]" _ _] rep_append
  by (cases xs) (auto simp: rotate_def rep_first)

lemma rep_rotate_n: "rep s xs \<Longrightarrow> rep ((rotate ^^ n) s) ((rotate1 ^^ n) xs)"
  by (induction n) (auto intro: rep_rotate)

lemma rotate_all: "rep s xs \<Longrightarrow> rep ((rotate ^^ length xs) s) xs"
  using rep_rotate_n [of s xs "length xs"] by (simp add: rotate_def [symmetric] List.rotate_def [symmetric])

lemma first_after_rotations:
  assumes "rep s xs" "i < length xs"
  shows "first ((rotate ^^ i) s) = Some (xs ! i)"
proof -
  have "rep ((rotate ^^ i) s) (drop i xs @ take i xs)"
    using rep_rotate_n [OF assms(1), of i] assms(2)
    by (simp add: List.rotate_def [symmetric] rotate_drop_take)
  then show ?thesis
    using assms(2) rep_first by (fastforce simp: Cons_nth_drop_Suc [symmetric])
qed

lemma empty_iff: "rep s xs \<Longrightarrow> cnt s = 0 \<longleftrightarrow> first s = None"
  by (cases xs) (auto simp: rep_count rep_first)

end

definition node_free :: "'t nodes \<times> 't dlist \<Rightarrow> 't \<Rightarrow> bool" where
  "node_free s x \<longleftrightarrow> \<not> ln_linked (fst s x)"

interpretation dl: run_queue dlist_rep node_free list_prepend list_append list_unlink
    "\<lambda>s. dl_head (snd s)" "\<lambda>s. dl_count (snd s)"
proof
  fix s :: "'a nodes \<times> 'a dlist" and xs ys :: "'a list" and x
  show "dlist_rep s xs \<Longrightarrow> distinct xs" "dlist_rep s xs \<Longrightarrow> dl_head (snd s) = first_or xs None"
    "dlist_rep s xs \<Longrightarrow> dl_count (snd s) = int (length xs)"
    by (auto simp: dlist_rep_def)
  show "dlist_rep s xs \<Longrightarrow> node_free s x \<Longrightarrow> dlist_rep (list_prepend x s) (x # xs)"
    by (cases s) (auto simp: node_free_def intro: list_prepend_rep)
  show "dlist_rep s xs \<Longrightarrow> node_free s x \<Longrightarrow> dlist_rep (list_append x s) (xs @ [x])"
    by (cases s) (auto simp: node_free_def intro: list_append_rep)
  show "dlist_rep s (xs @ x # ys) \<Longrightarrow> dlist_rep (list_unlink x s) (xs @ ys) \<and> node_free (list_unlink x s) x"
    by (cases s) (auto simp: node_free_def intro: list_unlink_rep)
qed

end
