(* ===== verification/External_List.thy ===== *)
theory External_List
  imports Linked_List
begin

text \<open>
  \<^verbatim>\<open>sys::ExternalList\<close>, the list that allocates its nodes.  Nodes live in a store
  indexed by address; the address that \<^verbatim>\<open>new(kheap) Node\<close> gives is an argument of
  \<open>ext_append\<close>.  \<open>ext_rep\<close> relates a list to the addresses of its nodes and
  to the sequence of its elements.
\<close>

subsection \<open>State and operations\<close>

record 'e ext_node =
  en_elem :: 'e
  en_next :: "nat option"
  en_prev :: "nat option"

record ext_list =
  el_head :: "nat option"
  el_tail :: "nat option"
  el_count :: int

type_synonym 'e ext_store = "nat \<Rightarrow> 'e ext_node"

definition ext_new :: ext_list where
  "ext_new = \<lparr>el_head = None, el_tail = None, el_count = 0\<rparr>"

definition ext_update :: "nat option \<Rightarrow> ('e ext_node \<Rightarrow> 'e ext_node) \<Rightarrow> 'e ext_store \<Rightarrow> 'e ext_store" where
  "ext_update p f st = (case p of None \<Rightarrow> st | Some a \<Rightarrow> st(a := f (st a)))"

definition ext_append :: "nat \<Rightarrow> 'e \<Rightarrow> 'e ext_store \<times> ext_list \<Rightarrow> 'e ext_store \<times> ext_list" where
  "ext_append a e = (\<lambda>(st, l).
    let st = st(a := \<lparr>en_elem = e, en_next = None, en_prev = None\<rparr>);
        l = l\<lparr>el_count := el_count l + 1\<rparr>;
        st = ext_update (el_tail l) (\<lambda>n. n\<lparr>en_next := Some a\<rparr>) st;
        st = ext_update (Some a) (\<lambda>n. n\<lparr>en_prev := el_tail l\<rparr>) st;
        st = ext_update (Some a) (\<lambda>n. n\<lparr>en_next := None\<rparr>) st;
        l = l\<lparr>el_tail := Some a\<rparr>;
        l = (if el_head l = None then l\<lparr>el_head := el_tail l\<rparr> else l)
    in (st, l))"

definition ext_shift :: "'e ext_store \<times> ext_list \<Rightarrow> 'e option \<times> 'e ext_store \<times> ext_list" where
  "ext_shift = (\<lambda>(st, l).
    case el_head l of
      None \<Rightarrow> (None, st, l)
    | Some n \<Rightarrow>
        let l = l\<lparr>el_head := en_next (st n)\<rparr>;
            st = ext_update (el_head l) (\<lambda>m. m\<lparr>en_prev := None\<rparr>) st;
            l = (if el_tail l = Some n then l\<lparr>el_tail := el_head l\<rparr> else l)
        in (Some (en_elem (st n)), st, l))"

partial_function (option) ext_find_from :: "'e ext_store \<Rightarrow> 'e \<Rightarrow> nat option \<Rightarrow> nat option option" where
  "ext_find_from st e node =
    (case node of None \<Rightarrow> Some None
     | Some a \<Rightarrow> if en_elem (st a) = e then Some (Some a) else ext_find_from st e (en_next (st a)))"

text \<open>
  \<^verbatim>\<open>remove\<close>: it counts down before it looks, and follows the node it found without
  checking that there is one.  The outer \<open>None\<close> is a search that does not end.
\<close>

definition ext_remove :: "'e \<Rightarrow> 'e ext_store \<times> ext_list \<Rightarrow> ('e ext_store \<times> ext_list) result option" where
  "ext_remove e = (\<lambda>(st, l).
    let l = l\<lparr>el_count := el_count l - 1\<rparr> in
    case ext_find_from st e (el_head l) of
      None \<Rightarrow> None
    | Some None \<Rightarrow> Some (Inl NullDeref)
    | Some (Some node) \<Rightarrow>
        let st = ext_update (en_next (st node)) (\<lambda>n. n\<lparr>en_prev := en_prev (st node)\<rparr>) st;
            st = ext_update (en_prev (st node)) (\<lambda>n. n\<lparr>en_next := en_next (st node)\<rparr>) st;
            l = (if Some node = el_head l then l\<lparr>el_head := en_next (st node)\<rparr> else l);
            l = (if Some node = el_tail l then l\<lparr>el_tail := en_prev (st node)\<rparr> else l)
        in Some (Inr (st, l)))"

partial_function (option) ext_visit :: "'e ext_store \<Rightarrow> nat option \<Rightarrow> 'e list option" where
  "ext_visit st node =
    (case node of None \<Rightarrow> Some []
     | Some a \<Rightarrow> Option.bind (ext_visit st (en_next (st a))) (\<lambda>es. Some (en_elem (st a) # es)))"


subsection \<open>The sequence a list holds\<close>

fun eseg :: "'e ext_store \<Rightarrow> nat option \<Rightarrow> nat list \<Rightarrow> nat option \<Rightarrow> bool" where
  "eseg st p [] n = True"
| "eseg st p (a # as) n = (en_prev (st a) = p \<and> en_next (st a) = first_or as n \<and> eseg st (Some a) as n)"

definition ext_rep :: "'e ext_store \<times> ext_list \<Rightarrow> nat list \<Rightarrow> 'e list \<Rightarrow> bool" where
  "ext_rep = (\<lambda>(st, l) as es. distinct as \<and> eseg st None as None \<and> map (\<lambda>a. en_elem (st a)) as = es
     \<and> el_head l = first_or as None \<and> el_tail l = last_or as None)"

lemma eseg_append [simp]:
  "eseg st p (xs @ ys) n \<longleftrightarrow> eseg st p xs (first_or ys n) \<and> eseg st (last_or xs p) ys n"
  by (induction xs arbitrary: p) auto

lemma eseg_cong:
  "(\<And>a. a \<in> set as \<Longrightarrow> st a = st' a) \<Longrightarrow> eseg st p as n \<longleftrightarrow> eseg st' p as n"
  by (induction as arbitrary: p) auto

lemma ext_update_simps [simp]:
  "ext_update None f st = st" "ext_update (Some a) f st = st(a := f (st a))"
  by (simp_all add: ext_update_def)

lemma ext_update_other: "p \<noteq> Some a \<Longrightarrow> ext_update p f st a = st a"
  by (cases p) auto

lemma ext_update_elem:
  "(\<And>n. en_elem (f n) = en_elem n) \<Longrightarrow> en_elem (ext_update p f st a) = en_elem (st a)"
  by (cases p) auto

lemma eseg_set_next:
  assumes "eseg st p as n" "distinct as"
  shows "eseg (ext_update (last_or as None) (\<lambda>m. m\<lparr>en_next := n'\<rparr>) st) p as n'"
proof (cases as rule: rev_cases)
  case (snoc bs b)
  then have "eseg (st(b := (st b)\<lparr>en_next := n'\<rparr>)) p bs (Some b) \<longleftrightarrow> eseg st p bs (Some b)"
    using assms(2) by (intro eseg_cong) auto
  then show ?thesis
    using assms snoc by simp
qed simp

lemma eseg_set_prev:
  assumes "eseg st p as n" "distinct as"
  shows "eseg (ext_update (first_or as None) (\<lambda>m. m\<lparr>en_prev := p'\<rparr>) st) p' as n"
proof (cases as)
  case (Cons b bs)
  then have "eseg (st(b := (st b)\<lparr>en_prev := p'\<rparr>)) (Some b) bs n \<longleftrightarrow> eseg st (Some b) bs n"
    using assms(2) by (intro eseg_cong) auto
  then show ?thesis
    using assms Cons by simp
qed simp

lemma ext_rep_new: "ext_rep (st, ext_new) [] []"
  by (simp add: ext_rep_def ext_new_def)

lemma ext_append_rep:
  assumes rep: "ext_rep (st, l) as es" and a: "a \<notin> set as"
  shows "ext_rep (ext_append a e (st, l)) (as @ [a]) (es @ [e])"
proof -
  have as: "distinct as" "eseg st None as None" "map (\<lambda>a. en_elem (st a)) as = es"
    and l: "el_head l = first_or as None" "el_tail l = last_or as None"
    using rep by (auto simp: ext_rep_def)
  let ?s1 = "st(a := \<lparr>en_elem = e, en_next = None, en_prev = None\<rparr>)"
  let ?s2 = "ext_update (last_or as None) (\<lambda>n. n\<lparr>en_next := Some a\<rparr>) ?s1"
  let ?s4 = "?s2(a := \<lparr>en_elem = e, en_next = None, en_prev = last_or as None\<rparr>)"
  have "eseg ?s1 None as None"
    using as a by (subst eseg_cong [of _ _ st]) auto
  then have "eseg ?s2 None as (Some a)"
    using as(1) by (rule eseg_set_next)
  then have seg: "eseg ?s4 None as (Some a)"
    using a by (subst eseg_cong [of _ _ ?s2]) auto
  have a2: "?s2 a = ?s1 a"
    using last_or_notin [OF a] by (rule ext_update_other)
  obtain l' where run: "ext_append a e (st, l) = (?s4, l')"
    and l': "el_head l' = first_or as (Some a)" "el_tail l' = Some a"
    using l a2 by (cases as) (auto simp: ext_append_def Let_def)
  have "map (\<lambda>b. en_elem (?s4 b)) as = es"
    using as(3) a by (auto simp: ext_update_elem)
  then show ?thesis
    unfolding run using as(1) a seg l' by (simp add: ext_rep_def)
qed

lemma ext_shift_empty: "ext_rep s [] es \<Longrightarrow> ext_shift s = (None, s)"
  by (cases s) (auto simp: ext_rep_def ext_shift_def)

lemma ext_shift_rep:
  assumes "ext_rep (st, l) (a # as) (e # es)"
  shows "fst (ext_shift (st, l)) = Some e \<and> ext_rep (snd (ext_shift (st, l))) as es"
proof -
  have as: "distinct as" "a \<notin> set as" "eseg st (Some a) as None" "map (\<lambda>a. en_elem (st a)) as = es"
    "en_elem (st a) = e" "en_next (st a) = first_or as None"
    and l: "el_head l = Some a" "el_tail l = last_or as (Some a)"
    using assms by (auto simp: ext_rep_def)
  let ?st = "ext_update (first_or as None) (\<lambda>m. m\<lparr>en_prev := None\<rparr>) st"
  have "eseg ?st None as None"
    using as(3,1) by (rule eseg_set_prev)
  moreover have "map (\<lambda>a. en_elem (?st a)) as = es" "en_elem (?st a) = e"
    using as(4,5) by (auto simp: ext_update_elem)
  moreover have "last_or as (Some a) = Some a \<longleftrightarrow> as = []"
    using as(2) by (auto simp: last_or_def)
  ultimately show ?thesis
    using as l by (auto simp: ext_shift_def ext_rep_def Let_def last_or_def)
qed

text \<open>\<^verbatim>\<open>shift\<close> takes an element out but leaves \<^verbatim>\<open>count_\<close> as it was.\<close>

lemma ext_shift_count: "el_count (snd (snd (ext_shift s))) = el_count (snd s)"
  by (cases s) (auto simp: ext_shift_def Let_def split: option.splits)

lemma ext_visit_seg: "eseg st p as None \<Longrightarrow> ext_visit st (first_or as None) = Some (map (\<lambda>a. en_elem (st a)) as)"
proof (induction as arbitrary: p)
  case Nil
  then show ?case
    by (subst ext_visit.simps) simp
next
  case (Cons a as)
  then show ?case
    by (subst ext_visit.simps) auto
qed

lemma ext_visit_rep: "ext_rep (st, l) as es \<Longrightarrow> ext_visit st (el_head l) = Some es"
  by (auto simp: ext_rep_def ext_visit_seg)

lemma ext_find_seg:
  "eseg st p as None \<Longrightarrow> ext_find_from st e (first_or as None) = Some (find (\<lambda>a. en_elem (st a) = e) as)"
proof (induction as arbitrary: p)
  case Nil
  then show ?case
    by (subst ext_find_from.simps) simp
next
  case (Cons a as)
  then show ?case
    by (subst ext_find_from.simps) auto
qed

lemma ext_remove_absent:
  assumes "ext_rep (st, l) as es" "e \<notin> set es"
  shows "ext_remove e (st, l) = Some (Inl NullDeref)"
proof -
  have "find (\<lambda>a. en_elem (st a) = e) as = None"
    using assms by (auto simp: ext_rep_def find_None_iff)
  then show ?thesis
    using assms by (auto simp: ext_remove_def ext_rep_def ext_find_seg)
qed

lemma ext_remove_rep:
  assumes rep: "ext_rep (st, l) (as @ a # bs) (es @ e # fs)" and len: "length as = length es"
    and first: "e \<notin> set es"
  shows "\<exists>s'. ext_remove e (st, l) = Some (Inr s') \<and> ext_rep s' (as @ bs) (es @ fs)"
proof -
  have d: "distinct as" "distinct bs" "set as \<inter> set bs = {}" "a \<notin> set as" "a \<notin> set bs"
    and seg: "eseg st None as (Some a)" "eseg st (Some a) bs None"
      "en_prev (st a) = last_or as None" "en_next (st a) = first_or bs None"
    and l: "el_head l = first_or as (Some a)" "el_tail l = last_or bs (Some a)"
    and el: "map (\<lambda>a. en_elem (st a)) as = es" "en_elem (st a) = e" "map (\<lambda>a. en_elem (st a)) bs = fs"
    using rep len by (auto simp: ext_rep_def)
  let ?s1 = "ext_update (first_or bs None) (\<lambda>n. n\<lparr>en_prev := last_or as None\<rparr>) st"
  let ?s2 = "ext_update (last_or as None) (\<lambda>n. n\<lparr>en_next := first_or bs None\<rparr>) ?s1"
  have keep: "ext_update (first_or bs None) f S a = S a" "ext_update (last_or as None) f S a = S a"
    for f and S :: "'a ext_store"
    using first_or_notin [OF d(5)] last_or_notin [OF d(4)] by (simp_all add: ext_update_other)
  have "first_or bs None \<noteq> Some z" if "z \<in> set as" for z
    using d that by (intro first_or_notin) auto
  then have "eseg ?s1 None as (Some a)"
    using seg(1) by (subst eseg_cong [of _ _ st]) (auto simp: ext_update_other)
  then have as2: "eseg ?s2 None as (first_or bs None)"
    using d(1) by (rule eseg_set_next)
  have "last_or as None \<noteq> Some z" if "z \<in> set bs" for z
    using d that by (intro last_or_notin) auto
  moreover have "eseg ?s1 (last_or as None) bs None"
    using seg(2) d(2) by (rule eseg_set_prev)
  ultimately have bs2: "eseg ?s2 (last_or as None) bs None"
    by (subst eseg_cong [of _ _ ?s1]) (auto simp: ext_update_other)
  have "find (\<lambda>x. en_elem (st x) = e) as = None"
    using first el(1) by (fastforce simp: find_None_iff)
  then have "find (\<lambda>x. en_elem (st x) = e) (as @ a # bs) = Some a"
    using el(2) by (induction as) (auto split: if_splits)
  then have fnd: "ext_find_from st e (el_head l) = Some (Some a)"
    using ext_find_seg [of st None "as @ a # bs" e] rep by (simp add: ext_rep_def)
  have hd: "Some a = el_head l \<longleftrightarrow> as = []" "Some a = el_tail l \<longleftrightarrow> bs = []"
    unfolding l using d by (auto simp: first_or_def last_or_def split: list.splits)
  let ?l1 = "l\<lparr>el_count := el_count l - 1\<rparr>"
  let ?l2 = "if as = [] then ?l1\<lparr>el_head := first_or bs None\<rparr> else ?l1"
  let ?l3 = "if bs = [] then ?l2\<lparr>el_tail := last_or as None\<rparr> else ?l2"
  have run: "ext_remove e (st, l) = Some (Inr (?s2, ?l3))"
    unfolding ext_remove_def Let_def by (simp add: fnd seg(3,4) keep hd)
  have l': "el_head ?l3 = first_or as (first_or bs None)" "el_tail ?l3 = last_or bs (last_or as None)"
    using l by (cases as; cases bs; simp)+
  have "map (\<lambda>x. en_elem (?s2 x)) (as @ bs) = es @ fs"
    using el by (simp add: ext_update_elem)
  then show ?thesis
    using run l' d as2 bs2 by (simp add: ext_rep_def)
qed

end
