(* ===== verification/Spin_Lock.thy ===== *)
theory Spin_Lock
  imports Common_Lib
begin

text \<open>
  The recursive lock of \<^verbatim>\<open>spinlock.hpp\<close> and the scopes of \<^verbatim>\<open>scope.hpp\<close>.  The state of a lock comes with
  the interrupt flag of the processor; \<open>cur\<close> is the running thread, \<open>None\<close> before threads
  exist.  There is one processor, so waiting for a lock that another thread holds,
  with interrupts off, never ends.
\<close>

record spin_lock =
  locker :: "nat option"
  recursive :: int
  enable_ints :: bool

definition spin_lock_new :: spin_lock where
  "spin_lock_new = \<lparr>locker = None, recursive = 0, enable_ints = False\<rparr>"

definition lock :: "nat option \<Rightarrow> spin_lock \<times> bool \<Rightarrow> (spin_lock \<times> bool) result" where
  "lock cur = (\<lambda>(l, ints).
    let l = l\<lparr>enable_ints := ints\<rparr>;
        ints = (if enable_ints l then snd (disable_interrupts ints) else ints)
    in if locker l = None then Inr (l\<lparr>locker := cur\<rparr>, ints)
       else if locker l = cur then Inr (l\<lparr>recursive := recursive l + 1\<rparr>, ints)
       else Inl Diverges)"

definition unlock :: "nat option \<Rightarrow> spin_lock \<times> bool \<Rightarrow> (spin_lock \<times> bool) result" where
  "unlock cur = (\<lambda>(l, ints).
    bind_result (assert_that (locker l = cur)) (\<lambda>_.
      let l = (if recursive l > 0 then l\<lparr>recursive := recursive l - 1\<rparr> else l\<lparr>locker := None\<rparr>)
      in Inr (l, if enable_ints l then snd (enable_interrupts ints) else ints)))"

definition force_unlock :: "spin_lock \<Rightarrow> spin_lock result" where
  "force_unlock l = bind_result (assert_that (recursive l = 0)) (\<lambda>_. Inr (l\<lparr>locker := None\<rparr>))"

text \<open>\<^verbatim>\<open>synchronized(lock) { body }\<close>: the body runs once between \<^verbatim>\<open>lock\<close> and \<^verbatim>\<open>unlock\<close>.\<close>

definition synchronized :: "nat option \<Rightarrow> (spin_lock \<times> bool \<Rightarrow> (spin_lock \<times> bool) result)
    \<Rightarrow> spin_lock \<times> bool \<Rightarrow> (spin_lock \<times> bool) result" where
  "synchronized cur body s = bind_result (lock cur s) (\<lambda>s. bind_result (body s) (unlock cur))"

text \<open>\<^verbatim>\<open>SuspendInterrupts\<close>: the constructor and the destructor around a body that leaves the flag at \<open>f\<close>.\<close>

definition suspend_interrupts :: "(bool \<Rightarrow> bool) \<Rightarrow> bool \<Rightarrow> bool" where
  "suspend_interrupts body ints =
    (let (cond, ints) = disable_interrupts ints in restore_interrupts cond (body ints))"


subsection \<open>Nesting\<close>

definition lock_free :: "spin_lock \<Rightarrow> bool" where
  "lock_free l \<longleftrightarrow> locker l = None \<and> recursive l = 0"

definition held_by :: "nat \<Rightarrow> nat \<Rightarrow> spin_lock \<Rightarrow> bool" where
  "held_by t n l \<longleftrightarrow> locker l = Some t \<and> recursive l = int n"

lemma lock_first:
  "lock_free l \<Longrightarrow> \<exists>l'. lock (Some t) (l, ints) = Inr (l', False) \<and> held_by t 0 l' \<and> enable_ints l' = ints"
  by (simp add: lock_free_def held_by_def lock_def disable_interrupts_def)

lemma lock_again:
  "held_by t n l \<Longrightarrow> \<exists>l'. lock (Some t) (l, False) = Inr (l', False) \<and> held_by t (Suc n) l' \<and> \<not> enable_ints l'"
  by (simp add: held_by_def lock_def)

lemma unlock_inner:
  "held_by t (Suc n) l \<Longrightarrow> \<not> enable_ints l \<Longrightarrow>
    \<exists>l'. unlock (Some t) (l, False) = Inr (l', False) \<and> held_by t n l' \<and> \<not> enable_ints l'"
  by (simp add: held_by_def unlock_def)

lemma unlock_last:
  "held_by t 0 l \<Longrightarrow> \<exists>l'. unlock (Some t) (l, False) = Inr (l', enable_ints l) \<and> lock_free l'"
  by (simp add: held_by_def unlock_def lock_free_def enable_interrupts_def)

fun nested :: "nat \<Rightarrow> nat \<Rightarrow> spin_lock \<times> bool \<Rightarrow> (spin_lock \<times> bool) result" where
  "nested t 0 s = Inr s"
| "nested t (Suc n) s = synchronized (Some t) (nested t n) s"

lemma nested_held:
  "held_by t k l \<Longrightarrow>
    \<exists>l'. nested t n (l, False) = Inr (l', False) \<and> held_by t k l' \<and> enable_ints l' = (if n = 0 then enable_ints l else False)"
proof (induction n arbitrary: k l)
  case (Suc n)
  obtain l1 where l1: "lock (Some t) (l, False) = Inr (l1, False)" "held_by t (Suc k) l1" "\<not> enable_ints l1"
    using lock_again [OF Suc.prems] by blast
  obtain l2 where l2: "nested t n (l1, False) = Inr (l2, False)" "held_by t (Suc k) l2" "\<not> enable_ints l2"
    using Suc.IH [OF l1(2)] l1(3) by (auto split: if_splits)
  obtain l3 where "unlock (Some t) (l2, False) = Inr (l3, False)" "held_by t k l3" "\<not> enable_ints l3"
    using unlock_inner [OF l2(2,3)] by blast
  then show ?case
    using l1(1) l2(1) by (simp add: synchronized_def)
qed simp

text \<open>
  C34: A thread that enters \<^verbatim>\<open>synchronized\<close> scopes of a free lock nested \<open>n\<close> deep always gets through and
  leaves the lock free; but if the scopes are nested at all, interrupts are off
  afterwards even when they were on before, because the inner \<^verbatim>\<open>lock\<close> overwrites what the
  outer one saved.
\<close>

theorem nested_lock_interrupts:
  assumes "lock_free l"
  shows "\<exists>l'. nested t n (l, ints) = Inr (l', if n \<le> 1 then ints else False) \<and> lock_free l'"
proof (cases n)
  case (Suc k)
  obtain l1 where l1: "lock (Some t) (l, ints) = Inr (l1, False)" "held_by t 0 l1" "enable_ints l1 = ints"
    using lock_first [OF assms] by blast
  obtain l2 where l2: "nested t k (l1, False) = Inr (l2, False)" "held_by t 0 l2"
    "enable_ints l2 = (if k = 0 then ints else False)"
    using nested_held [OF l1(2)] l1(3) by auto
  obtain l3 where "unlock (Some t) (l2, False) = Inr (l3, enable_ints l2)" "lock_free l3"
    using unlock_last [OF l2(2)] by blast
  then show ?thesis
    using Suc l1(1) l2(1,3) by (auto simp: synchronized_def)
qed (use assms in simp)

theorem nested_lock_interrupts_witness:
  "\<exists>l'. nested 1 2 (spin_lock_new, True) = Inr (l', False) \<and> lock_free l'"
  using nested_lock_interrupts [of spin_lock_new 1 2 True] by (simp add: lock_free_def spin_lock_new_def)

lemma suspend_restores: "(\<And>i. body i = i) \<Longrightarrow> suspend_interrupts body ints = ints"
  by (simp add: suspend_interrupts_def disable_interrupts_def restore_interrupts_def enable_interrupts_def)

lemma lock_excludes: "held_by t n l \<Longrightarrow> u \<noteq> t \<Longrightarrow>
    lock (Some u) (l, ints) = Inl Diverges \<and> unlock (Some u) (l, ints) = Inl AssertFailed"
  by (simp add: held_by_def lock_def unlock_def)

end
