(* ===== verification/Scheduler.thy ===== *)
theory Scheduler
  imports Process External_List Spin_Lock
begin

text \<open>
  Threads, the scheduler, wait queues and the timer tick: \<^verbatim>\<open>thread.hpp\<close>, \<^verbatim>\<open>thread.cpp\<close>,
  \<^verbatim>\<open>scheduler.hpp\<close>, \<^verbatim>\<open>scheduler.cpp\<close>, \<^verbatim>\<open>wait_queue.cpp\<close> and \<^verbatim>\<open>timer.cpp\<close>.  Threads and processes
  are named by the address of their object.  The registers of a thread that is not running
  are where it continues: inside \<^verbatim>\<open>switch_thread\<close> with the interrupt state of that call, at
  the return of \<^verbatim>\<open>fork\<close> in the child, or at the start of a new thread.  An operation that
  switches threads returns the state in which the next thread continues.
\<close>

subsection \<open>Threads\<close>

datatype thread_state = eReady | eRunning | eWaiting | eIOPending | eIOWait | eDieing | eDead

datatype resume_point = InSwitch int | InFork | AtStart u32

record saved_registers =
  sr_eip :: u32
  sr_esp :: u32
  sr_ebp :: u32
  sr_edi :: u32
  sr_esi :: u32
  sr_ebx :: u32

record registers =
  rg_eip :: u32
  rg_useresp :: u32
  rg_ebp :: u32
  rg_edi :: u32
  rg_esi :: u32
  rg_ebx :: u32
  rg_eax :: u32
  rg_ecx :: u32
  rg_edx :: u32

definition saved_set :: "registers \<Rightarrow> saved_registers" where
  "saved_set regs = \<lparr>sr_eip = rg_eip regs, sr_esp = rg_useresp regs, sr_ebp = rg_ebp regs,
     sr_edi = rg_edi regs, sr_esi = rg_esi regs, sr_ebx = rg_ebx regs\<rparr>"

definition saved_copy_to :: "saved_registers \<Rightarrow> registers \<Rightarrow> registers" where
  "saved_copy_to sr regs = regs\<lparr>rg_eip := sr_eip sr, rg_useresp := sr_esp sr, rg_ebp := sr_ebp sr,
     rg_edi := sr_edi sr, rg_esi := sr_esi sr, rg_ebx := sr_ebx sr\<rparr>"

record thread =
  t_process :: nat
  t_id :: int
  t_state :: thread_state
  t_resume :: resume_point
  t_directory :: u32
  t_kernel_stack :: u32
  t_alarm_at :: u32

definition KERNEL_STACK_SIZE :: nat where "KERNEL_STACK_SIZE = 4096"
definition cMaxProcesses :: nat where "cMaxProcesses = 512"
definition SLICE_HZ :: u32 where "SLICE_HZ = 100"

definition secs_to_ticks :: "u32 \<Rightarrow> u32" where
  "secs_to_ticks secs = secs * SLICE_HZ"

definition thread_new :: "nat \<Rightarrow> int \<Rightarrow> thread \<Rightarrow> thread" where
  "thread_new proc ident raw = raw\<lparr>t_process := proc, t_id := ident, t_alarm_at := 0\<rparr>"

record sched =
  s_thread :: "nat \<Rightarrow> thread"
  s_run :: "nat nodes"
  s_proc :: "nat \<Rightarrow> process"
  s_pnode :: "nat nodes"
  s_processes :: "nat \<Rightarrow> nat option"
  s_cleanup :: "nat dlist"
  s_ready :: "nat dlist"
  s_waiting :: "nat dlist"
  s_hiprio :: "nat list"
  s_idle :: "nat option"
  s_current :: "nat option"
  s_lock :: spin_lock
  s_ints :: bool
  s_ticks :: u32
  s_vm :: vmem
  s_esp0 :: u32
  s_fast_io :: int
  s_slow_io :: int

definition thread_update :: "nat \<Rightarrow> (thread \<Rightarrow> thread) \<Rightarrow> sched \<Rightarrow> sched" where
  "thread_update t f s = s\<lparr>s_thread := (s_thread s)(t := f (s_thread s t))\<rparr>"

definition proc_update :: "nat \<Rightarrow> (process \<Rightarrow> process) \<Rightarrow> sched \<Rightarrow> sched" where
  "proc_update p f s = s\<lparr>s_proc := (s_proc s)(p := f (s_proc s p))\<rparr>"

definition set_state :: "nat \<Rightarrow> thread_state \<Rightarrow> sched \<Rightarrow> sched" where
  "set_state t st = thread_update t (\<lambda>th. th\<lparr>t_state := st\<rparr>)"

definition on_ready :: "(nat nodes \<times> nat dlist \<Rightarrow> nat nodes \<times> nat dlist) \<Rightarrow> sched \<Rightarrow> sched" where
  "on_ready f s = (let (n, l) = f (s_run s, s_ready s) in s\<lparr>s_run := n, s_ready := l\<rparr>)"

definition on_waiting :: "(nat nodes \<times> nat dlist \<Rightarrow> nat nodes \<times> nat dlist) \<Rightarrow> sched \<Rightarrow> sched" where
  "on_waiting f s = (let (n, l) = f (s_run s, s_waiting s) in s\<lparr>s_run := n, s_waiting := l\<rparr>)"

definition on_cleanup :: "(nat nodes \<times> nat dlist \<Rightarrow> nat nodes \<times> nat dlist) \<Rightarrow> sched \<Rightarrow> sched" where
  "on_cleanup f s = (let (n, l) = f (s_pnode s, s_cleanup s) in s\<lparr>s_pnode := n, s_cleanup := l\<rparr>)"

text \<open>\<^verbatim>\<open>synchronized(lock_)\<close>: an early \<^verbatim>\<open>return\<close> of the body also releases the lock.\<close>

definition sync :: "(sched \<Rightarrow> ('a \<times> sched) result) \<Rightarrow> sched \<Rightarrow> ('a \<times> sched) result" where
  "sync body s =
    bind_result (lock (s_current s) (s_lock s, s_ints s)) (\<lambda>(l, i).
    bind_result (body (s\<lparr>s_lock := l, s_ints := i\<rparr>)) (\<lambda>(x, s).
    bind_result (unlock (s_current s) (s_lock s, s_ints s)) (\<lambda>(l, i).
      Inr (x, s\<lparr>s_lock := l, s_ints := i\<rparr>))))"

definition sync_do :: "(sched \<Rightarrow> sched) \<Rightarrow> sched \<Rightarrow> sched result" where
  "sync_do f s = bind_result (sync (\<lambda>s. Inr ((), f s)) s) (\<lambda>(_, s). Inr s)"

definition make_ready :: "nat \<Rightarrow> sched \<Rightarrow> sched result" where
  "make_ready t = sync_do (\<lambda>s. on_ready (list_prepend t) (set_state t eReady s))"

definition make_wait :: "nat \<Rightarrow> sched \<Rightarrow> sched result" where
  "make_wait t = sync_do (\<lambda>s. on_waiting (list_prepend t) (set_state t eWaiting s))"

definition remove_from_ready :: "nat \<Rightarrow> sched \<Rightarrow> sched result" where
  "remove_from_ready t = sync_do (on_ready (list_unlink t))"

definition remove_from_waiting :: "nat \<Rightarrow> sched \<Rightarrow> sched result" where
  "remove_from_waiting t = sync_do (on_waiting (list_unlink t))"

definition sleep_til :: "nat \<Rightarrow> u32 \<Rightarrow> sched \<Rightarrow> sched" where
  "sleep_til t secs s = thread_update t (\<lambda>th. th\<lparr>t_alarm_at := s_ticks s + secs_to_ticks secs\<rparr>) s"

definition alarm_expired :: "sched \<Rightarrow> nat \<Rightarrow> bool" where
  "alarm_expired s t \<longleftrightarrow> t_state (s_thread s t) = eWaiting \<and> t_alarm_at (s_thread s t) \<noteq> 0
     \<and> t_alarm_at (s_thread s t) \<le> s_ticks s"

definition die :: "nat \<Rightarrow> sched \<Rightarrow> sched result" where
  "die t s =
    bind_result (if t_state (s_thread s t) = eWaiting then remove_from_waiting t s
                 else if t_state (s_thread s t) = eReady then remove_from_ready t s
                 else Inr s) (\<lambda>s.
      Inr (set_state t eDead s))"


subsection \<open>Switching\<close>

definition pick_next :: "sched \<Rightarrow> nat option" where
  "pick_next s = (if dl_count (s_ready s) = 0 then s_idle s else dl_head (s_ready s))"

definition dispatch :: "nat \<Rightarrow> sched \<Rightarrow> sched" where
  "dispatch nxt s =
    (let s = (if Some nxt \<noteq> s_idle s then on_ready (list_append nxt) (on_ready (list_unlink nxt) s) else s)
     in s\<lparr>s_vm := (s_vm s)\<lparr>current_directory := t_directory (s_thread s nxt)\<rparr>,
          s_esp0 := t_kernel_stack (s_thread s nxt)\<rparr>)"

text \<open>What the restored thread does first with the interrupt flag.\<close>

definition resume_ints :: "resume_point \<Rightarrow> bool \<Rightarrow> bool" where
  "resume_ints r ints =
    (case r of InSwitch st \<Rightarrow> restore_interrupts st ints | InFork \<Rightarrow> ints | AtStart _ \<Rightarrow> snd (enable_interrupts ints))"

definition switch_thread :: "sched \<Rightarrow> sched result" where
  "switch_thread s =
    (case s_current s of
       None \<Rightarrow> Inr s
     | Some cur \<Rightarrow>
         let (st, ints) = disable_interrupts (s_ints s);
             s = thread_update cur (\<lambda>th. th\<lparr>t_resume := InSwitch st\<rparr>) (s\<lparr>s_ints := ints\<rparr>)
         in bind_result (sync (\<lambda>s. Inr (pick_next s, s)) s) (\<lambda>(nxt, s).
            case nxt of
              None \<Rightarrow> Inl AssertFailed
            | Some nxt \<Rightarrow>
                if nxt = cur then Inr (s\<lparr>s_ints := restore_interrupts st (s_ints s)\<rparr>)
                else bind_result (sync_do (dispatch nxt) s) (\<lambda>s.
                  Inr (s\<lparr>s_current := Some nxt, s_ints := resume_ints (t_resume (s_thread s nxt)) (s_ints s)\<rparr>))))"

definition yield :: "sched \<Rightarrow> sched result" where
  "yield s = switch_thread s"

partial_function (option) tick_loop :: "nat option \<Rightarrow> bool \<times> sched \<Rightarrow> (bool \<times> sched) result option" where
  "tick_loop i bs =
    (case i of None \<Rightarrow> Some (Inr bs)
     | Some node \<Rightarrow>
         (let (t, i') = iter_advance (s_run (snd bs)) node in
          if alarm_expired (snd bs) t
          then (case make_ready t (on_waiting (list_unlink t) (snd bs)) of
                  Inl e \<Rightarrow> Some (Inl e)
                | Inr s \<Rightarrow> tick_loop i' (True, s))
          else tick_loop i' bs))"

definition or_diverges :: "'a result option \<Rightarrow> 'a result" where
  "or_diverges r = (case r of None \<Rightarrow> Inl Diverges | Some r \<Rightarrow> r)"

definition on_tick :: "sched \<Rightarrow> sched result" where
  "on_tick s =
    bind_result (sync (\<lambda>s. or_diverges (tick_loop (dl_head (s_waiting s)) (False, s))) s) (\<lambda>(schedule, s).
      if schedule then switch_thread s else Inr s)"

definition timer_handle :: "sched \<Rightarrow> sched result" where
  "timer_handle s = on_tick (s\<lparr>s_ticks := s_ticks s + 1\<rparr>)"

partial_function (option) cleanup_loop :: "nat option \<Rightarrow> sched \<Rightarrow> sched option" where
  "cleanup_loop i s =
    (case i of None \<Rightarrow> Some s
     | Some node \<Rightarrow>
         (let (p, i') = iter_advance (s_pnode s) node;
              s = on_cleanup (list_unlink p) s;
              s = s\<lparr>s_processes := (s_processes s)(nat (p_pid (s_proc s p)) := None)\<rparr>;
              s = s\<lparr>s_vm := free_directory (p_directory (s_proc s p)) (s_vm s)\<rparr>
          in cleanup_loop i' s))"

definition cleanup :: "sched \<Rightarrow> (unit \<times> sched) result" where
  "cleanup s = (case cleanup_loop (dl_head (s_cleanup s)) s of None \<Rightarrow> Inl Diverges | Some s \<Rightarrow> Inr ((), s))"

definition on_idle :: "sched \<Rightarrow> sched result" where
  "on_idle s = bind_result (sync cleanup s) (\<lambda>(_, s). switch_thread s)"

definition schedule_hiprio :: "nat \<Rightarrow> sched \<Rightarrow> sched result" where
  "schedule_hiprio t s = (if s_current s = Some t then Inr s
     else sync_do (\<lambda>s. s\<lparr>s_hiprio := s_hiprio s @ [t]\<rparr>) s)"


subsection \<open>Operations of the running thread\<close>

definition cur_process :: "sched \<Rightarrow> nat result" where
  "cur_process s = (case s_current s of None \<Rightarrow> Inl NullDeref | Some t \<Rightarrow> Inr (t_process (s_thread s t)))"

definition getpid :: "sched \<Rightarrow> int result" where
  "getpid s = bind_result (cur_process s) (\<lambda>p. Inr (p_pid (s_proc s p)))"

definition with_current :: "(nat \<Rightarrow> sched \<Rightarrow> 'a result) \<Rightarrow> sched \<Rightarrow> 'a result" where
  "with_current f s = (case s_current s of None \<Rightarrow> Inl NullDeref | Some t \<Rightarrow> f t s)"

definition not_idle :: "sched \<Rightarrow> unit result" where
  "not_idle s = bind_result (getpid s) (\<lambda>pid. assert_that (pid \<noteq> 0))"

definition process_exit :: "nat \<Rightarrow> int \<Rightarrow> sched \<Rightarrow> sched result" where
  "process_exit p code s =
    (let s = proc_update p (\<lambda>pr. pr\<lparr>p_alive := False, p_exit_code := code\<rparr>) s
     in fold_result (\<lambda>t s. bind_result (assert_that (t_process (s_thread s t) = p)) (\<lambda>_. die t s))
          (p_threads (s_proc s p)) s)"

definition sched_exit :: "int \<Rightarrow> sched \<Rightarrow> sched result" where
  "sched_exit code s =
    bind_result (not_idle s) (\<lambda>_.
    bind_result (sync (with_current (\<lambda>cur s.
        let s = on_ready (list_unlink cur) s; p = t_process (s_thread s cur)
        in bind_result (process_exit p code s) (\<lambda>s. Inr ((), on_cleanup (list_prepend p) s)))) s) (\<lambda>(_, s).
      switch_thread s))"

definition wait_any :: int where "wait_any = - 1"

definition sched_sleep :: "u32 \<Rightarrow> sched \<Rightarrow> sched result" where
  "sched_sleep secs s =
    bind_result (not_idle s) (\<lambda>_.
    bind_result (sync (with_current (\<lambda>cur s.
        bind_result (make_wait cur (on_ready (list_unlink cur) (sleep_til cur secs s))) (\<lambda>s. Inr ((), s)))) s) (\<lambda>(_, s).
      switch_thread s))"

definition start_io :: "sched \<Rightarrow> sched result" where
  "start_io s = bind_result (sync (with_current (\<lambda>cur s. Inr ((), set_state cur eIOPending s))) s) (\<lambda>(_, s). Inr s)"

definition io_wait :: "sched \<Rightarrow> sched result" where
  "io_wait s =
    bind_result (not_idle s) (\<lambda>_.
    bind_result (sync (with_current (\<lambda>cur s.
        if t_state (s_thread s cur) \<noteq> eIOPending then Inr (True, s\<lparr>s_fast_io := s_fast_io s + 1\<rparr>)
        else Inr (False, on_ready (list_unlink cur)
               (set_state cur eIOWait (s\<lparr>s_slow_io := s_slow_io s + 1\<rparr>))))) s) (\<lambda>(fast, s).
      if fast then Inr s else switch_thread s))"

subsection \<open>Processes and threads\<close>

definition new_pid :: "sched \<Rightarrow> int result" where
  "new_pid s = (case find (\<lambda>i. s_processes s i = None) [0..<cMaxProcesses] of
     Some i \<Rightarrow> Inr (int i) | None \<Rightarrow> Inl Panicked)"

definition find_process :: "int \<Rightarrow> sched \<Rightarrow> nat option result" where
  "find_process pid s = (if 0 \<le> pid \<and> pid < int cMaxProcesses then Inr (s_processes s (nat pid)) else Inl OutOfBounds)"

definition process_group :: "int \<Rightarrow> sched \<Rightarrow> int result" where
  "process_group pid s =
    (if pid = 0 then bind_result (cur_process s) (\<lambda>p. Inr (se_pgrp (p_session (s_proc s p))))
     else bind_result (find_process pid s) (\<lambda>p.
       case p of Some p \<Rightarrow> Inr (se_pgrp (p_session (s_proc s p))) | None \<Rightarrow> Inr (- 1)))"

text \<open>\<^verbatim>\<open>Process::new_thread\<close> in the memory \<open>mem\<close>, and the fields set by its callers.\<close>

definition new_thread :: "nat \<Rightarrow> nat \<Rightarrow> sched \<Rightarrow> sched" where
  "new_thread p mem s =
    (let s = s\<lparr>s_thread := (s_thread s)(mem := thread_new p (p_thread_ids (s_proc s p)) (s_thread s mem)),
               s_run := (s_run s)(mem := list_node_new)\<rparr>
     in proc_update p (\<lambda>pr. pr\<lparr>p_thread_ids := p_thread_ids pr + 1\<rparr>) s)"

definition place_thread :: "nat \<Rightarrow> u32 \<Rightarrow> sched \<Rightarrow> sched" where
  "place_thread mem directory =
    thread_update mem (\<lambda>th. th\<lparr>t_directory := directory, t_kernel_stack := of_nat (mem + KERNEL_STACK_SIZE)\<rparr>)"

text \<open>A new process object at \<open>p\<close>, registered under \<open>pid\<close> with the directory \<open>d\<close>.\<close>

definition register_process :: "nat \<Rightarrow> int \<Rightarrow> u32 \<Rightarrow> posix_session \<Rightarrow> sched \<Rightarrow> sched" where
  "register_process p pid d se s =
    s\<lparr>s_proc := (s_proc s)(p := (process_new pid se (s_proc s p))\<lparr>p_directory := d\<rparr>),
      s_pnode := (s_pnode s)(p := list_node_new),
      s_processes := (s_processes s)(nat pid := Some p)\<rparr>"

definition sched_init :: "nat \<Rightarrow> nat \<Rightarrow> sched \<Rightarrow> sched" where
  "sched_init p mem s =
    (let s = s\<lparr>s_ints := snd (disable_interrupts (s_ints s))\<rparr>;
         s = s\<lparr>s_processes := (s_processes s)(0 := None)\<rparr>;
         s = s\<lparr>s_cleanup := list_init (s_cleanup s), s_ready := list_init (s_ready s), s_waiting := list_init (s_waiting s)\<rparr>;
         s = register_process p 0 (current_directory (s_vm s)) session_init s;
         s = new_thread p mem s;
         s = place_thread mem (current_directory (s_vm s)) s;
         s = set_state mem eReady s;
         s = s\<lparr>s_current := Some mem, s_idle := Some mem\<rparr>
     in s\<lparr>s_ints := snd (enable_interrupts (s_ints s))\<rparr>)"

definition fork :: "nat \<Rightarrow> nat \<Rightarrow> sched \<Rightarrow> (int \<times> sched) result" where
  "fork p mem s =
    bind_result (sync (\<lambda>s.
      bind_result (clone_current (s_vm s)) (\<lambda>(directory, vm).
      let s = s\<lparr>s_vm := vm\<rparr> in
      bind_result (new_pid s) (\<lambda>pid.
      bind_result (cur_process s) (\<lambda>cp.
        Inr (directory, register_process p pid directory (p_session (s_proc s cp)) s))))) s) (\<lambda>(directory, s).
    let s = place_thread mem directory (new_thread p mem s) in
    bind_result (make_ready mem s) (\<lambda>s.
      Inr (p_pid (s_proc s p), thread_update mem (\<lambda>th. th\<lparr>t_resume := InFork\<rparr>) s)))"

definition spawn_init :: "nat \<Rightarrow> nat \<Rightarrow> u32 \<Rightarrow> sched \<Rightarrow> (int \<times> sched) result" where
  "spawn_init p mem func s =
    (let (st, ints) = disable_interrupts (s_ints s); s = s\<lparr>s_ints := ints\<rparr> in
     bind_result (sync (\<lambda>s.
       bind_result (new_directory (s_vm s)) (\<lambda>(directory, vm).
       let s = s\<lparr>s_vm := vm\<rparr> in
       bind_result (cur_process s) (\<lambda>cp.
         Inr (directory, register_process p 1 directory (p_session (s_proc s cp)) s)))) s) (\<lambda>(directory, s).
     let s = place_thread mem directory (new_thread p mem s);
         s = proc_update p (add_thread mem) s in
     bind_result (make_ready mem s) (\<lambda>s.
       let s = thread_update mem (\<lambda>th. th\<lparr>t_resume := AtStart func\<rparr>) s
       in Inr (p_pid (s_proc s p), s\<lparr>s_ints := restore_interrupts st (s_ints s)\<rparr>))))"

definition spawn_thread :: "nat \<Rightarrow> u32 \<Rightarrow> sched \<Rightarrow> (nat \<times> sched) result" where
  "spawn_thread mem func s =
    (let (st, ints) = disable_interrupts (s_ints s); s = s\<lparr>s_ints := ints\<rparr> in
     bind_result (sync (\<lambda>s. bind_result (clone_current (s_vm s)) (\<lambda>(d, vm). Inr (d, s\<lparr>s_vm := vm\<rparr>))) s) (\<lambda>(directory, s).
     bind_result (sync (\<lambda>s. bind_result (cur_process s) (\<lambda>cp. Inr ((), new_thread cp mem s))) s) (\<lambda>(_, s).
       let s = place_thread mem directory s;
           s = thread_update mem (\<lambda>th. th\<lparr>t_resume := AtStart func\<rparr>) s
       in Inr (mem, s\<lparr>s_ints := restore_interrupts st (s_ints s)\<rparr>))))"

text \<open>The end of \<^verbatim>\<open>start_new_thread\<close>, after \<^verbatim>\<open>func\<close> has returned.\<close>

definition thread_end :: "sched \<Rightarrow> sched result" where
  "thread_end s = bind_result (sync (with_current (\<lambda>cur s. Inr ((), on_ready (list_unlink cur) s))) s)
     (\<lambda>(_, s). switch_thread s)"

subsection \<open>Wait queues\<close>

text \<open>The queue is the sequence its nodes hold; see \<open>ext_append_rep\<close> and \<open>ext_shift_rep\<close>.\<close>

definition wq_wake :: "nat list \<times> sched \<Rightarrow> (bool \<times> nat list \<times> sched) result" where
  "wq_wake = (\<lambda>(q, s). case q of [] \<Rightarrow> Inr (False, q, s)
     | th # q \<Rightarrow> bind_result (make_ready th s) (\<lambda>s. Inr (True, q, s)))"

definition wq_append :: "nat list \<times> sched \<Rightarrow> (nat list \<times> sched) result" where
  "wq_append = (\<lambda>(q, s). with_current (\<lambda>cur s. Inr (q @ [cur], s)) s)"

definition wq_wait :: "nat list \<times> sched \<Rightarrow> (nat list \<times> sched) result" where
  "wq_wait = (\<lambda>(q, s).
    bind_result (start_io s) (\<lambda>s.
    bind_result (wq_append (q, s)) (\<lambda>(q, s).
    bind_result (io_wait s) (\<lambda>s. Inr (q, s)))))"

declare tick_loop.simps [simp del] cleanup_loop.simps [simp del]

end
