(* ===== verification/Run_Queues.thy ===== *)
theory Run_Queues
  imports Scheduler
begin

text \<open>
  The run queues of the scheduler: which sequences of threads \<^verbatim>\<open>ready_queue_\<close> and
  \<^verbatim>\<open>waiting_queue_\<close> hold, what \<^verbatim>\<open>synchronized\<close> and \<^verbatim>\<open>switch_thread\<close> do to them, round robin, and
  sleeping until a timer tick.
\<close>

subsection \<open>Locking around an operation\<close>

definition relock :: "spin_lock \<Rightarrow> bool \<Rightarrow> sched \<Rightarrow> sched" where
  "relock l i s = s\<lparr>s_lock := l, s_ints := i\<rparr>"

lemma relock_fields [simp]:
  "s_thread (relock l i s) = s_thread s" "s_run (relock l i s) = s_run s" "s_proc (relock l i s) = s_proc s"
  "s_pnode (relock l i s) = s_pnode s" "s_processes (relock l i s) = s_processes s" "s_cleanup (relock l i s) = s_cleanup s"
  "s_ready (relock l i s) = s_ready s" "s_waiting (relock l i s) = s_waiting s" "s_hiprio (relock l i s) = s_hiprio s"
  "s_idle (relock l i s) = s_idle s" "s_current (relock l i s) = s_current s" "s_lock (relock l i s) = l"
  "s_ints (relock l i s) = i" "s_ticks (relock l i s) = s_ticks s" "s_vm (relock l i s) = s_vm s"
  "s_esp0 (relock l i s) = s_esp0 s" "relock l i (relock l' i' s) = relock l i s"
  by (simp_all add: relock_def)

named_theorems relock_comm

definition commutes :: "(sched \<Rightarrow> sched) \<Rightarrow> bool" where
  "commutes f \<longleftrightarrow> (\<forall>l i s. f (relock l i s) = relock l i (f s) \<and> s_current (f s) = s_current s)"

lemma commutes_comp: "commutes f \<Longrightarrow> commutes g \<Longrightarrow> commutes (\<lambda>s. f (g s))"
  by (simp add: commutes_def)

lemma commutes_ops [relock_comm]:
  "commutes (on_ready f)" "commutes (on_waiting f)" "commutes (on_cleanup f)" "commutes (set_state t st)"
  "commutes (thread_update t g)" "commutes (proc_update p h)" "commutes (dispatch t)" "commutes (sleep_til t secs)"
  by (auto simp: commutes_def on_ready_def on_waiting_def on_cleanup_def set_state_def thread_update_def proc_update_def
      dispatch_def relock_def sleep_til_def Let_def split: prod.splits)

lemma relock_op: "commutes f \<Longrightarrow> f (relock l i s) = relock l i (f s)"
  by (simp add: commutes_def)

lemma current_op: "commutes f \<Longrightarrow> s_current (f s) = s_current s"
  by (simp add: commutes_def)

lemma sync_free:
  assumes "lock_free (s_lock s)" "s_current s = Some c"
    and body: "\<And>l. held_by c 0 l \<Longrightarrow> enable_ints l = s_ints s \<Longrightarrow>
      \<exists>l'. body (relock l False s) = Inr (x, relock l' False s') \<and> held_by c 0 l' \<and> enable_ints l' \<in> I"
    and "s_current s' = Some c"
  shows "\<exists>l i. sync body s = Inr (x, relock l i s') \<and> lock_free l \<and> i \<in> I"
proof -
  obtain l1 where l1: "lock (Some c) (s_lock s, s_ints s) = Inr (l1, False)" "held_by c 0 l1" "enable_ints l1 = s_ints s"
    using lock_first [OF assms(1)] by blast
  obtain l2 where l2: "body (relock l1 False s) = Inr (x, relock l2 False s')" "held_by c 0 l2" "enable_ints l2 \<in> I"
    using body [OF l1(2,3)] by blast
  obtain l3 where "unlock (Some c) (l2, False) = Inr (l3, enable_ints l2)" "lock_free l3"
    using unlock_last [OF l2(2)] by blast
  then show ?thesis
    using l1(1) l2 assms(2,4) by (intro exI [of _ l3] exI [of _ "enable_ints l2"]) (simp add: sync_def flip: relock_def)
qed

lemma sync_held:
  assumes "held_by c n (s_lock s)" "\<not> s_ints s" "s_current s = Some c"
    and body: "\<And>l. held_by c (Suc n) l \<Longrightarrow> \<not> enable_ints l \<Longrightarrow>
      \<exists>l'. body (relock l False s) = Inr (x, relock l' False s') \<and> held_by c (Suc n) l' \<and> \<not> enable_ints l'"
    and "s_current s' = Some c"
  shows "\<exists>l. sync body s = Inr (x, relock l False s') \<and> held_by c n l \<and> \<not> enable_ints l"
proof -
  obtain l1 where l1: "lock (Some c) (s_lock s, False) = Inr (l1, False)" "held_by c (Suc n) l1" "\<not> enable_ints l1"
    using lock_again [OF assms(1)] by blast
  obtain l2 where l2: "body (relock l1 False s) = Inr (x, relock l2 False s')" "held_by c (Suc n) l2" "\<not> enable_ints l2"
    using body [OF l1(2,3)] by blast
  obtain l3 where "unlock (Some c) (l2, False) = Inr (l3, False)" "held_by c n l3" "\<not> enable_ints l3"
    using unlock_inner [OF l2(2,3)] by blast
  then show ?thesis
    using l1(1) l2 assms(2,3,5) by (intro exI [of _ l3]) (simp add: sync_def flip: relock_def)
qed

lemma sync_do_free:
  assumes "commutes f" "lock_free (s_lock s)" "s_current s = Some c"
  shows "\<exists>l. sync_do f s = Inr (relock l (s_ints s) (f s)) \<and> lock_free l"
proof -
  have "\<exists>l i. sync (\<lambda>s. Inr ((), f s)) s = Inr ((), relock l i (f s)) \<and> lock_free l \<and> i \<in> {s_ints s}"
    by (rule sync_free [OF assms(2,3)]) (use assms relock_op current_op in auto)
  then show ?thesis
    by (auto simp: sync_do_def)
qed

lemma sync_do_held:
  assumes "commutes f" "held_by c n (s_lock s)" "\<not> s_ints s" "s_current s = Some c"
  shows "\<exists>l. sync_do f s = Inr (relock l False (f s)) \<and> held_by c n l \<and> \<not> enable_ints l"
proof -
  have "\<exists>l. sync (\<lambda>s. Inr ((), f s)) s = Inr ((), relock l False (f s)) \<and> held_by c n l \<and> \<not> enable_ints l"
    by (rule sync_held [OF assms(2-4)]) (use assms relock_op current_op in auto)
  then show ?thesis
    by (auto simp: sync_do_def)
qed

lemma make_ready_free:
  assumes "lock_free (s_lock s)" "s_current s = Some c"
  shows "\<exists>l. make_ready t s = Inr (relock l (s_ints s) (on_ready (list_prepend t) (set_state t eReady s))) \<and> lock_free l"
  unfolding make_ready_def by (rule sync_do_free [OF commutes_comp [OF commutes_ops(1,4)] assms])

lemma make_ready_held:
  assumes "held_by c n (s_lock s)" "\<not> s_ints s" "s_current s = Some c"
  shows "\<exists>l. make_ready t s = Inr (relock l False (on_ready (list_prepend t) (set_state t eReady s)))
    \<and> held_by c n l \<and> \<not> enable_ints l"
  unfolding make_ready_def by (rule sync_do_held [OF commutes_comp [OF commutes_ops(1,4)] assms])

lemma make_wait_held:
  assumes "held_by c n (s_lock s)" "\<not> s_ints s" "s_current s = Some c"
  shows "\<exists>l. make_wait t s = Inr (relock l False (on_waiting (list_prepend t) (set_state t eWaiting s)))
    \<and> held_by c n l \<and> \<not> enable_ints l"
  unfolding make_wait_def by (rule sync_do_held [OF commutes_comp [OF commutes_ops(2,4)] assms])


subsection \<open>The queues\<close>

definition queues :: "sched \<Rightarrow> nat list \<Rightarrow> nat list \<Rightarrow> bool" where
  "queues s R W \<longleftrightarrow> dlist_rep (s_run s, s_ready s) R \<and> dlist_rep (s_run s, s_waiting s) W \<and> set R \<inter> set W = {}
     \<and> (\<forall>t. ln_linked (s_run s t) \<longrightarrow> t \<in> set R \<union> set W)"

lemma queues_linked: "queues s R W \<Longrightarrow> ln_linked (s_run s t) \<longleftrightarrow> t \<in> set R \<union> set W"
  by (auto simp: queues_def dlist_rep_def dest: dseg_linked)

lemma on_ready_fields [simp]:
  "s_run (on_ready f s) = fst (f (s_run s, s_ready s))" "s_ready (on_ready f s) = snd (f (s_run s, s_ready s))"
  "s_waiting (on_ready f s) = s_waiting s" "s_thread (on_ready f s) = s_thread s" "s_idle (on_ready f s) = s_idle s"
  "s_current (on_ready f s) = s_current s" "s_ticks (on_ready f s) = s_ticks s" "s_proc (on_ready f s) = s_proc s"
  "s_pnode (on_ready f s) = s_pnode s" "s_cleanup (on_ready f s) = s_cleanup s" "s_processes (on_ready f s) = s_processes s"
  "s_vm (on_ready f s) = s_vm s" "s_lock (on_ready f s) = s_lock s" "s_ints (on_ready f s) = s_ints s"
  by (simp_all add: on_ready_def Let_def split: prod.splits)

lemma on_waiting_fields [simp]:
  "s_run (on_waiting f s) = fst (f (s_run s, s_waiting s))" "s_waiting (on_waiting f s) = snd (f (s_run s, s_waiting s))"
  "s_ready (on_waiting f s) = s_ready s" "s_thread (on_waiting f s) = s_thread s" "s_idle (on_waiting f s) = s_idle s"
  "s_current (on_waiting f s) = s_current s" "s_ticks (on_waiting f s) = s_ticks s" "s_proc (on_waiting f s) = s_proc s"
  "s_pnode (on_waiting f s) = s_pnode s" "s_cleanup (on_waiting f s) = s_cleanup s" "s_processes (on_waiting f s) = s_processes s"
  "s_vm (on_waiting f s) = s_vm s" "s_lock (on_waiting f s) = s_lock s" "s_ints (on_waiting f s) = s_ints s"
  by (simp_all add: on_waiting_def Let_def split: prod.splits)

lemma set_state_fields [simp]:
  "s_run (set_state t x s) = s_run s" "s_ready (set_state t x s) = s_ready s" "s_waiting (set_state t x s) = s_waiting s"
  "s_idle (set_state t x s) = s_idle s" "s_current (set_state t x s) = s_current s" "s_ticks (set_state t x s) = s_ticks s"
  "s_proc (set_state t x s) = s_proc s" "s_pnode (set_state t x s) = s_pnode s" "s_cleanup (set_state t x s) = s_cleanup s"
  "s_lock (set_state t x s) = s_lock s" "s_ints (set_state t x s) = s_ints s"
  "t_state (s_thread (set_state t x s) u) = (if u = t then x else t_state (s_thread s u))"
  "t_process (s_thread (set_state t x s) u) = t_process (s_thread s u)"
  "t_alarm_at (s_thread (set_state t x s) u) = t_alarm_at (s_thread s u)"
  by (simp_all add: set_state_def thread_update_def)

lemma queues_fields:
  "s_run s' = s_run s \<Longrightarrow> s_ready s' = s_ready s \<Longrightarrow> s_waiting s' = s_waiting s \<Longrightarrow> queues s' R W = queues s R W"
  by (simp add: queues_def)

lemma queues_set_state [simp]: "queues (set_state t x s) R W = queues s R W"
  by (rule queues_fields) simp_all

lemma queues_relock [simp]: "queues (relock l i s) R W = queues s R W"
  by (rule queues_fields) simp_all

lemma queues_ready_prepend:
  assumes "queues s R W" "t \<notin> set R \<union> set W"
  shows "queues (on_ready (list_prepend t) s) (t # R) W"
proof -
  have nl: "\<not> ln_linked (s_run s t)"
    using queues_linked [OF assms(1)] assms(2) by blast
  have "dlist_rep (fst (list_prepend t (s_run s, s_ready s)), s_waiting s) W"
    by (rule dlist_rep_cong [of "s_run s"]) (use assms in \<open>auto simp: queues_def intro!: list_prepend_frame\<close>)
  then show ?thesis
    using assms nl list_prepend_rep [of "s_run s" "s_ready s" R t] by (auto simp: queues_def)
qed

lemma queues_ready_append:
  assumes "queues s R W" "t \<notin> set R \<union> set W"
  shows "queues (on_ready (list_append t) s) (R @ [t]) W"
proof -
  have nl: "\<not> ln_linked (s_run s t)"
    using queues_linked [OF assms(1)] assms(2) by blast
  have "dlist_rep (fst (list_append t (s_run s, s_ready s)), s_waiting s) W"
    by (rule dlist_rep_cong [of "s_run s"]) (use assms in \<open>auto simp: queues_def intro!: list_append_frame\<close>)
  then show ?thesis
    using assms nl list_append_rep [of "s_run s" "s_ready s" R t] by (auto simp: queues_def)
qed

lemma queues_waiting_prepend:
  assumes "queues s R W" "t \<notin> set R \<union> set W"
  shows "queues (on_waiting (list_prepend t) s) R (t # W)"
proof -
  have nl: "\<not> ln_linked (s_run s t)"
    using queues_linked [OF assms(1)] assms(2) by blast
  have "dlist_rep (fst (list_prepend t (s_run s, s_waiting s)), s_ready s) R"
    by (rule dlist_rep_cong [of "s_run s"]) (use assms in \<open>auto simp: queues_def intro!: list_prepend_frame\<close>)
  then show ?thesis
    using assms nl list_prepend_rep [of "s_run s" "s_waiting s" W t] by (auto simp: queues_def)
qed

lemma queues_ready_unlink:
  assumes "queues s (xs @ t # ys) W"
  shows "queues (on_ready (list_unlink t) s) (xs @ ys) W"
proof -
  have "dlist_rep (fst (list_unlink t (s_run s, s_ready s)), s_waiting s) W"
    by (rule dlist_rep_cong [of "s_run s"])
      (use assms in \<open>auto simp: queues_def intro!: list_unlink_frame [where xs = xs and ys = ys]\<close>)
  then show ?thesis
    using assms list_unlink_rep [of "s_run s" "s_ready s" xs t ys] by (auto simp: queues_def)
qed

lemma queues_waiting_unlink:
  assumes "queues s R (xs @ t # ys)"
  shows "queues (on_waiting (list_unlink t) s) R (xs @ ys)"
proof -
  have "dlist_rep (fst (list_unlink t (s_run s, s_waiting s)), s_ready s) R"
    by (rule dlist_rep_cong [of "s_run s"])
      (use assms in \<open>auto simp: queues_def intro!: list_unlink_frame [where xs = xs and ys = ys]\<close>)
  then show ?thesis
    using assms list_unlink_rep [of "s_run s" "s_waiting s" xs t ys] by (auto simp: queues_def)
qed


subsection \<open>What a switch does\<close>

text \<open>The parts of the state that switching threads does not touch.\<close>

definition same_work :: "sched \<Rightarrow> sched \<Rightarrow> bool" where
  "same_work s s' \<longleftrightarrow> (\<forall>t. t_state (s_thread s' t) = t_state (s_thread s t)
       \<and> t_alarm_at (s_thread s' t) = t_alarm_at (s_thread s t) \<and> t_process (s_thread s' t) = t_process (s_thread s t)
       \<and> t_directory (s_thread s' t) = t_directory (s_thread s t)
       \<and> t_kernel_stack (s_thread s' t) = t_kernel_stack (s_thread s t))
     \<and> s_idle s' = s_idle s \<and> s_ticks s' = s_ticks s \<and> s_proc s' = s_proc s \<and> s_processes s' = s_processes s
     \<and> s_pnode s' = s_pnode s \<and> s_cleanup s' = s_cleanup s"

lemma same_work_refl [simp]: "same_work s s"
  by (simp add: same_work_def)

lemma same_work_trans: "same_work s s' \<Longrightarrow> same_work s' s'' \<Longrightarrow> same_work s s''"
  by (simp add: same_work_def)

definition frozen :: "nat \<Rightarrow> int \<Rightarrow> sched \<Rightarrow> sched" where
  "frozen cur st s = thread_update cur (\<lambda>th. th\<lparr>t_resume := InSwitch st\<rparr>) s"

lemma frozen_fields [simp]:
  "s_run (frozen c st s) = s_run s" "s_ready (frozen c st s) = s_ready s" "s_waiting (frozen c st s) = s_waiting s"
  "s_idle (frozen c st s) = s_idle s" "s_current (frozen c st s) = s_current s" "s_lock (frozen c st s) = s_lock s"
  "s_ints (frozen c st s) = s_ints s" "same_work s (frozen c st s)"
  by (simp_all add: frozen_def thread_update_def same_work_def)

lemma switch_start:
  assumes "lock_free (s_lock s)" "s_current s = Some c"
  shows "\<exists>l st. lock_free l \<and> switch_thread s =
    (case pick_next s of None \<Rightarrow> Inl AssertFailed
     | Some nxt \<Rightarrow>
         if nxt = c then Inr (relock l (s_ints s) (frozen c st s))
         else bind_result (sync_do (dispatch nxt) (relock l False (frozen c st s))) (\<lambda>s.
                Inr (s\<lparr>s_current := Some nxt, s_ints := resume_ints (t_resume (s_thread s nxt)) (s_ints s)\<rparr>)))"
proof -
  define st where "st = fst (disable_interrupts (s_ints s))"
  have d: "disable_interrupts (s_ints s) = (st, False)"
    by (simp add: st_def disable_interrupts_def)
  have f: "thread_update c (\<lambda>th. th\<lparr>t_resume := InSwitch st\<rparr>) (s\<lparr>s_ints := False\<rparr>) = relock (s_lock s) False (frozen c st s)"
    by (simp add: frozen_def thread_update_def relock_def)
  have "\<exists>l i. sync (\<lambda>s. Inr (pick_next s, s)) (relock (s_lock s) False (frozen c st s))
      = Inr (pick_next s, relock l i (frozen c st s)) \<and> lock_free l \<and> i \<in> {False}"
    by (rule sync_free [where c = c]) (use assms in \<open>auto simp: pick_next_def\<close>)
  then obtain l where l: "lock_free l"
    "sync (\<lambda>s. Inr (pick_next s, s)) (relock (s_lock s) False (frozen c st s)) = Inr (pick_next s, relock l False (frozen c st s))"
    by auto
  have r: "restore_interrupts st False = s_ints s"
    by (simp add: st_def disable_interrupts_def restore_interrupts_def enable_interrupts_def)
  have u: "(relock l False t)\<lparr>s_ints := s_ints s\<rparr> = relock l (s_ints s) t" for t
    by (simp add: relock_def)
  show ?thesis
    by (intro exI [of _ l] exI [of _ st] conjI l(1))
      (simp add: switch_thread_def assms(2) d f l(2) r u cong: option.case_cong if_cong)
qed

lemma queues_ready_head:
  "queues s R W \<Longrightarrow> dl_head (s_ready s) = first_or R None \<and> dl_count (s_ready s) = int (length R)"
  by (simp add: queues_def dlist_rep_def)

lemma dispatch_work:
  "same_work s (dispatch x s)" "current_directory (s_vm (dispatch x s)) = t_directory (s_thread s x)"
  "s_esp0 (dispatch x s) = t_kernel_stack (s_thread s x)"
  by (simp_all add: dispatch_def Let_def same_work_def)

lemma dispatch_queues:
  assumes "queues s (x # R) W" "s_idle s \<noteq> Some x"
  shows "queues (dispatch x s) (R @ [x]) W"
proof -
  have "queues (on_ready (list_unlink x) s) R W"
    using queues_ready_unlink [of s "[]" x R W] assms by simp
  moreover have "x \<notin> set R \<union> set W"
    using assms by (auto simp: queues_def dlist_rep_def)
  ultimately have "queues (on_ready (list_append x) (on_ready (list_unlink x) s)) (R @ [x]) W"
    by (rule queues_ready_append)
  then show ?thesis
    using assms(2) by (simp add: dispatch_def Let_def queues_def)
qed

definition running :: "sched \<Rightarrow> nat \<Rightarrow> bool" where
  "running s c \<longleftrightarrow> lock_free (s_lock s) \<and> s_current s = Some c"

lemma switch_other:
  assumes "running s c" "pick_next s = Some x" "x \<noteq> c"
  shows "\<exists>s0 s'. switch_thread s = Inr s' \<and> running s' x \<and> same_work s s'
    \<and> current_directory (s_vm s') = t_directory (s_thread s x) \<and> s_esp0 s' = t_kernel_stack (s_thread s x)
    \<and> s_run s0 = s_run s \<and> s_ready s0 = s_ready s \<and> s_waiting s0 = s_waiting s \<and> s_idle s0 = s_idle s
    \<and> s_run s' = s_run (dispatch x s0) \<and> s_ready s' = s_ready (dispatch x s0) \<and> s_waiting s' = s_waiting (dispatch x s0)"
proof -
  obtain l st where l: "lock_free l" and sw: "switch_thread s =
      bind_result (sync_do (dispatch x) (relock l False (frozen c st s))) (\<lambda>s.
        Inr (s\<lparr>s_current := Some x, s_ints := resume_ints (t_resume (s_thread s x)) (s_ints s)\<rparr>))"
    using switch_start [of s c] assms by (auto simp: running_def)
  obtain l' where l': "lock_free l'"
    "sync_do (dispatch x) (relock l False (frozen c st s)) = Inr (relock l' False (dispatch x (relock l False (frozen c st s))))"
    using sync_do_free [OF commutes_ops(7), of "relock l False (frozen c st s)" c x] l assms by (auto simp: running_def)
  let ?s0 = "frozen c st s"
  have r: "dispatch x (relock l False ?s0) = relock l False (dispatch x ?s0)"
    by (rule relock_op [OF commutes_ops(7)])
  have w: "same_work s (dispatch x ?s0)"
    by (rule same_work_trans [OF frozen_fields(8) dispatch_work(1)])
  have t: "t_directory (s_thread ?s0 x) = t_directory (s_thread s x)" "t_kernel_stack (s_thread ?s0 x) = t_kernel_stack (s_thread s x)"
    using frozen_fields(8) [of s c st] by (simp_all add: same_work_def)
  show ?thesis
    by (rule exI [of _ ?s0]) (use sw l' w in \<open>simp add: r running_def same_work_def dispatch_work t\<close>)
qed

lemma switch_self:
  assumes "running s c" "pick_next s = Some c"
  shows "\<exists>s'. switch_thread s = Inr s' \<and> running s' c \<and> same_work s s' \<and> s_ints s' = s_ints s
    \<and> s_run s' = s_run s \<and> s_ready s' = s_ready s \<and> s_waiting s' = s_waiting s"
proof -
  obtain l st where "lock_free l" "switch_thread s = Inr (relock l (s_ints s) (frozen c st s))"
    using switch_start [of s c] assms by (auto simp: running_def)
  then show ?thesis
    using assms(1) frozen_fields(8) [of s c st] by (simp add: running_def same_work_def)
qed

text \<open>The threads in the ready queue after a switch of \<open>c\<close>, and the thread that runs then.\<close>

definition after_switch :: "nat \<Rightarrow> nat list \<Rightarrow> nat list" where
  "after_switch c R = (case R of [] \<Rightarrow> [] | x # xs \<Rightarrow> if x = c then R else xs @ [x])"

lemma after_switch_set [simp]: "set (after_switch c R) = set R"
  by (cases R) (auto simp: after_switch_def)

lemma switch_queues:
  assumes "running s c" "queues s R W" "s_idle s = Some i" "i \<notin> set R"
  shows "\<exists>s'. switch_thread s = Inr s' \<and> running s' (case R of [] \<Rightarrow> i | x # _ \<Rightarrow> x) \<and> same_work s s'
    \<and> queues s' (after_switch c R) W"
proof -
  define x where "x = (case R of [] \<Rightarrow> i | x # _ \<Rightarrow> x)"
  have pick: "pick_next s = Some x"
    using queues_ready_head [OF assms(2)] assms(3) by (cases R) (auto simp: pick_next_def x_def)
  show ?thesis
  proof (cases "x = c")
    case True
    have same: "after_switch c R = R"
      using True by (auto simp: after_switch_def x_def split: list.splits)
    obtain s' where "switch_thread s = Inr s'" "running s' c" "same_work s s'" "s_run s' = s_run s"
      "s_ready s' = s_ready s" "s_waiting s' = s_waiting s"
      using switch_self [OF assms(1)] pick True by blast
    then show ?thesis
      using assms(2) True queues_fields [of s' s R W] by (simp add: same flip: x_def)
  next
    case False
    obtain s0 s' where s': "switch_thread s = Inr s'" "running s' x" "same_work s s'"
      and s0: "s_run s0 = s_run s" "s_ready s0 = s_ready s" "s_waiting s0 = s_waiting s" "s_idle s0 = s_idle s"
      and q: "s_run s' = s_run (dispatch x s0)" "s_ready s' = s_ready (dispatch x s0)" "s_waiting s' = s_waiting (dispatch x s0)"
      using switch_other [OF assms(1) pick False] by blast
    have "queues s0 R W"
      using queues_fields [of s0 s] s0 assms(2) by simp
    then have "queues (dispatch x s0) (after_switch c R) W"
      using dispatch_queues [of s0 x _ W] assms(3,4) s0(4) False
      by (cases R) (auto simp: x_def after_switch_def dispatch_def Let_def queues_def)
    then show ?thesis
      using s' queues_fields [OF q] by (simp flip: x_def)
  qed
qed


subsection \<open>Round robin\<close>

fun yields :: "nat \<Rightarrow> sched \<Rightarrow> sched result" where
  "yields 0 s = Inr s"
| "yields (Suc n) s = bind_result (yield s) (yields n)"

lemma yields_rotate:
  assumes "running s (last R)" "queues s R W" "s_idle s = Some i" "i \<notin> set R" "n < length R"
  shows "\<exists>s'. yields (Suc n) s = Inr s' \<and> s_current s' = Some (R ! n)"
  using assms
proof (induction n arbitrary: s R)
  case 0
  then show ?case
    using switch_queues [OF "0.prems"(1-4)] by (cases R) (auto simp: yield_def running_def)
next
  case (Suc n)
  have "1 < length R"
    using Suc.prems(5) by simp
  then obtain x xs where R: "R = x # xs" "xs \<noteq> []"
    by (cases R) force+
  have ne: "x \<noteq> last R"
    using Suc.prems(2) R by (auto simp: queues_def dlist_rep_def)
  obtain s1 where s1: "switch_thread s = Inr s1" "running s1 x" "same_work s s1" "queues s1 (xs @ [x]) W"
    using switch_queues [OF Suc.prems(1-4)] R ne by (auto simp: after_switch_def)
  obtain s' where "yields (Suc n) s1 = Inr s'" "s_current s' = Some ((xs @ [x]) ! n)"
    using Suc.IH [of s1 "xs @ [x]"] s1(2-4) Suc.prems(3-5) R by (auto simp: same_work_def)
  moreover have "(xs @ [x]) ! n = R ! Suc n"
    using R(1) Suc.prems(5) by (simp add: nth_append)
  moreover have "yields (Suc (Suc n)) s = yields (Suc n) s1"
    using s1(1) by (simp add: yield_def)
  ultimately show ?case
    by metis
qed

lemma yields_stuck:
  assumes "running s c" "queues s R W" "s_idle s = Some i" "i \<notin> set R" "R = c # xs"
  shows "\<exists>s'. yields n s = Inr s' \<and> s_current s' = Some c"
  using assms
proof (induction n arbitrary: s)
  case (Suc n)
  then obtain s1 where s1: "switch_thread s = Inr s1" "running s1 c" "same_work s s1" "queues s1 R W"
    using switch_queues [OF Suc.prems(1-4)] by (auto simp: after_switch_def)
  then obtain s' where "yields n s1 = Inr s'" "s_current s' = Some c"
    using Suc.IH [OF s1(2,4) _ Suc.prems(4,5)] Suc.prems(3) by (auto simp: same_work_def)
  then show ?case
    using s1(1) by (simp add: yield_def)
qed (simp add: running_def)

lemma yields_turn:
  assumes "running s c" "queues s R W" "s_idle s = Some i" "i \<notin> set R" "hd R \<noteq> c" "n < length R"
  shows "\<exists>s'. yields (Suc n) s = Inr s' \<and> s_current s' = Some (R ! n)"
proof -
  obtain x xs where R: "R = x # xs"
    using assms(6) by (cases R) auto
  obtain s1 where s1: "switch_thread s = Inr s1" "running s1 x" "same_work s s1" "queues s1 (xs @ [x]) W"
    using switch_queues [OF assms(1-4)] R assms(5) by (auto simp: after_switch_def)
  have y: "yields (Suc n) s = yields n s1" for n
    using s1(1) by (simp add: yield_def)
  show ?thesis
  proof (cases n)
    case 0
    then show ?thesis
      using y [of 0] s1(2) R by (simp add: running_def)
  next
    case (Suc k)
    then have "\<exists>s'. yields (Suc k) s1 = Inr s' \<and> s_current s' = Some ((xs @ [x]) ! k)"
      using s1 assms(3,4,6) R by (intro yields_rotate [of s1 "xs @ [x]" W i k]) (auto simp: same_work_def)
    then show ?thesis
      using y [of n] Suc R assms(6) by (simp add: nth_append)
  qed
qed

text \<open>
  C13: Round robin.  When the running thread is not at the head of the ready queue, the \<open>n\<close>-th of the following calls of \<^verbatim>\<open>yield\<close> succeeds and runs
  the \<open>n\<close>-th thread of the queue, so every ready thread runs within as many yields as there
  are ready threads; \<^verbatim>\<open>switch_thread\<close> puts the thread it chooses at the end.  A running thread that was put at the head, as a
  wake-up does that comes before it has left the processor, keeps the processor through every \<^verbatim>\<open>yield\<close>: the code takes the head of the
  queue and returns when that is the running thread.
\<close>

theorem yield_round_robin:
  assumes "running s c" and "queues s R W" and "s_idle s = Some i" and "i \<notin> set R"
  shows "(hd R \<noteq> c \<longrightarrow> (\<forall>n < length R. \<exists>s'. yields (Suc n) s = Inr s' \<and> s_current s' = Some (R ! n)))
    \<and> (\<forall>xs. R = c # xs \<longrightarrow> (\<forall>n. \<exists>s'. yields n s = Inr s' \<and> s_current s' = Some c))"
  using yields_turn [OF assms] yields_stuck [OF assms] by blast

subsection \<open>Sleeping and waking\<close>

text \<open>The state of the scheduler between operations.\<close>

definition sched_ok :: "sched \<Rightarrow> nat list \<Rightarrow> nat list \<Rightarrow> bool" where
  "sched_ok s R W \<longleftrightarrow> queues s R W \<and> (\<forall>t\<in>set R. t_state (s_thread s t) \<in> {eReady, eIOPending})
     \<and> (\<forall>t\<in>set W. t_state (s_thread s t) = eWaiting) \<and> (\<exists>i. s_idle s = Some i \<and> i \<notin> set R \<union> set W)
     \<and> (\<exists>C. dlist_rep (s_pnode s, s_cleanup s) C)"

lemma sched_ok_relock [simp]: "sched_ok (relock l i s) R W = sched_ok s R W"
  by (simp add: sched_ok_def)

lemma switch_ok:
  assumes "running s c" "sched_ok s R W"
  shows "\<exists>s'. switch_thread s = Inr s' \<and> running s' (case R of [] \<Rightarrow> the (s_idle s) | x # _ \<Rightarrow> x)
    \<and> same_work s s' \<and> sched_ok s' (after_switch c R) W"
proof -
  obtain i where i: "s_idle s = Some i" "i \<notin> set R \<union> set W" "queues s R W"
    using assms(2) by (auto simp: sched_ok_def)
  obtain s' where s': "switch_thread s = Inr s'" "running s' (case R of [] \<Rightarrow> i | x # _ \<Rightarrow> x)" "same_work s s'"
    "queues s' (after_switch c R) W"
    using switch_queues [OF assms(1) i(3,1)] i(2) by auto
  have "set (after_switch c R) = set R"
    by (cases R) (auto simp: after_switch_def)
  then have "sched_ok s' (after_switch c R) W"
    using assms(2) s'(3,4) by (simp add: sched_ok_def same_work_def)
  then show ?thesis
    using s' i(1) by (cases R) auto
qed

text \<open>The thread that runs next when \<open>R\<close> is ready.\<close>

definition next_up :: "sched \<Rightarrow> nat list \<Rightarrow> nat \<Rightarrow> bool" where
  "next_up s R d \<longleftrightarrow> d = (case R of [] \<Rightarrow> the (s_idle s) | x # _ \<Rightarrow> x)"

lemma next_upD: "next_up s R d \<Longrightarrow> s_idle s \<noteq> None \<Longrightarrow> d \<in> set R \<or> s_idle s = Some d"
  by (auto simp: next_up_def split: list.splits)

lemma next_up_idle: "s_idle s' = s_idle s \<Longrightarrow> next_up s' R d = next_up s R d"
  by (cases R) (simp_all add: next_up_def)

definition wake_one :: "nat \<Rightarrow> sched \<Rightarrow> sched" where
  "wake_one t s = on_ready (list_prepend t) (set_state t eReady (on_waiting (list_unlink t) s))"

lemma wake_one_fields [simp]:
  "s_idle (wake_one t s) = s_idle s" "s_current (wake_one t s) = s_current s" "s_ticks (wake_one t s) = s_ticks s"
  "t_alarm_at (s_thread (wake_one t s) u) = t_alarm_at (s_thread s u)"
  "t_state (s_thread (wake_one t s) u) = (if u = t then eReady else t_state (s_thread s u))"
  "t_process (s_thread (wake_one t s) u) = t_process (s_thread s u)"
  "s_proc (wake_one t s) = s_proc s" "s_pnode (wake_one t s) = s_pnode s" "s_cleanup (wake_one t s) = s_cleanup s"
  "s_lock (wake_one t s) = s_lock s" "s_ints (wake_one t s) = s_ints s"
  by (simp_all add: wake_one_def)

lemma wake_one_queues:
  assumes "queues s R (xs @ t # ys)"
  shows "queues (wake_one t s) (t # R) (xs @ ys)"
proof -
  have "queues (set_state t eReady (on_waiting (list_unlink t) s)) R (xs @ ys)"
    using queues_waiting_unlink [OF assms] by simp
  moreover have "t \<notin> set R \<union> set (xs @ ys)"
    using assms by (auto simp: queues_def dlist_rep_def)
  ultimately show ?thesis
    unfolding wake_one_def by (rule queues_ready_prepend)
qed

lemma wake_one_ok:
  assumes "sched_ok s R (xs @ t # ys)"
  shows "sched_ok (wake_one t s) (t # R) (xs @ ys)"
proof -
  have "t \<notin> set R \<union> set (xs @ ys)"
    using assms by (auto simp: sched_ok_def queues_def dlist_rep_def)
  then show ?thesis
    using assms wake_one_queues [of s R xs t ys] by (auto simp: sched_ok_def)
qed

lemma expired_wake: "u \<noteq> t \<Longrightarrow> alarm_expired (wake_one t s) u = alarm_expired s u"
  by (simp add: alarm_expired_def)

lemma expired_relock [simp]: "alarm_expired (relock l i s) = alarm_expired s"
  by (rule ext) (simp add: alarm_expired_def)

lemma next_in_seg: "dseg nodes p (xs @ t # ys) None \<Longrightarrow> ln_next (nodes t) = first_or ys None"
  by simp

definition ticked :: "sched \<Rightarrow> sched \<Rightarrow> bool" where
  "ticked s s' \<longleftrightarrow> s_idle s' = s_idle s \<and> s_ticks s' = s_ticks s \<and> s_proc s' = s_proc s
     \<and> (\<forall>u. t_state (s_thread s' u) = t_state (s_thread s u) \<or> t_state (s_thread s u) = eWaiting \<and> t_state (s_thread s' u) = eReady)
     \<and> (\<forall>u. t_alarm_at (s_thread s' u) = t_alarm_at (s_thread s u) \<and> t_process (s_thread s' u) = t_process (s_thread s u))"

lemma ticked_wake:
  assumes "t_state (s_thread s t) = eWaiting" "ticked (relock l i (wake_one t s)) s'"
  shows "ticked s s'"
proof -
  let ?w = "relock l i (wake_one t s)"
  have "t_state (s_thread s' u) = t_state (s_thread s u) \<or> t_state (s_thread s u) = eWaiting \<and> t_state (s_thread s' u) = eReady" for u
  proof -
    have "t_state (s_thread s' u) = t_state (s_thread ?w u) \<or> t_state (s_thread ?w u) = eWaiting \<and> t_state (s_thread s' u) = eReady"
      using assms(2) unfolding ticked_def by blast
    then show ?thesis
      using assms(1) by (cases "u = t") simp_all
  qed
  moreover have "s_idle s' = s_idle s" "s_ticks s' = s_ticks s" "s_proc s' = s_proc s"
    "t_alarm_at (s_thread s' u) = t_alarm_at (s_thread s u)" "t_process (s_thread s' u) = t_process (s_thread s u)" for u
    using assms(2) by (simp_all add: ticked_def)
  ultimately show ?thesis
    unfolding ticked_def by blast
qed

lemma ticked_relock [simp]: "ticked (relock l i s) s' = ticked s s'" "ticked s (relock l i s') = ticked s s'"
  by (simp_all add: ticked_def)

lemma ticked_work: "ticked s s1 \<Longrightarrow> same_work s1 s' \<Longrightarrow> ticked s s'"
  by (simp add: ticked_def same_work_def)

lemma tick_loop_run:
  assumes "sched_ok s R (xs @ ys)" "held_by c 0 (s_lock s)" "\<not> s_ints s" "s_current s = Some c"
  shows "\<exists>l s'. tick_loop (first_or ys None) (b, s) = Some (Inr (b \<or> (\<exists>t\<in>set ys. alarm_expired s t), relock l False s'))
    \<and> held_by c 0 l \<and> enable_ints l = (if \<exists>t\<in>set ys. alarm_expired s t then False else enable_ints (s_lock s))
    \<and> sched_ok s' (rev (filter (alarm_expired s) ys) @ R) (xs @ filter (\<lambda>t. \<not> alarm_expired s t) ys)
    \<and> s_current s' = Some c \<and> ticked s s'"
  using assms
proof (induction ys arbitrary: xs R s b)
  case Nil
  then show ?case
    by (auto simp: tick_loop.simps relock_def ticked_def intro!: exI [of _ "s_lock s"] exI [of _ s])
next
  case (Cons t ys)
  have nxt: "ln_next (s_run s t) = first_or ys None"
    using Cons.prems(1) next_in_seg [of "s_run s" None xs t ys] by (auto simp: sched_ok_def queues_def dlist_rep_def)
  show ?case
  proof (cases "alarm_expired s t")
    case False
    have "sched_ok s R ((xs @ [t]) @ ys)"
      using Cons.prems(1) by simp
    from Cons.IH [OF this Cons.prems(2-4), of b] show ?thesis
      using False nxt by (simp add: tick_loop.simps [of "Some t"] iter_advance_def)
  next
    case True
    let ?w = "on_waiting (list_unlink t) s"
    obtain l where l: "make_ready t ?w = Inr (relock l False (wake_one t s))" "held_by c 0 l" "\<not> enable_ints l"
      using make_ready_held [of c 0 ?w t] Cons.prems(2-4) by (auto simp: wake_one_def)
    let ?s = "relock l False (wake_one t s)"
    have ok: "sched_ok ?s (t # R) (xs @ ys)"
      using wake_one_ok [OF Cons.prems(1)] by simp
    have tn: "t \<notin> set ys"
      using Cons.prems(1) by (auto simp: sched_ok_def queues_def dlist_rep_def)
    have ex: "filter (alarm_expired ?s) ys = filter (alarm_expired s) ys"
      "filter (\<lambda>t. \<not> alarm_expired ?s t) ys = filter (\<lambda>t. \<not> alarm_expired s t) ys"
      by (rule filter_cong [OF refl], use tn expired_wake in \<open>metis expired_relock\<close>)+
    have tw: "t_state (s_thread s t) = eWaiting"
      using True by (simp add: alarm_expired_def)
    have step: "tick_loop (first_or (t # ys) None) (b, s) = tick_loop (first_or ys None) (True, ?s)"
      using True nxt l(1) by (simp add: tick_loop.simps [of "Some t"] iter_advance_def)
    have pre: "held_by c 0 (s_lock ?s)" "\<not> s_ints ?s" "s_current ?s = Some c"
      using l(2) Cons.prems(4) by simp_all
    obtain l' s' where i: "tick_loop (first_or ys None) (True, ?s) = Some (Inr (True \<or> (\<exists>t\<in>set ys. alarm_expired ?s t), relock l' False s'))"
      "held_by c 0 l'" "enable_ints l' = (if \<exists>t\<in>set ys. alarm_expired ?s t then False else enable_ints (s_lock ?s))"
      "sched_ok s' (rev (filter (alarm_expired s) ys) @ t # R) (xs @ filter (\<lambda>t. \<not> alarm_expired s t) ys)" "ticked ?s s'" "s_current s' = Some c"
      using Cons.IH [OF ok pre, of True] unfolding ex by blast
    have "\<not> enable_ints l'"
      using i(3) l(3) by simp
    then show ?thesis
      unfolding step using i(1,2,4,6) ticked_wake [OF tw i(5)] True by (intro exI [of _ l'] exI [of _ s']) simp
  qed
qed

text \<open>Nothing changes but the queues, the running thread and the states of some threads.\<close>

definition same_but :: "nat set \<Rightarrow> sched \<Rightarrow> sched \<Rightarrow> bool" where
  "same_but X s s' \<longleftrightarrow> (\<forall>u. u \<notin> X \<longrightarrow> t_state (s_thread s' u) = t_state (s_thread s u))
     \<and> (\<forall>u. t_process (s_thread s' u) = t_process (s_thread s u))
     \<and> (\<forall>p. p_pid (s_proc s' p) = p_pid (s_proc s p)) \<and> s_idle s' = s_idle s"

lemma same_but_trans: "same_but X s s' \<Longrightarrow> same_but X s' s'' \<Longrightarrow> same_but X s s''"
  by (simp add: same_but_def)

lemma same_but_work: "same_work s s' \<Longrightarrow> same_but X s s'"
  by (simp add: same_work_def same_but_def)

lemma on_tick_run:
  assumes "running s c" "sched_ok s R W"
  shows "\<exists>s' R'. on_tick s = Inr s' \<and> sched_ok s' R' (filter (\<lambda>t. \<not> alarm_expired s t) W)
    \<and> set R' = set R \<union> {t \<in> set W. alarm_expired s t} \<and> running s' (last (c # filter (alarm_expired s) W)) \<and> ticked s s'"
proof -
  let ?E = "filter (alarm_expired s) W" and ?any = "\<exists>t\<in>set W. alarm_expired s t"
  have head: "dl_head (s_waiting s) = first_or W None"
    using assms(2) by (simp add: sched_ok_def queues_def dlist_rep_def)
  obtain l1 where l1: "lock (Some c) (s_lock s, s_ints s) = Inr (l1, False)" "held_by c 0 l1"
    using lock_first [of "s_lock s"] assms(1) by (auto simp: running_def)
  have pre: "sched_ok (relock l1 False s) R ([] @ W)" "held_by c 0 (s_lock (relock l1 False s))" "\<not> s_ints (relock l1 False s)"
    "s_current (relock l1 False s) = Some c"
    using assms l1(2) by (simp_all add: running_def)
  obtain l2 s1 where s1: "tick_loop (first_or W None) (False, relock l1 False s) = Some (Inr (?any, relock l2 False s1))"
    "held_by c 0 l2" "sched_ok s1 (rev ?E @ R) (filter (\<lambda>t. \<not> alarm_expired s t) W)" "s_current s1 = Some c" "ticked s s1"
    using tick_loop_run [OF pre, of False] unfolding expired_relock ticked_relock append_Nil simp_thms by blast
  obtain l3 where l3: "unlock (Some c) (l2, False) = Inr (l3, enable_ints l2)" "lock_free l3"
    using unlock_last [OF s1(2)] by blast
  let ?s2 = "relock l3 (enable_ints l2) s1"
  have "sync (\<lambda>s. or_diverges (tick_loop (dl_head (s_waiting s)) (False, s))) s = Inr (?any, ?s2)"
    using assms(1) l1(1) s1(1,4) l3 by (simp add: sync_def running_def or_diverges_def head flip: relock_def)
  then have tick: "on_tick s = (if ?any then switch_thread ?s2 else Inr ?s2)"
    by (simp add: on_tick_def)
  have r1: "running ?s2 c" and ok1: "sched_ok ?s2 (rev ?E @ R) (filter (\<lambda>t. \<not> alarm_expired s t) W)" and t1: "ticked s ?s2"
    using s1(3-5) l3(2) by (simp_all add: running_def)
  show ?thesis
  proof (cases ?any)
    case False
    then have E: "?E = []" "{t \<in> set W. alarm_expired s t} = {}"
      by (auto simp: filter_empty_conv)
    have "on_tick s = Inr ?s2"
      unfolding tick using False by (rule if_not_P)
    then show ?thesis
      using r1 ok1 t1 E by (intro exI [of _ ?s2] exI [of _ R]) auto
  next
    case True
    then obtain x E' where E: "rev ?E = x # E'"
      by (cases "rev ?E") (auto simp: filter_empty_conv)
    then have lst: "last (c # ?E) = x"
      by (metis hd_rev last_ConsR list.sel(1) rev_is_Nil_conv list.distinct(1))
    obtain s' where s': "switch_thread ?s2 = Inr s'" "running s' x" "same_work ?s2 s'"
      "sched_ok s' (after_switch c (rev ?E @ R)) (filter (\<lambda>t. \<not> alarm_expired s t) W)"
      using switch_ok [OF r1 ok1] E by auto
    have "set (after_switch c (rev ?E @ R)) = set R \<union> {t \<in> set W. alarm_expired s t}"
      by auto
    moreover have "on_tick s = Inr s'"
      unfolding tick s'(1) using True by (rule if_P)
    ultimately show ?thesis
      using s'(2,4) lst ticked_work [OF t1 s'(3)] by blast
  qed
qed

text \<open>
  A timer tick moves exactly the sleeping threads whose alarm has expired from the waiting queue to
  the ready queue and leaves every other thread where it is.  If it woke any, the one woken
  last runs next; otherwise the interrupted thread continues.
\<close>

lemma on_tick_wakes:
  assumes "running s c" and "sched_ok s R W"
  shows "\<exists>s' R'. on_tick s = Inr s' \<and> sched_ok s' R' (filter (\<lambda>t. \<not> alarm_expired s t) W)
    \<and> set R' = set R \<union> {t \<in> set W. alarm_expired s t} \<and> running s' (last (c # filter (alarm_expired s) W))"
  using on_tick_run [OF assms] by blast

fun timer_ticks :: "nat \<Rightarrow> sched \<Rightarrow> sched result" where
  "timer_ticks 0 s = Inr s"
| "timer_ticks (Suc n) s = bind_result (timer_handle s) (timer_ticks n)"

lemma timer_handle_run:
  assumes "running s c" "sched_ok s R W" "s_ticks s < s_ticks s + 1"
  shows "\<exists>s' c' R' W'. timer_handle s = Inr s' \<and> running s' c' \<and> sched_ok s' R' W' \<and> set R \<subseteq> set R'
    \<and> (\<forall>t\<in>set W. t_alarm_at (s_thread s t) \<noteq> 0 \<longrightarrow> (if t_alarm_at (s_thread s t) \<le> s_ticks s + 1 then t \<in> set R' else t \<in> set W'))
    \<and> s_ticks s' = s_ticks s + 1 \<and> (\<forall>u. t_alarm_at (s_thread s' u) = t_alarm_at (s_thread s u))"
proof -
  let ?s = "s\<lparr>s_ticks := s_ticks s + 1\<rparr>"
  have pre: "running ?s c" "sched_ok ?s R W"
    using assms by (simp_all add: running_def sched_ok_def queues_def)
  have ex: "alarm_expired ?s t \<longleftrightarrow> t_alarm_at (s_thread s t) \<noteq> 0 \<and> t_alarm_at (s_thread s t) \<le> s_ticks s + 1" if "t \<in> set W" for t
    using assms(2) that by (simp add: alarm_expired_def sched_ok_def)
  obtain s' R' where o: "on_tick ?s = Inr s'" "sched_ok s' R' (filter (\<lambda>t. \<not> alarm_expired ?s t) W)"
    "set R' = set R \<union> {t \<in> set W. alarm_expired ?s t}" "running s' (last (c # filter (alarm_expired ?s) W))" "ticked ?s s'"
    using on_tick_run [OF pre] by blast
  have tk: "s_ticks s' = s_ticks s + 1" "t_alarm_at (s_thread s' u) = t_alarm_at (s_thread s u)" for u
    using o(5) by (simp_all add: ticked_def)
  have "if t_alarm_at (s_thread s t) \<le> s_ticks s + 1 then t \<in> set R' else t \<in> set (filter (\<lambda>t. \<not> alarm_expired ?s t) W)"
    if "t \<in> set W" "t_alarm_at (s_thread s t) \<noteq> 0" for t
    using ex [OF that(1)] that o(3) by simp
  moreover have "set R \<subseteq> set R'"
    using o(3) by blast
  ultimately show ?thesis
    using o(1,2,4) tk unfolding timer_handle_def by blast
qed

lemma timer_ticks_run:
  assumes "running s c" "sched_ok s R W" "unat (s_ticks s) + n < 2 ^ 32" "t_alarm_at (s_thread s t) = a" "a \<noteq> 0"
    and "if a \<le> s_ticks s then t \<in> set R else t \<in> set W"
  shows "\<exists>s' c' R' W'. timer_ticks n s = Inr s' \<and> running s' c' \<and> sched_ok s' R' W'
    \<and> (if unat a \<le> unat (s_ticks s) + n then t \<in> set R' else t \<in> set W')"
  using assms
proof (induction n arbitrary: s c R W)
  case 0
  then have "if unat a \<le> unat (s_ticks s) + 0 then t \<in> set R else t \<in> set W"
    by (simp add: word_le_nat_alt)
  then show ?case
    using "0.prems"(1,2) by (metis timer_ticks.simps(1))
next
  case (Suc n)
  have u: "unat (s_ticks s + 1) = unat (s_ticks s) + 1"
    using Suc.prems(3) by (simp add: unat_word_ariths)
  then have lt: "s_ticks s < s_ticks s + 1"
    by (simp add: word_less_nat_alt)
  obtain s1 c1 R1 W1 where s1: "timer_handle s = Inr s1" "running s1 c1" "sched_ok s1 R1 W1" "set R \<subseteq> set R1"
    and mv: "\<forall>t\<in>set W. t_alarm_at (s_thread s t) \<noteq> 0 \<longrightarrow> (if t_alarm_at (s_thread s t) \<le> s_ticks s + 1 then t \<in> set R1 else t \<in> set W1)"
    and tk: "s_ticks s1 = s_ticks s + 1" and al: "\<forall>u. t_alarm_at (s_thread s1 u) = t_alarm_at (s_thread s u)"
    using timer_handle_run [OF Suc.prems(1,2) lt] by blast
  have m1: "if a \<le> s_ticks s1 then t \<in> set R1 else t \<in> set W1"
  proof (cases "a \<le> s_ticks s")
    case True
    then show ?thesis
      using Suc.prems(6) s1(4) lt tk by auto
  next
    case False
    then show ?thesis
      using mv Suc.prems(4-6) tk by auto
  qed
  have "unat (s_ticks s1) + n < 2 ^ 32" "t_alarm_at (s_thread s1 t) = a"
    using Suc.prems(3,4) u tk al by simp_all
  from Suc.IH [OF s1(2,3) this Suc.prems(5) m1] show ?case
    using s1(1) by (simp add: tk u)
qed

lemma not_idle_run:
  "s_current s = Some c \<Longrightarrow> p_pid (s_proc s (t_process (s_thread s c))) \<noteq> 0 \<Longrightarrow> not_idle s = Inr ()"
  by (simp add: not_idle_def getpid_def cur_process_def)

lemma sleep_til_fields [simp]:
  "s_run (sleep_til t n s) = s_run s" "s_ready (sleep_til t n s) = s_ready s" "s_waiting (sleep_til t n s) = s_waiting s"
  "s_idle (sleep_til t n s) = s_idle s" "s_current (sleep_til t n s) = s_current s" "s_ticks (sleep_til t n s) = s_ticks s"
  "s_lock (sleep_til t n s) = s_lock s" "s_ints (sleep_til t n s) = s_ints s" "s_proc (sleep_til t n s) = s_proc s"
  "s_pnode (sleep_til t n s) = s_pnode s" "s_cleanup (sleep_til t n s) = s_cleanup s"
  "t_state (s_thread (sleep_til t n s) u) = t_state (s_thread s u)"
  "t_process (s_thread (sleep_til t n s) u) = t_process (s_thread s u)"
  "t_alarm_at (s_thread (sleep_til t n s) u) = (if u = t then s_ticks s + secs_to_ticks n else t_alarm_at (s_thread s u))"
  by (simp_all add: sleep_til_def thread_update_def)

lemma sleep_run:
  assumes "running s c" "sched_ok s (xs @ c # ys) W" "p_pid (s_proc s (t_process (s_thread s c))) \<noteq> 0"
  shows "\<exists>s'. sched_sleep secs s = Inr s' \<and> running s' (case xs @ ys of [] \<Rightarrow> the (s_idle s) | x # _ \<Rightarrow> x)
    \<and> sched_ok s' (after_switch c (xs @ ys)) (c # W) \<and> t_alarm_at (s_thread s' c) = s_ticks s + secs_to_ticks secs
    \<and> s_ticks s' = s_ticks s \<and> same_but {c} s s'"
proof -
  let ?u = "on_ready (list_unlink c) (sleep_til c secs s)"
  let ?w = "on_waiting (list_prepend c) (set_state c eWaiting ?u)"
  have q: "queues s (xs @ c # ys) W" and notin: "c \<notin> set (xs @ ys) \<union> set W"
    using assms(2) by (auto simp: sched_ok_def queues_def dlist_rep_def)
  have "queues ?u (xs @ ys) W"
    using queues_ready_unlink [of "sleep_til c secs s" xs c ys W] q queues_fields [of "sleep_til c secs s" s] by simp
  then have "queues ?w (xs @ ys) (c # W)"
    using queues_waiting_prepend [of "set_state c eWaiting ?u" "xs @ ys" W c] notin by simp
  then have okw: "sched_ok ?w (xs @ ys) (c # W)"
    using assms(2) notin by (auto simp: sched_ok_def)
  have comm: "on_ready (list_unlink c) (sleep_til c secs (relock l i s)) = relock l i ?u" for l i
    by (simp add: relock_op [OF commutes_ops(8)] relock_op [OF commutes_ops(1)])
  define B where "B = with_current (\<lambda>cur s. bind_result (make_wait cur (on_ready (list_unlink cur) (sleep_til cur secs s)))
        (\<lambda>s. Inr ((), s)))"
  have body: "\<exists>l'. B (relock l False s) = Inr ((), relock l' False ?w) \<and> held_by c 0 l' \<and> enable_ints l' \<in> UNIV"
    if "held_by c 0 l" for l
    using make_wait_held [of c 0 "relock l False ?u" c] assms(1) that
    by (auto simp: B_def with_current_def running_def comm relock_op [OF commutes_ops(2)] relock_op [OF commutes_ops(4)])
  have "\<exists>l i. sync B s = Inr ((), relock l i ?w) \<and> lock_free l \<and> i \<in> UNIV"
    by (rule sync_free [where c = c]) (use assms(1) body in \<open>auto simp: running_def\<close>)
  then obtain l i where l: "lock_free l" "sync B s = Inr ((), relock l i ?w)"
    by blast
  have si: "s_idle (relock l i ?w) = s_idle s"
    by simp
  have "running (relock l i ?w) c"
    using l(1) assms(1) by (simp add: running_def)
  then obtain s' where "switch_thread (relock l i ?w) = Inr s'" "running s' (case xs @ ys of [] \<Rightarrow> the (s_idle s) | x # _ \<Rightarrow> x)"
    "same_work (relock l i ?w) s'" "sched_ok s' (after_switch c (xs @ ys)) (c # W)"
    using switch_ok [of "relock l i ?w" c "xs @ ys" "c # W"] okw unfolding si by auto
  then show ?thesis
    using assms(1,3) l(2) not_idle_run [of s c] by (simp add: sched_sleep_def B_def running_def same_work_def same_but_def)
qed

text \<open>
  C14: A thread that sleeps for a number of seconds leaves the ready queue at once and comes back to it at the
  tick that ends its sleep, 100 ticks to the second: after \<open>n\<close> ticks it is in the waiting queue
  if \<open>n\<close> is less than that, and in the ready queue from then on.  The tick counter must
  not wrap meanwhile.
\<close>

theorem sleep_wakes_on_time:
  assumes "running s c" and "sched_ok s R W" and "c \<in> set R" and "p_pid (s_proc s (t_process (s_thread s c))) \<noteq> 0"
    and "0 < secs" and "unat (s_ticks s) + 100 * secs < 2 ^ 32" and "unat (s_ticks s) + n < 2 ^ 32"
  shows "\<exists>s1 s' R' W'. sched_sleep (of_nat secs) s = Inr s1 \<and> timer_ticks n s1 = Inr s' \<and> sched_ok s' R' W'
    \<and> (if 100 * secs \<le> n then c \<in> set R' else c \<in> set W')"
proof -
  obtain xs ys where R: "R = xs @ c # ys"
    using assms(3) by (meson split_list)
  obtain s1 d where s1: "sched_sleep (of_nat secs) s = Inr s1" "running s1 d" "sched_ok s1 (after_switch c (xs @ ys)) (c # W)"
    and al: "t_alarm_at (s_thread s1 c) = s_ticks s + secs_to_ticks (of_nat secs)" "s_ticks s1 = s_ticks s"
    using sleep_run [OF assms(1) _ assms(4)] assms(2) R by blast
  have "unat (secs_to_ticks (of_nat secs)) = 100 * secs"
    using assms(6) by (simp add: secs_to_ticks_def SLICE_HZ_def unat_word_ariths unat_of_nat_u32)
  then have a: "unat (t_alarm_at (s_thread s1 c)) = unat (s_ticks s) + 100 * secs"
    using assms(6) al by (simp add: unat_word_ariths)
  then have nz: "t_alarm_at (s_thread s1 c) \<noteq> 0"
    using assms(5) by auto
  have "if t_alarm_at (s_thread s1 c) \<le> s_ticks s1 then c \<in> set (after_switch c (xs @ ys)) else c \<in> set (c # W)"
    using a al(2) assms(5) by (auto simp: word_le_nat_alt)
  from timer_ticks_run [OF s1(2,3) _ refl nz this, of n]
  obtain s' R' W' where "timer_ticks n s1 = Inr s'" "sched_ok s' R' W'" "if 100 * secs \<le> n then c \<in> set R' else c \<in> set W'"
    using al(2) a assms(7) by auto
  then show ?thesis
    using s1(1) by blast
qed

end
