(* ===== verification/Kernel_Steps.thy ===== *)
theory Kernel_Steps
  imports Run_Queues
begin

text \<open>
  Blocking on I/O, exit, cleaning up and fork, and the steps of the whole kernel as a relation with
  an invariant that every interleaving keeps.
\<close>

subsection \<open>Blocking on I/O\<close>

lemma start_io_run:
  assumes "running s c"
  shows "\<exists>l. start_io s = Inr (relock l (s_ints s) (set_state c eIOPending s)) \<and> lock_free l"
proof -
  have "\<exists>l i. sync (with_current (\<lambda>cur s. Inr ((), set_state cur eIOPending s))) s
      = Inr ((), relock l i (set_state c eIOPending s)) \<and> lock_free l \<and> i \<in> {s_ints s}"
    by (rule sync_free [where c = c])
      (use assms in \<open>auto simp: running_def with_current_def relock_op [OF commutes_ops(4)]\<close>)
  then show ?thesis
    by (auto simp: start_io_def)
qed

lemma io_wait_fast:
  assumes "running s c" "p_pid (s_proc s (t_process (s_thread s c))) \<noteq> 0" "t_state (s_thread s c) \<noteq> eIOPending"
  shows "\<exists>l. io_wait s = Inr (relock l (s_ints s) (s\<lparr>s_fast_io := s_fast_io s + 1\<rparr>)) \<and> lock_free l"
proof -
  let ?B = "with_current (\<lambda>cur s. if t_state (s_thread s cur) \<noteq> eIOPending then Inr (True, s\<lparr>s_fast_io := s_fast_io s + 1\<rparr>)
        else Inr (False, on_ready (list_unlink cur) (set_state cur eIOWait (s\<lparr>s_slow_io := s_slow_io s + 1\<rparr>))))"
  have r: "(relock l i s)\<lparr>s_fast_io := n\<rparr> = relock l i (s\<lparr>s_fast_io := n\<rparr>)" "s_fast_io (relock l i s) = s_fast_io s" for l i n
    by (simp_all add: relock_def)
  have "\<exists>l i. sync ?B s = Inr (True, relock l i (s\<lparr>s_fast_io := s_fast_io s + 1\<rparr>)) \<and> lock_free l \<and> i \<in> {s_ints s}"
    by (rule sync_free [where c = c]) (use assms in \<open>auto simp: running_def with_current_def r\<close>)
  then show ?thesis
    using assms not_idle_run [of s c] by (auto simp: io_wait_def running_def)
qed

definition blocked :: "nat \<Rightarrow> sched \<Rightarrow> sched" where
  "blocked c s = on_ready (list_unlink c) (set_state c eIOWait (s\<lparr>s_slow_io := s_slow_io s + 1\<rparr>))"

lemma blocked_fields [simp]:
  "s_current (blocked c s) = s_current s" "s_idle (blocked c s) = s_idle s" "s_proc (blocked c s) = s_proc s"
  "t_state (s_thread (blocked c s) u) = (if u = c then eIOWait else t_state (s_thread s u))"
  "t_process (s_thread (blocked c s) u) = t_process (s_thread s u)"
  "s_pnode (blocked c s) = s_pnode s" "s_cleanup (blocked c s) = s_cleanup s"
  by (simp_all add: blocked_def set_state_def thread_update_def)

lemma blocked_ok:
  assumes "sched_ok s (xs @ c # ys) W"
  shows "sched_ok (blocked c s) (xs @ ys) W"
proof -
  have q: "queues s (xs @ c # ys) W"
    using assms by (simp add: sched_ok_def)
  then have "queues (blocked c s) (xs @ ys) W"
    unfolding blocked_def by (intro queues_ready_unlink) (simp add: queues_def)
  moreover have "c \<notin> set (xs @ ys) \<union> set W"
    using q by (auto simp: queues_def dlist_rep_def)
  ultimately show ?thesis
    using assms by (auto simp: sched_ok_def)
qed

lemma io_wait_slow:
  assumes "running s c" "p_pid (s_proc s (t_process (s_thread s c))) \<noteq> 0" "t_state (s_thread s c) = eIOPending"
    and "sched_ok s (xs @ c # ys) W"
  shows "\<exists>s' d. io_wait s = Inr s' \<and> running s' d \<and> next_up s (xs @ ys) d \<and> same_work (blocked c s) s' \<and> sched_ok s' (after_switch c (xs @ ys)) W"
proof -
  let ?B = "with_current (\<lambda>cur s. if t_state (s_thread s cur) \<noteq> eIOPending then Inr (True, s\<lparr>s_fast_io := s_fast_io s + 1\<rparr>)
        else Inr (False, on_ready (list_unlink cur) (set_state cur eIOWait (s\<lparr>s_slow_io := s_slow_io s + 1\<rparr>))))"
  have r: "relock l i (s\<lparr>s_slow_io := n\<rparr>) = (relock l i s)\<lparr>s_slow_io := n\<rparr>" for l i n
    by (simp add: relock_def)
  have n: "s_slow_io (relock l i s) = s_slow_io s" for l i
    by (simp add: relock_def)
  have comm: "on_ready (list_unlink c) (set_state c eIOWait ((relock l i s)\<lparr>s_slow_io := s_slow_io s + 1\<rparr>)) = relock l i (blocked c s)" for l i
    by (simp add: blocked_def relock_op [OF commutes_ops(1)] relock_op [OF commutes_ops(4)] flip: r)
  have "\<exists>l i. sync ?B s = Inr (False, relock l i (blocked c s)) \<and> lock_free l \<and> i \<in> {s_ints s}"
    by (rule sync_free [where c = c]) (use assms(1,3) in \<open>auto simp: running_def with_current_def comm n\<close>)
  then obtain l i where l: "sync ?B s = Inr (False, relock l i (blocked c s))" "lock_free l"
    by blast
  have "running (relock l i (blocked c s)) c" "sched_ok (relock l i (blocked c s)) (xs @ ys) W"
    using assms(1) l(2) blocked_ok [OF assms(4)] by (simp_all add: running_def)
  from switch_ok [OF this] obtain s' d where s': "switch_thread (relock l i (blocked c s)) = Inr s'" "running s' d"
    "next_up (relock l i (blocked c s)) (xs @ ys) d"
    "same_work (relock l i (blocked c s)) s'" "sched_ok s' (after_switch c (xs @ ys)) W"
    unfolding next_up_def by blast
  have "io_wait s = Inr s'"
    using assms(1,2) l(1) s'(1) not_idle_run [of s c] by (simp add: io_wait_def running_def)
  then show ?thesis
    using s' next_up_idle [of "relock l i (blocked c s)" s "xs @ ys" d] by (auto simp: same_work_def)
qed

lemma make_ready_linked:
  assumes "running s d" "sched_ok s R W" "t \<in> set R"
  shows "\<exists>l. make_ready t s = Inr (relock l (s_ints s) (set_state t eReady s)) \<and> lock_free l"
proof -
  have "ln_linked (s_run s t)"
    using assms(2,3) queues_linked [of s R W t] by (simp add: sched_ok_def)
  then have "on_ready (list_prepend t) (set_state t eReady s) = set_state t eReady s"
    using list_prepend_again [of "(s_run s, s_ready s)" t] by (simp add: on_ready_def)
  then show ?thesis
    using make_ready_free [of s d t] assms(1) by (simp add: running_def)
qed

lemma make_ready_unlinked:
  assumes "running s d" "sched_ok s R W" "t \<notin> set R \<union> set W" "s_idle s \<noteq> Some t"
  shows "\<exists>s'. make_ready t s = Inr s' \<and> running s' d \<and> sched_ok s' (t # R) W \<and> t_state (s_thread s' t) = eReady
    \<and> s_proc s' = s_proc s \<and> (\<forall>u. t_process (s_thread s' u) = t_process (s_thread s u))
    \<and> (\<forall>u. u \<noteq> t \<longrightarrow> t_state (s_thread s' u) = t_state (s_thread s u)) \<and> s_idle s' = s_idle s"
proof -
  obtain l where l: "make_ready t s = Inr (relock l (s_ints s) (on_ready (list_prepend t) (set_state t eReady s)))" "lock_free l"
    using make_ready_free [of s d t] assms(1) by (auto simp: running_def)
  have "queues (on_ready (list_prepend t) (set_state t eReady s)) (t # R) W"
    using queues_ready_prepend [of "set_state t eReady s" R W t] assms(2,3) by (simp add: sched_ok_def)
  then show ?thesis
    using l assms by (auto simp: sched_ok_def running_def)
qed

lemma sched_ok_state:
  assumes "sched_ok s R W" "c \<in> set R" "x \<in> {eReady, eIOPending}"
  shows "sched_ok (set_state c x s) R W"
  using assms by (auto simp: sched_ok_def queues_def)

definition wait_then_wake :: "nat list \<times> sched \<Rightarrow> (bool \<times> nat list \<times> sched) result" where
  "wait_then_wake qs = bind_result (wq_wait qs) wq_wake"

definition wake_during_wait :: "nat list \<times> sched \<Rightarrow> (nat list \<times> sched) result" where
  "wake_during_wait = (\<lambda>(q, s).
    bind_result (start_io s) (\<lambda>s.
    bind_result (wq_append (q, s)) (\<lambda>(q, s).
    bind_result (wq_wake (q, s)) (\<lambda>(_, q, s).
    bind_result (io_wait s) (\<lambda>s. Inr (q, s))))))"

definition wake_before_append :: "nat list \<times> sched \<Rightarrow> (nat list \<times> sched) result" where
  "wake_before_append = (\<lambda>(q, s).
    bind_result (start_io s) (\<lambda>s.
    bind_result (wq_wake (q, s)) (\<lambda>(_, q, s).
    bind_result (wq_append (q, s)) (\<lambda>(q, s).
    bind_result (io_wait s) (\<lambda>s. Inr (q, s))))))"

lemma wait_blocks:
  assumes "running s c" "sched_ok s R W" "c \<in> set R" "p_pid (s_proc s (t_process (s_thread s c))) \<noteq> 0"
  shows "\<exists>s1 s' d R'. start_io s = Inr s1 \<and> s_current s1 = Some c \<and> io_wait s1 = Inr s' \<and> running s' d
    \<and> sched_ok s' R' W \<and> set R' = set R - {c} \<and> t_state (s_thread s' c) = eIOWait \<and> s_idle s' = s_idle s"
proof -
  obtain l where l: "start_io s = Inr (relock l (s_ints s) (set_state c eIOPending s))" "lock_free l"
    using start_io_run [OF assms(1)] by blast
  let ?s1 = "relock l (s_ints s) (set_state c eIOPending s)"
  obtain xs ys where R: "R = xs @ c # ys"
    using assms(3) by (meson split_list)
  have "running ?s1 c" "sched_ok ?s1 (xs @ c # ys) W"
    using assms l(2) R sched_ok_state [of s R W c eIOPending] by (simp_all add: running_def)
  then obtain s' d where s': "io_wait ?s1 = Inr s'" "running s' d" "same_work (blocked c ?s1) s'" "sched_ok s' (after_switch c (xs @ ys)) W"
    using io_wait_slow [of ?s1 c xs ys W] assms(4) by auto
  have d: "c \<notin> set (xs @ ys)"
    using assms(2) R by (auto simp: sched_ok_def queues_def dlist_rep_def)
  have "set (after_switch c (xs @ ys)) = set (xs @ ys)"
    by (cases "xs @ ys") (auto simp: after_switch_def)
  then have "set (after_switch c (xs @ ys)) = set R - {c}"
    using R d by auto
  then show ?thesis
    using l(1) s' assms(1) by (auto simp: same_work_def running_def)
qed

text \<open>
  C30: A wakeup that comes after the thread has put itself on the wait queue is never lost.  If it comes
  before \<^verbatim>\<open>io_wait\<close>, the thread does not block at all and goes on running; if it comes after,
  the thread is blocked, and the wakeup puts it back on the ready queue.
\<close>

theorem wake_after_append:
  assumes "running s c" and "sched_ok s R W" and "c \<in> set R" and "p_pid (s_proc s (t_process (s_thread s c))) \<noteq> 0"
  shows "(\<exists>s'. wake_during_wait ([], s) = Inr ([], s') \<and> running s' c \<and> sched_ok s' R W \<and> t_state (s_thread s' c) = eReady)
    \<and> (\<exists>s' R'. wait_then_wake ([], s) = Inr (True, [], s') \<and> sched_ok s' R' W \<and> set R' = set R
         \<and> t_state (s_thread s' c) = eReady)"
proof
  obtain l where l: "start_io s = Inr (relock l (s_ints s) (set_state c eIOPending s))" "lock_free l"
    using start_io_run [OF assms(1)] by blast
  let ?s1 = "relock l (s_ints s) (set_state c eIOPending s)"
  have r1: "running ?s1 c" and ok1: "sched_ok ?s1 R W"
    using assms l(2) sched_ok_state [of s R W c eIOPending] by (simp_all add: running_def)
  obtain l2 where l2: "make_ready c ?s1 = Inr (relock l2 (s_ints ?s1) (set_state c eReady ?s1))" "lock_free l2"
    using make_ready_linked [OF r1 ok1 assms(3)] by blast
  let ?s2 = "relock l2 (s_ints ?s1) (set_state c eReady ?s1)"
  have r2: "running ?s2 c" "p_pid (s_proc ?s2 (t_process (s_thread ?s2 c))) \<noteq> 0" "t_state (s_thread ?s2 c) \<noteq> eIOPending" "sched_ok ?s2 R W"
    using assms l2(2) ok1 sched_ok_state [of ?s1 R W c eReady] by (simp_all add: running_def)
  obtain l3 where l3: "io_wait ?s2 = Inr (relock l3 (s_ints ?s2) (?s2\<lparr>s_fast_io := s_fast_io ?s2 + 1\<rparr>))" "lock_free l3"
    using io_wait_fast [OF r2(1-3)] by blast
  let ?s3 = "relock l3 (s_ints ?s2) (?s2\<lparr>s_fast_io := s_fast_io ?s2 + 1\<rparr>)"
  have c1: "s_current ?s1 = Some c"
    using r1 by (simp only: running_def)
  have "wake_during_wait ([], s) = Inr ([], ?s3)"
    using l(1) l2(1) l3(1) c1 unfolding wake_during_wait_def wq_append_def wq_wake_def with_current_def by (simp only: prod.case bind_result_Inr option.case append_Nil list.case)
  moreover have "running ?s3 c \<and> sched_ok ?s3 R W \<and> t_state (s_thread ?s3 c) = eReady"
    using r2(1,4) l3(2) by (simp add: running_def sched_ok_def queues_def)
  ultimately show "\<exists>s'. wake_during_wait ([], s) = Inr ([], s') \<and> running s' c \<and> sched_ok s' R W \<and> t_state (s_thread s' c) = eReady"
    by blast
next
  obtain s1 s2 d R2 where w: "start_io s = Inr s1" "s_current s1 = Some c" "io_wait s1 = Inr s2" "running s2 d"
    "sched_ok s2 R2 W" "set R2 = set R - {c}" "t_state (s_thread s2 c) = eIOWait" "s_idle s2 = s_idle s"
    using wait_blocks [OF assms] by blast
  have "c \<notin> set R2 \<union> set W" "s_idle s2 \<noteq> Some c"
    using w(6,8) assms(2,3) by (auto simp: sched_ok_def queues_def)
  then obtain s' where s': "make_ready c s2 = Inr s'" "sched_ok s' (c # R2) W" "t_state (s_thread s' c) = eReady"
    using make_ready_unlinked [OF w(4,5)] by blast
  have "wait_then_wake ([], s) = Inr (True, [], s')"
    using w(1-3) s'(1) by (simp add: wait_then_wake_def wq_wait_def wq_append_def wq_wake_def with_current_def)
  moreover have "set (c # R2) = set R"
    using w(6) assms(3) by auto
  ultimately show "\<exists>s' R'. wait_then_wake ([], s) = Inr (True, [], s') \<and> sched_ok s' R' W \<and> set R' = set R
         \<and> t_state (s_thread s' c) = eReady"
    using s'(2,3) by blast
qed

text \<open>
  C31: A wakeup that comes between \<^verbatim>\<open>start_io\<close> and the moment the thread enters the wait queue is lost: the
  queue is empty then, and the thread goes on to block, out of the ready queue, until some
  later wakeup.
\<close>

theorem early_wake_lost:
  assumes "running s c" and "sched_ok s R W" and "c \<in> set R" and "p_pid (s_proc s (t_process (s_thread s c))) \<noteq> 0"
  shows "\<exists>s' R'. wake_before_append ([], s) = Inr ([c], s') \<and> sched_ok s' R' W \<and> set R' = set R - {c}
    \<and> t_state (s_thread s' c) = eIOWait"
proof -
  obtain s1 s2 R2 where "start_io s = Inr s1" "s_current s1 = Some c" "io_wait s1 = Inr s2"
    "sched_ok s2 R2 W" "set R2 = set R - {c}" "t_state (s_thread s2 c) = eIOWait"
    using wait_blocks [OF assms] by blast
  then show ?thesis
    by (auto simp: wake_before_append_def wq_append_def wq_wake_def with_current_def)
qed


subsection \<open>An example state\<close>

text \<open>The idle thread 0; threads 1 (running) and 2 ready; thread 3 asleep until tick 5.\<close>

definition demo_base :: sched where
  "demo_base = \<lparr>s_thread = (\<lambda>t. \<lparr>t_process = (if t = 0 then 0 else 1), t_id = 0, t_state = (if t = 3 then eWaiting else eReady),
       t_resume = AtStart 0, t_directory = 0, t_kernel_stack = 0, t_alarm_at = (if t = 3 then 5 else 0)\<rparr>),
     s_run = (\<lambda>_. list_node_new),
     s_proc = (\<lambda>p. demo_process\<lparr>p_pid := int p\<rparr>), s_pnode = (\<lambda>_. list_node_new), s_processes = (\<lambda>p. if p < 2 then Some p else None),
     s_cleanup = \<lparr>dl_head = None, dl_tail = None, dl_count = 0\<rparr>, s_ready = \<lparr>dl_head = None, dl_tail = None, dl_count = 0\<rparr>,
     s_waiting = \<lparr>dl_head = None, dl_tail = None, dl_count = 0\<rparr>, s_hiprio = [], s_idle = Some 0, s_current = Some 1,
     s_lock = spin_lock_new, s_ints = True, s_ticks = 5, s_vm = demo_vm, s_esp0 = 0, s_fast_io = 0, s_slow_io = 0\<rparr>"

definition demo_sched :: sched where
  "demo_sched = on_waiting (list_prepend 3) (on_ready (list_append 1) (on_ready (list_append 2) demo_base))"

lemma demo_sched_fields:
  "s_thread demo_sched = s_thread demo_base" "s_proc demo_sched = s_proc demo_base" "s_idle demo_sched = Some 0"
  "s_current demo_sched = Some 1" "s_lock demo_sched = spin_lock_new" "s_ticks demo_sched = 5"
  "s_pnode demo_sched = s_pnode demo_base" "s_cleanup demo_sched = s_cleanup demo_base"
  by (simp_all add: demo_sched_def) (simp_all add: demo_base_def)

lemma demo_sched_queues: "queues demo_sched [2, 1] [3]"
proof -
  have "queues demo_base [] []"
    by (simp add: demo_base_def queues_def dlist_rep_def list_node_new_def)
  then have "queues (on_ready (list_append 2) demo_base) [2] []"
    using queues_ready_append by fastforce
  then have "queues (on_ready (list_append 1) (on_ready (list_append 2) demo_base)) [2, 1] []"
    using queues_ready_append [of _ "[2]" "[]" 1] by simp
  then show ?thesis
    unfolding demo_sched_def by (rule queues_waiting_prepend) simp
qed

lemma demo_sched_ok: "sched_ok demo_sched [2, 1] [3]" "running demo_sched 1"
proof -
  have "dlist_rep (s_pnode demo_sched, s_cleanup demo_sched) []"
    by (simp add: demo_sched_fields demo_base_def dlist_rep_def)
  moreover have "t_state (s_thread demo_sched t) = (if t = 3 then eWaiting else eReady)" for t
    by (simp add: demo_sched_fields) (simp add: demo_base_def)
  ultimately show "sched_ok demo_sched [2, 1] [3]"
    using demo_sched_queues by (auto simp: sched_ok_def demo_sched_fields)
  show "running demo_sched 1"
    by (simp add: running_def demo_sched_fields lock_free_def spin_lock_new_def)
qed

lemma demo_sched_pid: "p_pid (s_proc demo_sched (t_process (s_thread demo_sched 1))) \<noteq> 0"
  by (simp add: demo_sched_fields) (simp add: demo_base_def)

theorem yield_round_robin_witness:
  "(\<exists>s'. yields 1 demo_sched = Inr s' \<and> s_current s' = Some 2) \<and> (\<exists>s'. yields 2 demo_sched = Inr s' \<and> s_current s' = Some 1)
   \<and> (\<exists>s'. yields 7 (demo_sched\<lparr>s_current := Some 2\<rparr>) = Inr s' \<and> s_current s' = Some 2)"
proof -
  have "running (demo_sched\<lparr>s_current := Some 2\<rparr>) 2" "queues (demo_sched\<lparr>s_current := Some 2\<rparr>) [2, 1] [3]"
    using demo_sched_ok(2) demo_sched_queues by (simp_all add: running_def queues_def)
  from yield_round_robin [OF this, of 0] yield_round_robin [OF demo_sched_ok(2) demo_sched_queues, of 0] show ?thesis
    by (auto simp: demo_sched_fields less_Suc_eq numeral_2_eq_2 simp del: yields.simps)
qed

theorem sleep_wakes_on_time_witness:
  "\<exists>s1 s' R' W'. sched_sleep 2 demo_sched = Inr s1 \<and> timer_ticks 200 s1 = Inr s' \<and> sched_ok s' R' W' \<and> 1 \<in> set R'"
  using sleep_wakes_on_time [OF demo_sched_ok(2,1) _ demo_sched_pid, of 2 200] by (simp add: demo_sched_fields)

theorem wake_after_append_witness:
  "\<exists>s'. wake_during_wait ([], demo_sched) = Inr ([], s') \<and> running s' 1"
  using wake_after_append [OF demo_sched_ok(2,1) _ demo_sched_pid] by auto

theorem early_wake_lost_witness:
  "\<exists>s'. wake_before_append ([], demo_sched) = Inr ([1], s') \<and> t_state (s_thread s' 1) = eIOWait"
  using early_wake_lost [OF demo_sched_ok(2,1) _ demo_sched_pid] by auto

subsection \<open>Exit\<close>

lemma cleanup_on_cleanup [simp]:
  "s_pnode (on_cleanup f s) = fst (f (s_pnode s, s_cleanup s))" "s_cleanup (on_cleanup f s) = snd (f (s_pnode s, s_cleanup s))"
  "s_run (on_cleanup f s) = s_run s" "s_ready (on_cleanup f s) = s_ready s" "s_waiting (on_cleanup f s) = s_waiting s"
  "s_thread (on_cleanup f s) = s_thread s" "s_idle (on_cleanup f s) = s_idle s" "s_current (on_cleanup f s) = s_current s"
  "s_lock (on_cleanup f s) = s_lock s" "s_ints (on_cleanup f s) = s_ints s" "s_proc (on_cleanup f s) = s_proc s"
  "s_processes (on_cleanup f s) = s_processes s" "s_vm (on_cleanup f s) = s_vm s"
  by (simp_all add: on_cleanup_def Let_def split: prod.splits)

lemma queues_on_cleanup [simp]: "queues (on_cleanup f s) R W = queues s R W"
  by (rule queues_fields) simp_all

lemma prepend_any_rep:
  assumes "dlist_rep (nodes, l) C"
  shows "\<exists>C'. dlist_rep (list_prepend p (nodes, l)) C'"
proof (cases "ln_linked (nodes p)")
  case True
  then show ?thesis
    using assms list_prepend_again [of "(nodes, l)" p] by auto
next
  case False
  then show ?thesis
    using list_prepend_rep [OF assms] by blast
qed

text \<open>
  \<^verbatim>\<open>die\<close> of a thread that is not linked in any queue and is not asleep only marks it.
\<close>

lemma die_unlinked:
  assumes "held_by c n (s_lock s)" "\<not> s_ints s" "s_current s = Some c" "\<not> ln_linked (s_run s t)" "t_state (s_thread s t) \<noteq> eWaiting"
  shows "\<exists>l. die t s = Inr (relock l False (set_state t eDead s)) \<and> held_by c n l"
proof (cases "t_state (s_thread s t) = eReady")
  case True
  have u: "on_ready (list_unlink t) s = s"
    using list_unlink_unlinked [of "(s_run s, s_ready s)" t] assms(4) by (simp add: on_ready_def)
  obtain l where "remove_from_ready t s = Inr (relock l False s)" "held_by c n l"
    using sync_do_held [OF commutes_ops(1) assms(1-3), of "list_unlink t"] by (auto simp: remove_from_ready_def u)
  then show ?thesis
    using True by (auto simp: die_def relock_op [OF commutes_ops(4)])
next
  case False
  have "s = relock (s_lock s) False s"
    using assms(2) by (simp add: relock_def)
  then have "set_state t eDead s = relock (s_lock s) False (set_state t eDead s)"
    by (metis relock_op [OF commutes_ops(4)])
  then show ?thesis
    using assms(1,5) False unfolding die_def by auto
qed

definition retired :: "nat \<Rightarrow> int \<Rightarrow> sched \<Rightarrow> sched" where
  "retired c code s =
    (let p = t_process (s_thread s c);
         s = proc_update p (\<lambda>pr. pr\<lparr>p_alive := False, p_exit_code := code\<rparr>) (on_ready (list_unlink c) s)
     in on_cleanup (list_prepend p) (if p_threads (s_proc s p) = [] then s else set_state c eDead s))"

lemma proc_update_fields [simp]:
  "s_run (proc_update p f s) = s_run s" "s_ready (proc_update p f s) = s_ready s" "s_waiting (proc_update p f s) = s_waiting s"
  "s_thread (proc_update p f s) = s_thread s" "s_idle (proc_update p f s) = s_idle s" "s_current (proc_update p f s) = s_current s"
  "s_lock (proc_update p f s) = s_lock s" "s_ints (proc_update p f s) = s_ints s" "s_pnode (proc_update p f s) = s_pnode s"
  "s_cleanup (proc_update p f s) = s_cleanup s" "s_processes (proc_update p f s) = s_processes s"
  "s_proc (proc_update p f s) q = (if q = p then f (s_proc s p) else s_proc s q)"
  by (simp_all add: proc_update_def)

lemma retired_idle [simp]: "s_idle (retired c code s) = s_idle s"
  by (simp add: retired_def Let_def)

lemma retired_ok:
  assumes "sched_ok s (xs @ c # ys) W"
  shows "sched_ok (retired c code s) (xs @ ys) W"
proof -
  have q: "queues s (xs @ c # ys) W"
    using assms by (simp add: sched_ok_def)
  have "queues (on_ready (list_unlink c) s) (xs @ ys) W"
    by (rule queues_ready_unlink [OF q])
  then have "queues (retired c code s) (xs @ ys) W"
    by (auto simp: retired_def Let_def queues_def)
  moreover have "c \<notin> set (xs @ ys) \<union> set W"
    using q by (auto simp: queues_def dlist_rep_def)
  moreover have "t_state (s_thread (retired c code s) u)
      = (if u = c \<and> p_threads (s_proc s (t_process (s_thread s c))) \<noteq> [] then eDead else t_state (s_thread s u))" for u
    by (simp add: retired_def Let_def)
  moreover have "s_idle (retired c code s) = s_idle s" "s_pnode (retired c code s) = fst (list_prepend (t_process (s_thread s c)) (s_pnode s, s_cleanup s))"
    "s_cleanup (retired c code s) = snd (list_prepend (t_process (s_thread s c)) (s_pnode s, s_cleanup s))"
    by (simp_all add: retired_def Let_def)
  moreover obtain C0 where "dlist_rep (s_pnode s, s_cleanup s) C0"
    using assms by (auto simp: sched_ok_def)
  moreover from this have "\<exists>C. dlist_rep (list_prepend (t_process (s_thread s c)) (s_pnode s, s_cleanup s)) C"
    by (rule prepend_any_rep)
  ultimately show ?thesis
    using assms by (auto simp: sched_ok_def)
qed

lemma process_exit_run:
  assumes "held_by c 0 (s_lock s)" "\<not> s_ints s" "s_current s = Some c" "\<not> ln_linked (s_run s c)" "t_state (s_thread s c) \<noteq> eWaiting"
    and "p = t_process (s_thread s c)" "p_threads (s_proc s p) = [] \<or> p_threads (s_proc s p) = [c]"
  shows "\<exists>l. process_exit p code s = Inr (relock l False
      (let s = proc_update p (\<lambda>pr. pr\<lparr>p_alive := False, p_exit_code := code\<rparr>) s
       in if p_threads (s_proc s p) = [] then s else set_state c eDead s)) \<and> held_by c 0 l"
proof -
  let ?s = "proc_update p (\<lambda>pr. pr\<lparr>p_alive := False, p_exit_code := code\<rparr>) s"
  have rr: "?s = relock (s_lock s) False ?s"
    using assms(2) by (simp add: relock_def proc_update_def)
  have d: "\<exists>l. die c ?s = Inr (relock l False (set_state c eDead ?s)) \<and> held_by c 0 l"
    by (rule die_unlinked) (use assms in simp_all)
  show ?thesis
  proof (cases "p_threads (s_proc s p) = []")
    case True
    then show ?thesis
      using assms(1) rr by (auto simp: process_exit_def Let_def intro!: exI [of _ "s_lock s"])
  next
    case False
    then show ?thesis
      using assms(6,7) d by (auto simp: process_exit_def Let_def)
  qed
qed

lemma exit_run:
  assumes "running s c" "sched_ok s (xs @ c # ys) W" "p_pid (s_proc s (t_process (s_thread s c))) \<noteq> 0"
    and "p_threads (s_proc s (t_process (s_thread s c))) \<in> {[], [c]}"
  shows "\<exists>s' d. sched_exit code s = Inr s' \<and> running s' d \<and> next_up s (xs @ ys) d \<and> same_work (retired c code s) s'
    \<and> sched_ok s' (after_switch c (xs @ ys)) W"
proof -
  let ?u = "on_ready (list_unlink c) s" and ?p = "t_process (s_thread s c)"
  let ?t = "let s = proc_update ?p (\<lambda>pr. pr\<lparr>p_alive := False, p_exit_code := code\<rparr>) ?u
       in if p_threads (s_proc s ?p) = [] then s else set_state c eDead s"
  define B where "B = with_current (\<lambda>cur s. let s = on_ready (list_unlink cur) s; p = t_process (s_thread s cur)
        in bind_result (process_exit p code s) (\<lambda>s. Inr ((), on_cleanup (list_prepend p) s)))"
  have st: "t_state (s_thread s c) \<noteq> eWaiting" "\<not> ln_linked (s_run ?u c)"
    using assms(2) by (auto simp: sched_ok_def)
  have rt: "retired c code s = on_cleanup (list_prepend ?p) ?t"
    by (simp add: retired_def Let_def)
  have prc: "proc_update ?p f (relock l i ?u) = relock l i (proc_update ?p f ?u)" for f l i
    by (rule relock_op [OF commutes_ops(6)])
  have body: "\<exists>l'. B (relock l False s) = Inr ((), relock l' False (retired c code s)) \<and> held_by c 0 l' \<and> enable_ints l' \<in> UNIV"
    if "held_by c 0 l" for l
  proof -
    have t: "(let s = proc_update ?p (\<lambda>pr. pr\<lparr>p_alive := False, p_exit_code := code\<rparr>) (relock l False ?u)
       in if p_threads (s_proc s ?p) = [] then s else set_state c eDead s) = relock l False ?t"
      by (simp add: Let_def prc relock_op [OF commutes_ops(4)])
    have "\<exists>l'. process_exit ?p code (relock l False ?u) = Inr (relock l' False (relock l False ?t)) \<and> held_by c 0 l'"
      unfolding t [symmetric] by (rule process_exit_run) (use that assms(1,4) st in \<open>auto simp: running_def\<close>)
    then obtain l' where "process_exit ?p code (relock l False ?u) = Inr (relock l' False ?t)" "held_by c 0 l'"
      by auto
    then show ?thesis
      using assms(1) unfolding rt
      by (auto simp: B_def with_current_def running_def Let_def relock_op [OF commutes_ops(1)] relock_op [OF commutes_ops(3)])
  qed
  have "s_current (retired c code s) = Some c"
    using assms(1) by (simp add: retired_def Let_def running_def)
  then have "\<exists>l i. sync B s = Inr ((), relock l i (retired c code s)) \<and> lock_free l \<and> i \<in> UNIV"
    by (intro sync_free [where c = c]) (use assms(1) body in \<open>auto simp: running_def\<close>)
  then obtain l i where l: "lock_free l" "sync B s = Inr ((), relock l i (retired c code s))"
    by blast
  have "running (relock l i (retired c code s)) c" "sched_ok (relock l i (retired c code s)) (xs @ ys) W"
    using l(1) assms(1) retired_ok [OF assms(2)] by (simp_all add: running_def retired_def Let_def)
  from switch_ok [OF this] obtain s' d where s': "switch_thread (relock l i (retired c code s)) = Inr s'" "running s' d"
    "next_up (relock l i (retired c code s)) (xs @ ys) d"
    "same_work (relock l i (retired c code s)) s'" "sched_ok s' (after_switch c (xs @ ys)) W"
    unfolding next_up_def by blast
  have "sched_exit code s = bind_result (not_idle s) (\<lambda>_. bind_result (sync B s) (\<lambda>(_, s). switch_thread s))"
    unfolding sched_exit_def B_def ..
  then have "sched_exit code s = Inr s'"
    using assms(1,3) l(2) s'(1) not_idle_run [of s c] by (simp add: running_def)
  then show ?thesis
    using s' next_up_idle [of "relock l i (retired c code s)" s "xs @ ys" d] by (auto simp: same_work_def)
qed


subsection \<open>Cleaning up\<close>

text \<open>What cleaning up leaves alone.\<close>

definition same_threads :: "sched \<Rightarrow> sched \<Rightarrow> bool" where
  "same_threads s s' \<longleftrightarrow> s_thread s' = s_thread s \<and> s_run s' = s_run s \<and> s_ready s' = s_ready s \<and> s_waiting s' = s_waiting s
     \<and> s_idle s' = s_idle s \<and> s_current s' = s_current s \<and> s_lock s' = s_lock s \<and> s_ints s' = s_ints s \<and> s_proc s' = s_proc s"

lemma cleanup_loop_run:
  assumes "dlist_rep (s_pnode s, s_cleanup s) C"
  shows "\<exists>s'. cleanup_loop (first_or C None) s = Some s' \<and> dlist_rep (s_pnode s', s_cleanup s') []
    \<and> (\<forall>i. s_processes s' i = (if i \<in> (\<lambda>p. nat (p_pid (s_proc s p))) ` set C then None else s_processes s i))
    \<and> same_threads s s'"
  using assms
proof (induction C arbitrary: s)
  case Nil
  then show ?case
    by (simp add: cleanup_loop.simps same_threads_def)
next
  case (Cons p C)
  define s1 where "s1 = (let s = on_cleanup (list_unlink p) s;
      s = s\<lparr>s_processes := (s_processes s)(nat (p_pid (s_proc s p)) := None)\<rparr>
    in s\<lparr>s_vm := free_directory (p_directory (s_proc s p)) (s_vm s)\<rparr>)"
  have nxt: "ln_next (s_pnode s p) = first_or C None"
    using Cons.prems by (simp add: dlist_rep_def)
  have step: "cleanup_loop (first_or (p # C) None) s = cleanup_loop (first_or C None) s1"
    by (simp add: cleanup_loop.simps [of "Some p"] iter_advance_def nxt s1_def Let_def)
  have f: "s_pnode s1 = fst (list_unlink p (s_pnode s, s_cleanup s))" "s_cleanup s1 = snd (list_unlink p (s_pnode s, s_cleanup s))"
    "s_proc s1 = s_proc s" "s_processes s1 = (s_processes s)(nat (p_pid (s_proc s p)) := None)" "same_threads s s1"
    by (simp_all add: s1_def Let_def same_threads_def)
  have "dlist_rep (s_pnode s1, s_cleanup s1) C"
    using list_unlink_rep [of "s_pnode s" "s_cleanup s" "[]" p C] Cons.prems f by simp
  from Cons.IH [OF this] obtain s' where s': "cleanup_loop (first_or C None) s1 = Some s'" "dlist_rep (s_pnode s', s_cleanup s') []"
    "\<forall>i. s_processes s' i = (if i \<in> (\<lambda>p. nat (p_pid (s_proc s1 p))) ` set C then None else s_processes s1 i)" "same_threads s1 s'"
    by blast
  show ?case
    unfolding step using s' f by (auto simp: same_threads_def)
qed

lemma cleanup_run:
  assumes "dlist_rep (s_pnode s, s_cleanup s) C"
  shows "\<exists>s'. cleanup s = Inr ((), s') \<and> dlist_rep (s_pnode s', s_cleanup s') []
    \<and> (\<forall>i. s_processes s' i = (if i \<in> (\<lambda>p. nat (p_pid (s_proc s p))) ` set C then None else s_processes s i))
    \<and> same_threads s s'"
proof -
  have "dl_head (s_cleanup s) = first_or C None"
    using assms by (simp add: dlist_rep_def)
  then show ?thesis
    using cleanup_loop_run [OF assms] by (auto simp: cleanup_def)
qed

lemma on_idle_run:
  assumes "running s c" "sched_ok s R W" "dlist_rep (s_pnode s, s_cleanup s) C"
  shows "\<exists>s' d. on_idle s = Inr s' \<and> dlist_rep (s_pnode s', s_cleanup s') []
    \<and> (\<forall>i. s_processes s' i = (if i \<in> (\<lambda>p. nat (p_pid (s_proc s p))) ` set C then None else s_processes s i))
    \<and> running s' d \<and> next_up s R d \<and> sched_ok s' (after_switch c R) W \<and> same_but {} s s'"
proof -
  obtain l1 where l1: "lock (Some c) (s_lock s, s_ints s) = Inr (l1, False)" "held_by c 0 l1"
    using lock_first [of "s_lock s"] assms(1) by (auto simp: running_def)
  let ?s = "relock l1 False s"
  obtain s1 where s1: "cleanup ?s = Inr ((), s1)" "dlist_rep (s_pnode s1, s_cleanup s1) []"
    "\<forall>i. s_processes s1 i = (if i \<in> (\<lambda>p. nat (p_pid (s_proc s p))) ` set C then None else s_processes s i)" "same_threads ?s s1"
    using cleanup_run [of ?s C] assms(3) by auto
  obtain l2 where l2: "unlock (Some c) (l1, False) = Inr (l2, enable_ints l1)" "lock_free l2"
    using unlock_last [OF l1(2)] by blast
  let ?s2 = "relock l2 (enable_ints l1) s1"
  have "sync cleanup s = Inr ((), ?s2)"
    using assms(1) l1(1) l2(1) s1(1,4) by (simp add: sync_def running_def same_threads_def flip: relock_def)
  then have idle: "on_idle s = switch_thread ?s2"
    by (simp add: on_idle_def)
  have "sched_ok ?s2 R W" "running ?s2 c"
    using assms(1,2) s1(2,4) l2(2) by (auto simp: sched_ok_def queues_def running_def same_threads_def)
  from switch_ok [OF this(2,1)] obtain s' d where s': "switch_thread ?s2 = Inr s'" "running s' d" "next_up ?s2 R d"
    "same_work ?s2 s'" "sched_ok s' (after_switch c R) W"
    unfolding next_up_def by blast
  have "next_up s R d"
    using s'(3) s1(4) next_up_idle [of ?s2 s R d] by (simp add: same_threads_def)
  then show ?thesis
    using idle s' s1(2-4) by (auto simp: same_work_def same_but_def same_threads_def)
qed

text \<open>
  C33: The idle loop reaps: it returns, it empties the list of processes to clean up, and in the process table it
  frees exactly the slots of the processes that were on the list, so that their numbers can
  be given out again.
\<close>

theorem on_idle_reaps:
  assumes "running s c" and "sched_ok s R W" and "dlist_rep (s_pnode s, s_cleanup s) C"
  shows "\<exists>s'. on_idle s = Inr s' \<and> dlist_rep (s_pnode s', s_cleanup s') []
    \<and> (\<forall>i. s_processes s' i = (if i \<in> (\<lambda>p. nat (p_pid (s_proc s p))) ` set C then None else s_processes s i))"
  using on_idle_run [OF assms] by blast

theorem on_idle_reaps_witness:
  "\<exists>s'. on_idle (on_cleanup (list_prepend 1) demo_sched) = Inr s' \<and> s_processes s' 1 = None \<and> s_processes s' 0 = Some 0"
proof -
  let ?s = "on_cleanup (list_prepend 1) demo_sched"
  have rep: "dlist_rep (s_pnode demo_sched, s_cleanup demo_sched) []"
    by (simp add: demo_sched_fields demo_base_def dlist_rep_def)
  have C: "dlist_rep (s_pnode ?s, s_cleanup ?s) [1]"
    using list_prepend_rep [OF rep, of 1] by (simp add: demo_sched_fields demo_base_def list_node_new_def)
  then have ok: "sched_ok ?s [2, 1] [3]" "running ?s 1"
    using demo_sched_ok by (auto simp: sched_ok_def running_def)
  have p: "s_processes ?s 0 = Some 0" "p_pid (s_proc ?s 1) = 1"
    by (simp_all add: demo_sched_def) (simp_all add: demo_base_def)
  show ?thesis
    using on_idle_reaps [OF ok(2,1) C] p by auto
qed

subsection \<open>Fork\<close>

lemma new_pid_free: "new_pid s = Inr pid \<Longrightarrow> 0 \<le> pid \<and> pid < int cMaxProcesses \<and> s_processes s (nat pid) = None
    \<and> (\<forall>i<nat pid. s_processes s i \<noteq> None)"
  by (auto simp: new_pid_def find_Some_iff split: option.splits)

lemma place_fields [simp]:
  "s_run (place_thread m d s) = s_run s" "s_ready (place_thread m d s) = s_ready s" "s_waiting (place_thread m d s) = s_waiting s"
  "s_idle (place_thread m d s) = s_idle s" "s_current (place_thread m d s) = s_current s" "s_lock (place_thread m d s) = s_lock s"
  "s_ints (place_thread m d s) = s_ints s" "s_proc (place_thread m d s) = s_proc s" "s_pnode (place_thread m d s) = s_pnode s"
  "s_cleanup (place_thread m d s) = s_cleanup s" "s_processes (place_thread m d s) = s_processes s" "s_vm (place_thread m d s) = s_vm s"
  "t_state (s_thread (place_thread m d s) u) = t_state (s_thread s u)"
  "t_process (s_thread (place_thread m d s) u) = t_process (s_thread s u)"
  "t_directory (s_thread (place_thread m d s) u) = (if u = m then d else t_directory (s_thread s u))"
  by (simp_all add: place_thread_def thread_update_def)

lemma new_thread_fields [simp]:
  "s_run (new_thread p m s) = (s_run s)(m := list_node_new)" "s_ready (new_thread p m s) = s_ready s" "s_waiting (new_thread p m s) = s_waiting s"
  "s_idle (new_thread p m s) = s_idle s" "s_current (new_thread p m s) = s_current s" "s_lock (new_thread p m s) = s_lock s"
  "s_ints (new_thread p m s) = s_ints s" "s_pnode (new_thread p m s) = s_pnode s"
  "s_cleanup (new_thread p m s) = s_cleanup s" "s_processes (new_thread p m s) = s_processes s" "s_vm (new_thread p m s) = s_vm s"
  "u \<noteq> m \<Longrightarrow> s_thread (new_thread p m s) u = s_thread s u"
  "t_process (s_thread (new_thread p m s) m) = p"
  "s_proc (new_thread p m s) q = (if q = p then (s_proc s p)\<lparr>p_thread_ids := p_thread_ids (s_proc s p) + 1\<rparr> else s_proc s q)"
  by (simp_all add: new_thread_def Let_def proc_update_def thread_new_def)

lemma register_fields [simp]:
  "s_run (register_process p pid d se s) = s_run s" "s_ready (register_process p pid d se s) = s_ready s"
  "s_waiting (register_process p pid d se s) = s_waiting s" "s_idle (register_process p pid d se s) = s_idle s"
  "s_current (register_process p pid d se s) = s_current s" "s_lock (register_process p pid d se s) = s_lock s"
  "s_ints (register_process p pid d se s) = s_ints s" "s_thread (register_process p pid d se s) = s_thread s"
  "s_cleanup (register_process p pid d se s) = s_cleanup s" "s_pnode (register_process p pid d se s) = (s_pnode s)(p := list_node_new)"
  "s_processes (register_process p pid d se s) = (s_processes s)(nat pid := Some p)"
  "s_vm (register_process p pid d se s) = s_vm s"
  "s_proc (register_process p pid d se s) = (s_proc s)(p := (process_new pid se (s_proc s p))\<lparr>p_directory := d\<rparr>)"
  by (simp_all add: register_process_def)

lemma queues_fresh_node:
  assumes "queues s R W" "m \<notin> set R \<union> set W" "s_run s' = (s_run s)(m := list_node_new)" "s_ready s' = s_ready s" "s_waiting s' = s_waiting s"
  shows "queues s' R W"
proof -
  have "dlist_rep (s_run s', s_ready s') R"
    by (rule dlist_rep_cong [of "s_run s"]) (use assms in \<open>auto simp: queues_def\<close>)
  moreover have "dlist_rep (s_run s', s_waiting s') W"
    by (rule dlist_rep_cong [of "s_run s"]) (use assms in \<open>auto simp: queues_def\<close>)
  ultimately show ?thesis
    using assms by (auto simp: queues_def list_node_new_def)
qed

definition forked :: "nat \<Rightarrow> nat \<Rightarrow> int \<Rightarrow> u32 \<Rightarrow> posix_session \<Rightarrow> sched \<Rightarrow> sched" where
  "forked p mem pid d se s = place_thread mem d (new_thread p mem (register_process p pid d se s))"

lemma forked_ok:
  assumes "sched_ok s R W" "mem \<notin> set R \<union> set W" "\<not> ln_linked (s_pnode s p)"
  shows "sched_ok (forked p mem pid d se s) R W"
proof -
  have q: "queues (forked p mem pid d se s) R W"
    using queues_fresh_node [of s R W mem "forked p mem pid d se s"] assms(1,2) by (simp add: sched_ok_def forked_def)
  obtain C where C: "dlist_rep (s_pnode s, s_cleanup s) C"
    using assms(1) by (auto simp: sched_ok_def)
  then have "dlist_rep ((s_pnode s)(p := list_node_new), s_cleanup s) C"
    by (rule dlist_rep_cong) (use C assms(3) dseg_linked in \<open>fastforce simp: dlist_rep_def\<close>)
  moreover have "\<forall>t\<in>set R \<union> set W. t_state (s_thread (forked p mem pid d se s) t) = t_state (s_thread s t)"
  proof
    fix t
    assume "t \<in> set R \<union> set W"
    then have "t \<noteq> mem"
      using assms(2) by blast
    then show "t_state (s_thread (forked p mem pid d se s) t) = t_state (s_thread s t)"
      by (simp add: forked_def)
  qed
  moreover have "s_idle (forked p mem pid d se s) = s_idle s" "s_cleanup (forked p mem pid d se s) = s_cleanup s"
    "s_pnode (forked p mem pid d se s) = (s_pnode s)(p := list_node_new)"
    by (simp_all add: forked_def)
  ultimately show ?thesis
    using q assms(1) unfolding sched_ok_def by (metis UnI1 UnI2)
qed

lemma fork_sync:
  assumes "running s c" "clone_current (s_vm s) = Inr (d, vm)" "new_pid s = Inr pid"
  shows "\<exists>s1. fork p mem s = bind_result (make_ready mem (place_thread mem d (new_thread p mem s1)))
      (\<lambda>s. Inr (p_pid (s_proc s p), thread_update mem (\<lambda>th. th\<lparr>t_resume := InFork\<rparr>) s))
    \<and> (\<exists>l. s1 = relock l (s_ints s) (register_process p pid d (p_session (s_proc s (t_process (s_thread s c)))) (s\<lparr>s_vm := vm\<rparr>)) \<and> lock_free l)"
proof -
  define F where "F = (\<lambda>s. bind_result (clone_current (s_vm s)) (\<lambda>(directory, vm).
      let s = s\<lparr>s_vm := vm\<rparr> in bind_result (new_pid s) (\<lambda>pid. bind_result (cur_process s) (\<lambda>cp.
        Inr (directory, register_process p pid directory (p_session (s_proc s cp)) s)))))"
  let ?r = "register_process p pid d (p_session (s_proc s (t_process (s_thread s c)))) (s\<lparr>s_vm := vm\<rparr>)"
  have n: "new_pid ((relock l i s)\<lparr>s_vm := vm\<rparr>) = Inr pid" for l i
    using assms(3) by (simp add: new_pid_def)
  have b: "F (relock l i s) = Inr (d, relock l i ?r)" for l i
    using assms(1,2) n [of l i] by (simp add: F_def cur_process_def running_def) (simp add: register_process_def relock_def)
  have "\<exists>l i. sync F s = Inr (d, relock l i ?r) \<and> lock_free l \<and> i \<in> {s_ints s}"
    by (rule sync_free [where c = c]) (use assms(1) b in \<open>auto simp: running_def\<close>)
  then obtain l where l: "sync F s = Inr (d, relock l (s_ints s) ?r)" "lock_free l"
    by auto
  have "fork p mem s = bind_result (sync F s) (\<lambda>(directory, s).
    let s = place_thread mem directory (new_thread p mem s) in
    bind_result (make_ready mem s) (\<lambda>s. Inr (p_pid (s_proc s p), thread_update mem (\<lambda>th. th\<lparr>t_resume := InFork\<rparr>) s)))"
    unfolding fork_def F_def ..
  then show ?thesis
    using l by (auto simp: Let_def)
qed

lemma fork_run:
  assumes "running s c" "sched_ok s R W" "clone_current (s_vm s) = Inr (d, vm)" "new_pid s = Inr pid"
    and fresh: "mem \<notin> set R \<union> set W" "s_idle s \<noteq> Some mem" "mem \<noteq> c" "\<not> ln_linked (s_pnode s p)"
  shows "\<exists>s'. fork p mem s = Inr (pid, s') \<and> running s' c \<and> sched_ok s' (mem # R) W
    \<and> t_state (s_thread s' mem) = eReady \<and> t_process (s_thread s' mem) = p \<and> t_directory (s_thread s' mem) = d
    \<and> s_processes s' = (s_processes s)(nat pid := Some p) \<and> s_vm s' = vm
    \<and> (\<forall>u. u \<noteq> mem \<longrightarrow> t_state (s_thread s' u) = t_state (s_thread s u) \<and> t_process (s_thread s' u) = t_process (s_thread s u))
    \<and> (\<forall>q. q \<noteq> p \<longrightarrow> s_proc s' q = s_proc s q) \<and> s_idle s' = s_idle s
    \<and> s_proc s' p = (process_new pid (p_session (s_proc s (t_process (s_thread s c)))) (s_proc s p))\<lparr>p_directory := d, p_thread_ids := 1\<rparr>"
proof -
  let ?se = "p_session (s_proc s (t_process (s_thread s c)))" and ?v = "s\<lparr>s_vm := vm\<rparr>"
  obtain l where l: "lock_free l" and fk: "fork p mem s = bind_result
      (make_ready mem (place_thread mem d (new_thread p mem (relock l (s_ints s) (register_process p pid d ?se ?v)))))
      (\<lambda>s. Inr (p_pid (s_proc s p), thread_update mem (\<lambda>th. th\<lparr>t_resume := InFork\<rparr>) s))"
    using fork_sync [OF assms(1,3,4), of p mem] by blast
  let ?f = "forked p mem pid d ?se ?v"
  have f: "place_thread mem d (new_thread p mem (relock l (s_ints s) (register_process p pid d ?se ?v))) = relock l (s_ints s) ?f"
    by (simp add: forked_def place_thread_def new_thread_def Let_def thread_update_def proc_update_def relock_def)
  have okv: "sched_ok ?v R W"
    using assms(2) by (simp add: sched_ok_def queues_def)
  have ok: "sched_ok (relock l (s_ints s) ?f) R W" "running (relock l (s_ints s) ?f) c" "s_idle (relock l (s_ints s) ?f) \<noteq> Some mem"
    using forked_ok [OF okv fresh(1), of p] fresh(2,4) assms(1) l by (simp_all add: running_def forked_def)
  obtain l2 where l2: "lock_free l2" "make_ready mem (relock l (s_ints s) ?f) = Inr (relock l2 (s_ints s) (on_ready (list_prepend mem) (set_state mem eReady (relock l (s_ints s) ?f))))"
    using make_ready_free [of "relock l (s_ints s) ?f" c mem] ok(2) by (auto simp: running_def)
  obtain s3 where s3: "make_ready mem (relock l (s_ints s) ?f) = Inr s3" "sched_ok s3 (mem # R) W" "running s3 c"
    using make_ready_unlinked [OF ok(2,1) fresh(1) ok(3)] by blast
  then have s3': "s3 = relock l2 (s_ints s) (on_ready (list_prepend mem) (set_state mem eReady (relock l (s_ints s) ?f)))"
    using l2(2) by simp
  define s' where "s' = thread_update mem (\<lambda>th. th\<lparr>t_resume := InFork\<rparr>) s3"
  have keep: "sched_ok s' (mem # R) W" "running s' c"
    using s3(2,3) by (simp_all add: s'_def sched_ok_def queues_def thread_update_def running_def)
  have proc: "s_proc s' p = (process_new pid ?se (s_proc s p))\<lparr>p_directory := d, p_thread_ids := 1\<rparr>"
    by (simp add: s'_def s3' thread_update_def forked_def process_new_def)
  have "fork p mem s = Inr (pid, s')"
    using fk s3(1) proc unfolding f by (simp add: s'_def process_new_def) (simp add: thread_update_def process_new_def)
  then show ?thesis
    using keep proc
    by (intro exI [of _ s']) (simp add: s'_def s3' thread_update_def set_state_def forked_def place_thread_def)
qed

text \<open>
  C32: \<^verbatim>\<open>fork\<close> gives the child the lowest free process number and makes its thread ready, first in the
  queue, in the cloned address space; no other thread changes state.  The child starts with
  no open files and no memory mappings, whatever the parent had.
\<close>

theorem fork_child:
  assumes "running s c" and "sched_ok s R W" and "clone_current (s_vm s) = Inr (d, vm)" and "new_pid s = Inr pid"
    and "mem \<notin> set R \<union> set W" and "s_idle s \<noteq> Some mem" and "mem \<noteq> c" and "\<not> ln_linked (s_pnode s p)"
  shows "\<exists>s'. fork p mem s = Inr (pid, s') \<and> running s' c \<and> sched_ok s' (mem # R) W
    \<and> t_directory (s_thread s' mem) = d \<and> s_vm s' = vm
    \<and> s_processes s (nat pid) = None \<and> (\<forall>i<nat pid. s_processes s i \<noteq> None) \<and> s_processes s' (nat pid) = Some p
    \<and> (\<forall>u. u \<noteq> mem \<longrightarrow> t_state (s_thread s' u) = t_state (s_thread s u))
    \<and> (\<forall>fd. get_file fd (s_proc s' p) = None) \<and> p_mmaps (s_proc s' p) = []"
proof -
  obtain s' where "fork p mem s = Inr (pid, s')" "running s' c" "sched_ok s' (mem # R) W" "t_directory (s_thread s' mem) = d"
    "s_processes s' = (s_processes s)(nat pid := Some p)" "s_vm s' = vm"
    "\<forall>u. u \<noteq> mem \<longrightarrow> t_state (s_thread s' u) = t_state (s_thread s u) \<and> t_process (s_thread s' u) = t_process (s_thread s u)"
    "s_proc s' p = (process_new pid (p_session (s_proc s (t_process (s_thread s c)))) (s_proc s p))\<lparr>p_directory := d, p_thread_ids := 1\<rparr>"
    using fork_run [OF assms] by blast
  then show ?thesis
    using new_pid_free [OF assms(4)] by (intro exI [of _ s']) (simp add: get_file_def process_new_def)
qed

theorem fork_child_witness:
  "\<exists>s'. fork 2 4 demo_sched = Inr (2, s') \<and> sched_ok s' [4, 2, 1] [3] \<and> t_directory (s_thread s' 4) = 0x4000"
proof -
  have v: "s_vm demo_sched = demo_vm" "s_processes demo_sched = (\<lambda>p. if p < 2 then Some p else None)"
    by (simp_all add: demo_sched_def) (simp_all add: demo_base_def)
  obtain vm where c: "clone_current (s_vm demo_sched) = Inr (0x4000, vm)"
    using demo_clone by (auto simp: clone_current_def v) (simp add: demo_vm_def)
  have "find (\<lambda>i. s_processes demo_sched i = None) [0..<cMaxProcesses] = Some 2"
    by (rule find_upt_first) (auto simp: v cMaxProcesses_def)
  then have n: "new_pid demo_sched = Inr 2"
    by (simp add: new_pid_def)
  have "\<not> ln_linked (s_pnode demo_sched 2)"
    by (simp add: demo_sched_fields) (simp add: demo_base_def list_node_new_def)
  then show ?thesis
    using fork_child [OF demo_sched_ok(2,1) c n, of 4 2] by (auto simp: demo_sched_fields)
qed

subsection \<open>All schedules\<close>

text \<open>
  The steps of the kernel with one wait queue.  The guards are the order in which a thread runs its own
  code: it enters the wait queue between \<^verbatim>\<open>start_io\<close> and \<^verbatim>\<open>io_wait\<close>, and does nothing else in
  between; ticks and wakeups come at any time.  A process that exits has no other thread.
\<close>

inductive kstep :: "nat list \<times> sched \<Rightarrow> nat list \<times> sched \<Rightarrow> bool" where
  k_yield: "yield s = Inr s' \<Longrightarrow> kstep (q, s) (q, s')"
| k_tick: "s_ticks s + 1 > s_ticks s \<Longrightarrow> timer_handle s = Inr s' \<Longrightarrow> kstep (q, s) (q, s')"
| k_idle: "on_idle s = Inr s' \<Longrightarrow> kstep (q, s) (q, s')"
| k_sleep: "s_current s = Some c \<Longrightarrow> t_state (s_thread s c) = eReady \<Longrightarrow> sched_sleep secs s = Inr s' \<Longrightarrow> kstep (q, s) (q, s')"
| k_exit: "s_current s = Some c \<Longrightarrow> t_state (s_thread s c) = eReady \<Longrightarrow>
    p_threads (s_proc s (t_process (s_thread s c))) \<in> {[], [c]} \<Longrightarrow> sched_exit code s = Inr s' \<Longrightarrow> kstep (q, s) (q, s')"
| k_start_io: "not_idle s = Inr () \<Longrightarrow> s_current s = Some c \<Longrightarrow> t_state (s_thread s c) = eReady \<Longrightarrow> start_io s = Inr s' \<Longrightarrow> kstep (q, s) (q, s')"
| k_append: "s_current s = Some c \<Longrightarrow> t_state (s_thread s c) = eIOPending \<Longrightarrow> c \<notin> set q \<Longrightarrow> wq_append (q, s) = Inr qs' \<Longrightarrow> kstep (q, s) qs'"
| k_io_wait: "s_current s = Some c \<Longrightarrow> c \<in> set q \<or> t_state (s_thread s c) = eReady \<Longrightarrow> io_wait s = Inr s' \<Longrightarrow> kstep (q, s) (q, s')"
| k_wake: "wq_wake (q, s) = Inr (b, qs') \<Longrightarrow> kstep (q, s) qs'"
| k_fork: "fork p mem s = Inr (pid, s') \<Longrightarrow> \<not> ln_linked (s_run s mem) \<Longrightarrow> s_idle s \<noteq> Some mem \<Longrightarrow> s_current s \<noteq> Some mem \<Longrightarrow>
    t_state (s_thread s mem) \<noteq> eIOWait \<Longrightarrow> mem \<notin> set q \<Longrightarrow> \<not> ln_linked (s_pnode s p) \<Longrightarrow>
    p \<notin> range (\<lambda>t. t_process (s_thread s t)) \<Longrightarrow> kstep (q, s) (q, s')"

text \<open>
  The invariant: the queues are sound, the running thread is ready or idle, and a thread blocked on I/O is on the
  wait queue and in no other.
\<close>

definition kinv_at :: "nat list \<Rightarrow> sched \<Rightarrow> nat list \<Rightarrow> nat list \<Rightarrow> nat \<Rightarrow> nat \<Rightarrow> bool" where
  "kinv_at q s R W c i \<longleftrightarrow> sched_ok s R W \<and> running s c \<and> (c \<in> set R \<or> c = i) \<and> s_idle s = Some i
     \<and> p_pid (s_proc s (t_process (s_thread s i))) = 0 \<and> t_state (s_thread s i) \<notin> {eIOPending, eIOWait}
     \<and> (\<forall>t\<in>set q. t_state (s_thread s t) = eIOWait \<or> t_state (s_thread s t) = eIOPending \<and> t \<in> set R)
     \<and> distinct q
     \<and> (\<forall>t. t_state (s_thread s t) = eIOWait \<longrightarrow> t \<in> set q \<and> t \<notin> set R \<union> set W)"

definition kinv :: "nat list \<times> sched \<Rightarrow> bool" where
  "kinv = (\<lambda>(q, s). \<exists>R W c i. kinv_at q s R W c i)"

lemma kinv_atD:
  assumes "kinv_at q s R W c i"
  shows "sched_ok s R W" "running s c" "c \<in> set R \<or> c = i" "s_idle s = Some i" "distinct q"
    "p_pid (s_proc s (t_process (s_thread s i))) = 0" "t_state (s_thread s i) \<notin> {eIOPending, eIOWait}"
    "t \<in> set q \<Longrightarrow> t_state (s_thread s t) = eIOWait \<or> t_state (s_thread s t) = eIOPending \<and> t \<in> set R"
    "t_state (s_thread s t) = eIOWait \<Longrightarrow> t \<in> set q \<and> t \<notin> set R \<union> set W"
  using assms unfolding kinv_at_def by simp_all

lemma kinvI: "kinv_at q s R W c i \<Longrightarrow> kinv (q, s)"
  by (auto simp: kinv_def)

lemma kinvE: "kinv (q, s) \<Longrightarrow> (\<And>R W c i. kinv_at q s R W c i \<Longrightarrow> thesis) \<Longrightarrow> thesis"
  by (auto simp: kinv_def)

text \<open>A step that leaves the states of all threads on I/O alone.\<close>

lemma kinv_same:
  assumes k: "kinv_at q s R W c i"
    and s': "sched_ok s' R' W'" "running s' d" "d \<in> set R' \<or> d = i" "same_but X s s'"
    and X: "\<And>u. u \<in> X \<Longrightarrow> t_state (s_thread s u) \<notin> {eIOPending, eIOWait} \<and> t_state (s_thread s' u) \<notin> {eIOPending, eIOWait}"
    and sub: "\<And>u. u \<in> set R \<Longrightarrow> u \<notin> X \<Longrightarrow> u \<in> set R'" "\<And>u. u \<in> set R' \<union> set W' \<Longrightarrow> u \<in> X \<or> u \<in> set R \<union> set W"
  shows "kinv (q, s')"
proof (rule kinvI [of q s' R' W' d i], unfold kinv_at_def, intro conjI ballI allI impI)
  show "sched_ok s' R' W'" "running s' d" "d \<in> set R' \<or> d = i"
    by fact+
  show "s_idle s' = Some i" "p_pid (s_proc s' (t_process (s_thread s' i))) = 0" "distinct q"
    using kinv_atD(4-6) [OF k] s'(4) by (simp_all add: same_but_def)
  show "t_state (s_thread s' i) \<notin> {eIOPending, eIOWait}"
    using kinv_atD(7) [OF k] s'(4) X by (cases "i \<in> X") (auto simp: same_but_def)
  show "t_state (s_thread s' t) = eIOWait \<or> t_state (s_thread s' t) = eIOPending \<and> t \<in> set R'" if "t \<in> set q" for t
  proof -
    have "t \<notin> X"
      using kinv_atD(8) [OF k that] X by auto
    then show ?thesis
      using kinv_atD(8) [OF k that] s'(4) sub(1) by (auto simp: same_but_def)
  qed
  show "t \<in> set q" "t \<notin> set R' \<union> set W'" if "t_state (s_thread s' t) = eIOWait" for t
  proof -
    have t: "t \<notin> X"
      using that X by auto
    then have "t_state (s_thread s t) = eIOWait"
      using that s'(4) by (simp add: same_but_def)
    then show "t \<in> set q" "t \<notin> set R' \<union> set W'"
      using kinv_atD(9) [OF k] t sub(2) by blast+
  qed
qed

lemma ticked_same_but: "ticked s s' \<Longrightarrow> same_but {u. t_state (s_thread s u) = eWaiting} s s'"
  unfolding ticked_def same_but_def by simp blast

lemma not_idle_pid:
  "not_idle s = Inr () \<Longrightarrow> s_current s = Some c \<Longrightarrow> p_pid (s_proc s (t_process (s_thread s c))) \<noteq> 0"
  by (auto simp: not_idle_def getpid_def cur_process_def assert_that_def split: if_splits)

lemma kinv_yield:
  assumes "kinv (q, s)" "yield s = Inr s'"
  shows "kinv (q, s')"
proof -
  obtain R W c i where k: "kinv_at q s R W c i"
    using assms(1) by (rule kinvE)
  obtain d where sw: "running s' d" "next_up s R d" "same_work s s'" "sched_ok s' (after_switch c R) W"
    using switch_ok [OF kinv_atD(2,1) [OF k]] assms(2) unfolding next_up_def yield_def by force
  show ?thesis
    by (rule kinv_same [OF k sw(4,1) _ same_but_work [OF sw(3), of "{}"]])
      (use next_upD [OF sw(2)] kinv_atD(4) [OF k] in auto)
qed

lemma kinv_idle:
  assumes "kinv (q, s)" "on_idle s = Inr s'"
  shows "kinv (q, s')"
proof -
  obtain R W c i where k: "kinv_at q s R W c i"
    using assms(1) by (rule kinvE)
  obtain C where "dlist_rep (s_pnode s, s_cleanup s) C"
    using kinv_atD(1) [OF k] by (auto simp: sched_ok_def)
  then obtain d where sw: "running s' d" "next_up s R d" "sched_ok s' (after_switch c R) W" "same_but {} s s'"
    using on_idle_run [OF kinv_atD(2,1) [OF k]] assms(2) by force
  show ?thesis
    by (rule kinv_same [OF k sw(3,1) _ sw(4)]) (use next_upD [OF sw(2)] kinv_atD(4) [OF k] in auto)
qed

lemma kinv_tick:
  assumes "kinv (q, s)" "timer_handle s = Inr s'"
  shows "kinv (q, s')"
proof -
  let ?s = "s\<lparr>s_ticks := s_ticks s + 1\<rparr>"
  obtain R W c i where k: "kinv_at q s R W c i"
    using assms(1) by (rule kinvE)
  have pre: "running ?s c" "sched_ok ?s R W"
    using kinv_atD(1,2) [OF k] by (simp_all add: running_def sched_ok_def queues_def)
  obtain R' where o: "sched_ok s' R' (filter (\<lambda>t. \<not> alarm_expired ?s t) W)"
    "set R' = set R \<union> {t \<in> set W. alarm_expired ?s t}" "running s' (last (c # filter (alarm_expired ?s) W))" "ticked ?s s'"
    using on_tick_run [OF pre] assms(2) unfolding timer_handle_def by force
  have t: "same_but {u. t_state (s_thread s u) = eWaiting} s s'"
    using ticked_same_but [OF o(4)] by (simp add: same_but_def)
  have w: "t_state (s_thread s' u) \<in> {eWaiting, eReady}" if "t_state (s_thread s u) = eWaiting" for u
  proof -
    have "t_state (s_thread s' u) = t_state (s_thread ?s u) \<or> t_state (s_thread ?s u) = eWaiting \<and> t_state (s_thread s' u) = eReady"
      using o(4) unfolding ticked_def by blast
    then show ?thesis
      using that by auto
  qed
  have run: "last (c # filter (alarm_expired ?s) W) \<in> set R' \<or> last (c # filter (alarm_expired ?s) W) = i"
  proof (cases "filter (alarm_expired ?s) W = []")
    case True
    then show ?thesis
      using kinv_atD(3) [OF k] o(2) by auto
  next
    case False
    then have "last (filter (alarm_expired ?s) W) \<in> set (filter (alarm_expired ?s) W)"
      by (rule last_in_set)
    then show ?thesis
      using False o(2) by auto
  qed
  have sub: "u \<in> set R \<union> set W" if "u \<in> set R' \<union> set (filter (\<lambda>t. \<not> alarm_expired ?s t) W)" for u
    using that o(2) by auto
  show ?thesis
  proof (rule kinv_same [OF k o(1,3) run t])
    show "u \<in> set R'" if "u \<in> set R" for u
      using that o(2) by blast
    show "t_state (s_thread s u) \<notin> {eIOPending, eIOWait} \<and> t_state (s_thread s' u) \<notin> {eIOPending, eIOWait}"
      if "u \<in> {u. t_state (s_thread s u) = eWaiting}" for u
      using that w [of u] by auto
  qed (use sub in blast)
qed

lemma kinv_sleep:
  assumes "kinv (q, s)" "s_current s = Some c" "t_state (s_thread s c) = eReady" "sched_sleep secs s = Inr s'"
  shows "kinv (q, s')"
proof -
  obtain R W c' i where k': "kinv_at q s R W c' i"
    using assms(1) by (rule kinvE)
  then have k: "kinv_at q s R W c i"
    using kinv_atD(2) [OF k'] assms(2) by (simp add: running_def)
  have pid: "p_pid (s_proc s (t_process (s_thread s c))) \<noteq> 0"
    using assms(4) not_idle_pid [OF _ assms(2)] by (auto simp: sched_sleep_def result_simps)
  then obtain xs ys where R: "R = xs @ c # ys"
    using kinv_atD(3,6) [OF k] by (metis split_list)
  obtain d where sl: "running s' d" "next_up s (xs @ ys) d" "sched_ok s' (after_switch c (xs @ ys)) (c # W)" "same_but {c} s s'"
    using sleep_run [OF kinv_atD(2) [OF k] _ pid, of xs ys W secs] kinv_atD(1) [OF k] R assms(4) unfolding next_up_def by force
  have st: "t_state (s_thread s' c) = eWaiting"
    using sl(3) by (simp add: sched_ok_def)
  show ?thesis
    by (rule kinv_same [OF k sl(3,1) _ sl(4)]) (use next_upD [OF sl(2)] kinv_atD(4) [OF k] st assms(3) R in auto)
qed

lemma retired_same:
  "same_but {c} s (retired c code s)"
  by (simp add: same_but_def retired_def Let_def)

lemma kinv_exit:
  assumes "kinv (q, s)" "s_current s = Some c" "t_state (s_thread s c) = eReady"
    "p_threads (s_proc s (t_process (s_thread s c))) \<in> {[], [c]}" "sched_exit code s = Inr s'"
  shows "kinv (q, s')"
proof -
  obtain R W c' i where k': "kinv_at q s R W c' i"
    using assms(1) by (rule kinvE)
  then have k: "kinv_at q s R W c i"
    using kinv_atD(2) [OF k'] assms(2) by (simp add: running_def)
  have pid: "p_pid (s_proc s (t_process (s_thread s c))) \<noteq> 0"
    using assms(5) not_idle_pid [OF _ assms(2)] by (auto simp: sched_exit_def result_simps)
  then obtain xs ys where R: "R = xs @ c # ys"
    using kinv_atD(3,6) [OF k] by (metis split_list)
  obtain d where sl: "running s' d" "next_up s (xs @ ys) d" "sched_ok s' (after_switch c (xs @ ys)) W" "same_work (retired c code s) s'"
    using exit_run [OF kinv_atD(2) [OF k] _ pid assms(4), of xs ys W code] kinv_atD(1) [OF k] R assms(5) by force
  have sb: "same_but {c} s s'"
    by (rule same_but_trans [OF retired_same same_but_work [OF sl(4)]])
  have st: "t_state (s_thread s' c) \<in> {eReady, eDead}"
    using sl(4) assms(3) by (simp add: same_work_def retired_def Let_def)
  show ?thesis
    by (rule kinv_same [OF k sl(3,1) _ sb]) (use next_upD [OF sl(2)] kinv_atD(4) [OF k] st assms(3) R in auto)
qed

lemma kinv_current: "kinv_at q s R W c i \<Longrightarrow> s_current s = Some c' \<Longrightarrow> c' = c"
  by (simp add: kinv_at_def running_def)

lemma kinv_user:
  assumes "kinv_at q s R W c i" "p_pid (s_proc s (t_process (s_thread s c))) \<noteq> 0"
  shows "c \<in> set R" "c \<noteq> i"
  using kinv_atD(3,6) [OF assms(1)] assms(2) by auto

lemma kinv_start_io:
  assumes "kinv (q, s)" "not_idle s = Inr ()" "s_current s = Some c" "t_state (s_thread s c) = eReady" "start_io s = Inr s'"
  shows "kinv (q, s')"
proof -
  obtain R W i where k: "kinv_at q s R W c i"
    using assms(1,3) kinvE kinv_current by metis
  have c: "c \<in> set R" "c \<noteq> i"
    using kinv_user [OF k not_idle_pid [OF assms(2,3)]] by auto
  obtain l where s': "s' = relock l (s_ints s) (set_state c eIOPending s)" "lock_free l"
    using start_io_run [OF kinv_atD(2) [OF k]] assms(5) by auto
  have "sched_ok s' R W"
    using sched_ok_state [OF kinv_atD(1) [OF k] c(1)] by (simp add: s'(1))
  moreover have "c \<notin> set q"
    using kinv_atD(8) [OF k, of c] assms(4) by auto
  ultimately have "kinv_at q s' R W c i"
    using k c s'(2) by (auto simp: kinv_at_def s'(1) running_def)
  then show ?thesis
    by (rule kinvI)
qed

lemma kinv_append:
  assumes "kinv (q, s)" "s_current s = Some c" "t_state (s_thread s c) = eIOPending" "c \<notin> set q" "wq_append (q, s) = Inr qs'"
  shows "kinv qs'"
proof -
  obtain R W i where k: "kinv_at q s R W c i"
    using assms(1,2) kinvE kinv_current by metis
  have "qs' = (q @ [c], s)"
    using assms(2,5) by (simp add: wq_append_def with_current_def)
  moreover have "c \<in> set R"
    using kinv_atD(3,7) [OF k] assms(3) by auto
  then have "kinv_at (q @ [c]) s R W c i"
    using k assms(3,4) by (auto simp: kinv_at_def)
  ultimately show ?thesis
    using kinvI by blast
qed

lemma kinv_io_wait:
  assumes "kinv (q, s)" "s_current s = Some c" "c \<in> set q \<or> t_state (s_thread s c) = eReady" "io_wait s = Inr s'"
  shows "kinv (q, s')"
proof -
  obtain R W i where k: "kinv_at q s R W c i"
    using assms(1,2) kinvE kinv_current by metis
  have pid: "p_pid (s_proc s (t_process (s_thread s c))) \<noteq> 0"
    using assms(4) not_idle_pid [OF _ assms(2)] by (auto simp: io_wait_def result_simps)
  note c = kinv_user [OF k pid]
  show ?thesis
  proof (cases "t_state (s_thread s c) = eIOPending")
    case False
    obtain l where s': "s' = relock l (s_ints s) (s\<lparr>s_fast_io := s_fast_io s + 1\<rparr>)" "lock_free l"
      using io_wait_fast [OF kinv_atD(2) [OF k] pid False] assms(4) by auto
    have "kinv_at q s' R W c i"
      using k s'(2) by (auto simp: kinv_at_def s'(1) running_def sched_ok_def queues_def)
    then show ?thesis
      by (rule kinvI)
  next
    case True
    then have cq: "c \<in> set q"
      using assms(3) by simp
    obtain xs ys where R: "R = xs @ c # ys"
      using c(1) by (meson split_list)
    obtain d where s': "running s' d" "next_up s (xs @ ys) d" "same_work (blocked c s) s'" "sched_ok s' (after_switch c (xs @ ys)) W"
      using io_wait_slow [OF kinv_atD(2) [OF k] pid True, of xs ys W] kinv_atD(1) [OF k] R assms(4) by force
    have st: "t_state (s_thread s' u) = (if u = c then eIOWait else t_state (s_thread s u))"
      "t_process (s_thread s' u) = t_process (s_thread s u)" for u
      using s'(3) by (simp_all add: same_work_def)
    have id: "s_idle s' = s_idle s" "s_proc s' = s_proc s"
      using s'(3) by (simp_all add: same_work_def)
    have cn: "c \<notin> set xs \<union> set ys \<union> set W"
      using kinv_atD(1) [OF k] R by (auto simp: sched_ok_def queues_def dlist_rep_def)
    have "d \<in> set (xs @ ys) \<or> d = i"
      using next_upD [OF s'(2)] kinv_atD(4) [OF k] by auto
    then have "kinv_at q s' (after_switch c (xs @ ys)) W d i"
      using k s'(1,4) st id cq c(2) cn unfolding kinv_at_def R by auto
    then show ?thesis
      by (rule kinvI)
  qed
qed

lemma kinv_wake:
  assumes "kinv (q, s)" "wq_wake (q, s) = Inr (b, qs')"
  shows "kinv qs'"
proof -
  obtain R W c i where k: "kinv_at q s R W c i"
    using assms(1) by (rule kinvE)
  show ?thesis
  proof (cases q)
    case Nil
    then show ?thesis
      using assms by (simp add: wq_wake_def)
  next
    case (Cons t q')
    then obtain s' where s': "make_ready t s = Inr s'" "qs' = (q', s')"
      using assms(2) by (auto simp: wq_wake_def result_simps)
    have d: "t \<notin> set q'" "distinct q'"
      using kinv_atD(5) [OF k] Cons by auto
    have ti: "t \<noteq> i"
      using kinv_atD(7) [OF k] kinv_atD(8) [OF k, of t] Cons by auto
    show ?thesis
    proof (cases "t_state (s_thread s t) = eIOWait")
      case True
      then have "t \<notin> set R \<union> set W"
        using kinv_atD(9) [OF k] by blast
      then obtain f: "sched_ok s' (t # R) W" "running s' c" "t_state (s_thread s' t) = eReady" "s_proc s' = s_proc s"
        "\<forall>u. t_process (s_thread s' u) = t_process (s_thread s u)"
        "\<forall>u. u \<noteq> t \<longrightarrow> t_state (s_thread s' u) = t_state (s_thread s u)" "s_idle s' = s_idle s"
        using make_ready_unlinked [OF kinv_atD(2,1) [OF k], of t] ti kinv_atD(4) [OF k] s'(1) by auto
      have st: "t_state (s_thread s' u) = (if u = t then eReady else t_state (s_thread s u))" for u
        using f(3,6) by simp
      have "kinv_at q' s' (t # R) W c i"
        using k d ti Cons f(1,2,4,5,7) by (auto simp: kinv_at_def st)
      then show ?thesis
        unfolding s'(2) by (rule kinvI)
    next
      case False
      then have tR: "t \<in> set R"
        using kinv_atD(8) [OF k, of t] Cons by auto
      obtain l where l: "s' = relock l (s_ints s) (set_state t eReady s)" "lock_free l"
        using make_ready_linked [OF kinv_atD(2,1) [OF k] tR] s'(1) by auto
      have "sched_ok s' R W"
        using sched_ok_state [OF kinv_atD(1) [OF k] tR, of eReady] by (simp add: l(1))
      then have "kinv_at q' s' R W c i"
        using k d ti Cons l(2) by (auto simp: kinv_at_def l(1) running_def)
      then show ?thesis
        unfolding s'(2) by (rule kinvI)
    qed
  qed
qed

lemma fork_succeeds:
  assumes "running s c" "fork p mem s = Inr r"
  shows "\<exists>d vm pid. clone_current (s_vm s) = Inr (d, vm) \<and> new_pid s = Inr pid"
proof -
  obtain l where "lock (Some c) (s_lock s, s_ints s) = Inr (l, False)"
    using lock_first [of "s_lock s"] assms(1) by (auto simp: running_def)
  moreover have "new_pid (s\<lparr>s_lock := l, s_ints := i, s_vm := vm\<rparr>) = new_pid s" for l i vm
    by (simp add: new_pid_def)
  ultimately show ?thesis
    using assms by (auto simp: fork_def sync_def running_def result_simps Let_def)
qed

lemma kinv_fork:
  assumes "kinv (q, s)" "fork p mem s = Inr (pid, s')" "\<not> ln_linked (s_run s mem)" "s_idle s \<noteq> Some mem" "s_current s \<noteq> Some mem"
    "t_state (s_thread s mem) \<noteq> eIOWait" "mem \<notin> set q" "\<not> ln_linked (s_pnode s p)" "p \<notin> range (\<lambda>t. t_process (s_thread s t))"
  shows "kinv (q, s')"
proof -
  obtain R W c i where k: "kinv_at q s R W c i"
    using assms(1) by (rule kinvE)
  obtain d vm pid' where cl: "clone_current (s_vm s) = Inr (d, vm)" "new_pid s = Inr pid'"
    using fork_succeeds [OF kinv_atD(2) [OF k] assms(2)] by blast
  have m: "mem \<notin> set R \<union> set W" "mem \<noteq> c" "mem \<noteq> i"
    using assms(3-5) kinv_atD(1,2,4) [OF k] queues_linked [of s R W mem] by (auto simp: sched_ok_def running_def)
  obtain f: "running s' c" "sched_ok s' (mem # R) W" "t_state (s_thread s' mem) = eReady" "s_idle s' = s_idle s"
    "\<forall>u. u \<noteq> mem \<longrightarrow> t_state (s_thread s' u) = t_state (s_thread s u) \<and> t_process (s_thread s' u) = t_process (s_thread s u)"
    "\<forall>r. r \<noteq> p \<longrightarrow> s_proc s' r = s_proc s r"
    using fork_run [OF kinv_atD(2,1) [OF k] cl m(1) assms(4) m(2) assms(8)] assms(2) by auto
  have st: "t_state (s_thread s' u) = (if u = mem then eReady else t_state (s_thread s u))" for u
    using f(3,5) by simp
  have "t_process (s_thread s i) \<noteq> p"
    using assms(9) by auto
  then have "s_proc s' (t_process (s_thread s' i)) = s_proc s (t_process (s_thread s i))"
    using f(5,6) m(3) by auto
  then have "kinv_at q s' (mem # R) W c i"
    using k f(1,2,4) m assms(7) by (auto simp: kinv_at_def st)
  then show ?thesis
    by (rule kinvI)
qed

lemma kstep_kinv: "kstep k k' \<Longrightarrow> kinv k \<Longrightarrow> kinv k'"
  by (induction rule: kstep.induct)
    (blast intro: kinv_yield kinv_tick kinv_idle kinv_sleep kinv_exit kinv_start_io kinv_append kinv_io_wait kinv_wake kinv_fork)+

lemma kreach_kinv: "rtranclp kstep k k' \<Longrightarrow> kinv k \<Longrightarrow> kinv k'"
  by (induction rule: rtranclp_induct) (auto intro: kstep_kinv)

text \<open>
  C3: In every state that any interleaving of yields, ticks, sleeps, exits, forks, waits and wakeups can
  reach, both run queues are well-formed and disjoint, the running thread is ready or is the idle
  thread, the idle thread is in no queue, and a thread that is blocked on I/O is on the wait
  queue, exactly once, and in neither run queue: no thread is lost.
\<close>

theorem schedules_safe:
  assumes "kinv k" and "rtranclp kstep k (q, s)"
  shows "\<exists>R W c i. queues s R W \<and> lock_free (s_lock s) \<and> s_current s = Some c \<and> s_idle s = Some i \<and> (c \<in> set R \<or> c = i)
    \<and> i \<notin> set R \<union> set W \<union> set q \<and> distinct q
    \<and> (\<forall>t\<in>set R. t_state (s_thread s t) \<in> {eReady, eIOPending}) \<and> (\<forall>t\<in>set W. t_state (s_thread s t) = eWaiting)
    \<and> (\<forall>t. t_state (s_thread s t) = eIOWait \<longrightarrow> t \<in> set q \<and> t \<notin> set R \<union> set W)
    \<and> (\<forall>t\<in>set q. t_state (s_thread s t) \<in> {eIOPending, eIOWait})"
proof -
  have "kinv (q, s)"
    using kreach_kinv [OF assms(2,1)] .
  then obtain R W c i where k: "kinv_at q s R W c i"
    by (rule kinvE)
  have "i \<notin> set R \<union> set W"
    using kinv_atD(1,4) [OF k] by (auto simp: sched_ok_def)
  moreover have "i \<notin> set q"
    using kinv_atD(7) [OF k] kinv_atD(8) [OF k, of i] by auto
  moreover have "t_state (s_thread s t) \<in> {eIOPending, eIOWait}" if "t \<in> set q" for t
    using kinv_atD(8) [OF k that] by auto
  moreover have "queues s R W" "\<forall>t\<in>set R. t_state (s_thread s t) \<in> {eReady, eIOPending}"
    "\<forall>t\<in>set W. t_state (s_thread s t) = eWaiting" "lock_free (s_lock s)" "s_current s = Some c"
    using kinv_atD(1,2) [OF k] by (simp_all add: sched_ok_def running_def)
  ultimately show ?thesis
    by (intro exI [of _ R] exI [of _ W] exI [of _ c] exI [of _ i] conjI allI impI ballI)
      (use kinv_atD(3-5) [OF k] kinv_atD(9) [OF k] in blast)+
qed

lemma demo_kinv: "kinv ([], demo_sched)"
proof (rule kinvI)
  have "t_state (s_thread demo_sched t) = (if t = 3 then eWaiting else eReady)"
    "p_pid (s_proc demo_sched (t_process (s_thread demo_sched 0))) = 0" for t
    by (simp_all add: demo_sched_fields) (simp_all add: demo_base_def)
  then show "kinv_at [] demo_sched [2, 1] [3] 1 0"
    using demo_sched_ok by (auto simp: kinv_at_def demo_sched_fields)
qed

theorem schedules_safe_witness:
  "\<exists>s1 s2. kstep ([], demo_sched) ([], s1) \<and> kstep ([], s1) ([1], s2) \<and> (\<exists>R W. queues s2 R W \<and> 1 \<notin> set W)"
proof -
  obtain l where l: "start_io demo_sched = Inr (relock l (s_ints demo_sched) (set_state 1 eIOPending demo_sched))"
    using start_io_run [OF demo_sched_ok(2)] by blast
  let ?s = "relock l (s_ints demo_sched) (set_state 1 eIOPending demo_sched)"
  have pid: "not_idle demo_sched = Inr ()"
    using not_idle_run [OF _ demo_sched_pid] by (simp add: demo_sched_fields)
  have "t_state (s_thread demo_sched 1) = eReady"
    by (simp add: demo_sched_fields) (simp add: demo_base_def)
  then have k1: "kstep ([], demo_sched) ([], ?s)"
    using k_start_io [OF pid _ _ l] by (simp add: demo_sched_fields)
  have k2: "kstep ([], ?s) ([1], ?s)"
    by (rule k_append [of _ 1]) (simp_all add: wq_append_def with_current_def demo_sched_fields)
  have "rtranclp kstep ([], demo_sched) ([1], ?s)"
    using k1 k2 by (meson converse_rtranclp_into_rtranclp r_into_rtranclp)
  then have "\<exists>R W. queues ?s R W \<and> (\<forall>t\<in>set W. t_state (s_thread ?s t) = eWaiting)"
    using schedules_safe [OF demo_kinv] by blast
  moreover have "t_state (s_thread ?s 1) \<noteq> eWaiting"
    by simp
  ultimately show ?thesis
    using k1 k2 by blast
qed

end
