(* ===== verification/Rtc.thy ===== *)
theory Rtc
  imports Kernel_Steps
begin

text \<open>
  The clock of \<^verbatim>\<open>rtc.cpp\<close> and the timer interrupt of \<^verbatim>\<open>timer.cpp\<close> that advances it.  The CMOS chip is the
  argument \<open>cmos\<close>: the \<open>k\<close>-th read of register \<open>r\<close> gives \<open>cmos k r\<close>.  The theory also has the calendar
  that \<^verbatim>\<open>init_clock\<close> is compared with.
\<close>

subsection \<open>Definitions\<close>

definition SEC :: nat where "SEC = 0"
definition MINUTE :: nat where "MINUTE = 2"
definition HOUR :: nat where "HOUR = 4"
definition DOM :: nat where "DOM = 7"
definition MON :: nat where "MON = 8"
definition YEAR :: nat where "YEAR = 9"
definition SLICE_US :: u32 where "SLICE_US = 10000"

record cmos_time =
  ct_sec :: u32
  ct_min :: u32
  ct_hour :: u32
  ct_day :: u32
  ct_mon :: u32
  ct_year :: u32

text \<open>The loop that reads the registers until the seconds are the same before and after.\<close>

partial_function (option) cmos_time_loop :: "(nat \<Rightarrow> nat \<Rightarrow> u8) \<Rightarrow> nat \<Rightarrow> cmos_time option" where
  "cmos_time_loop cmos k =
    (let t = \<lparr>ct_sec = ucast (cmos k SEC), ct_min = ucast (cmos (k + 1) MINUTE), ct_hour = ucast (cmos (k + 2) HOUR),
              ct_day = ucast (cmos (k + 3) DOM), ct_mon = ucast (cmos (k + 4) MON), ct_year = ucast (cmos (k + 5) YEAR)\<rparr>
     in if ct_sec t \<noteq> ucast (cmos (k + 6) SEC) then cmos_time_loop cmos (k + 7) else Some t)"

definition BCD_TO_BIN :: "u32 \<Rightarrow> u32" where
  "BCD_TO_BIN val = (val AND 15) + (drop_bit 4 val) * 10"

definition full_year :: "u32 \<Rightarrow> u32" where
  "full_year year = (if year < 30 then year + 2000 else year + 1970)"

text \<open>\<^verbatim>\<open>mon -= 2\<close>, with January and February counted to the year before.\<close>

definition shift_month :: "u32 \<Rightarrow> u32 \<Rightarrow> u32 \<times> u32" where
  "shift_month mon year =
    (let mon = mon - 2 in if 0 \<ge> sint mon then (mon + 12, year - 1) else (mon, year))"

definition clock_year_day :: "u32 \<Rightarrow> u32 \<Rightarrow> u32 \<Rightarrow> u32" where
  "clock_year_day year mon day =
    (year div 4 - year div 100 + year div 400 + 367 * mon div 12 + day) + year * 365 - 719499"

definition clock_epoch :: "cmos_time \<Rightarrow> u32" where
  "clock_epoch t =
    (let sec = BCD_TO_BIN (ct_sec t); min = BCD_TO_BIN (ct_min t); hour = BCD_TO_BIN (ct_hour t);
         day = BCD_TO_BIN (ct_day t); mon = BCD_TO_BIN (ct_mon t); year = full_year (BCD_TO_BIN (ct_year t));
         (mon, year) = shift_month mon year;
         year_day = clock_year_day year mon day
     in sec + 60 * (min + 60 * (hour + 24 * year_day)))"

record wall_clock =
  cur_sec :: u32
  cur_usec :: u32

definition init_clock :: "(nat \<Rightarrow> nat \<Rightarrow> u8) \<Rightarrow> wall_clock option" where
  "init_clock cmos = Option.bind (cmos_time_loop cmos 0) (\<lambda>t. Some \<lparr>cur_sec = clock_epoch t, cur_usec = 0\<rparr>)"

definition update_clock :: "wall_clock \<Rightarrow> wall_clock" where
  "update_clock c = c\<lparr>cur_usec := cur_usec c + SLICE_US\<rparr>"

text \<open>\<^verbatim>\<open>TimerCallback::handle\<close> with the clock.\<close>

definition timer_interrupt :: "wall_clock \<times> sched \<Rightarrow> (wall_clock \<times> sched) result" where
  "timer_interrupt = (\<lambda>(c, s).
    let s = s\<lparr>s_ticks := s_ticks s + 1\<rparr>; c = update_clock c
    in bind_result (on_tick s) (\<lambda>s. Inr (c, s)))"

text \<open>The divisor of the timer chip, and the bytes \<^verbatim>\<open>Timer::init\<close> sends to it.\<close>

definition timer_divisor :: "u32 \<Rightarrow> u32" where
  "timer_divisor frequency = 1193180 div frequency"

definition timer_bytes :: "u32 \<Rightarrow> (nat \<times> u8) list" where
  "timer_bytes frequency =
    (let divisor = timer_divisor frequency
     in [(0x43, 0x36), (0x40, ucast (divisor AND 0xFF)), (0x40, ucast (drop_bit 8 divisor AND 0xFF))])"


subsection \<open>The calendar\<close>

definition leap :: "int \<Rightarrow> bool" where
  "leap y \<longleftrightarrow> y mod 4 = 0 \<and> (y mod 100 \<noteq> 0 \<or> y mod 400 = 0)"

definition month_days :: "int \<Rightarrow> int \<Rightarrow> int" where
  "month_days y m = (if m = 2 then (if leap y then 29 else 28) else if m \<in> {4, 6, 9, 11} then 30 else 31)"

text \<open>Days from 1 January 1970 to day \<open>d\<close> of month \<open>m\<close> of year \<open>y\<close>.\<close>

definition calendar_days :: "int \<Rightarrow> int \<Rightarrow> int \<Rightarrow> int" where
  "calendar_days y m d =
    sum_list (map (\<lambda>y. if leap y then 366 else 365) [1970..y - 1]) + sum_list (map (month_days y) [1..m - 1]) + (d - 1)"

definition calendar_seconds :: "int \<Rightarrow> int \<Rightarrow> int \<Rightarrow> int \<Rightarrow> int \<Rightarrow> int \<Rightarrow> int" where
  "calendar_seconds y m d hh mi ss = ((calendar_days y m d * 24 + hh) * 60 + mi) * 60 + ss"

text \<open>Two decimal digits in a register of the chip.\<close>

definition bcd :: "nat \<Rightarrow> u8" where
  "bcd n = of_nat (16 * (n div 10) + n mod 10)"


subsection \<open>The clock agrees with the calendar\<close>

lemma div_step: "0 < k \<Longrightarrow> (y :: int) div k - (y - 1) div k = (if y mod k = 0 then 1 else 0)"
proof -
  assume k: "0 < k"
  show ?thesis
  proof (cases "y mod k = 0")
    case True
    then obtain q where y: "y = k * q"
      by auto
    have "y - 1 = k * (q - 1) + (k - 1)"
      by (simp add: y algebra_simps)
    then have "(y - 1) div k = q - 1 + (k - 1) div k"
      using k by (metis div_mult_self4 add.commute less_irrefl)
    then show ?thesis
      using True y k by simp
  next
    case False
    have "y - 1 = k * (y div k) + (y mod k - 1)"
      by (simp add: algebra_simps minus_mod_eq_mult_div [symmetric])
    moreover have "0 \<le> y mod k - 1" "y mod k - 1 < k"
      using False k pos_mod_sign [of k y] pos_mod_bound [of k y] by linarith+
    ultimately have "(y - 1) div k = y div k"
      by (metis div_pos_pos_trivial add.right_neutral div_mult_self4 add.commute k less_irrefl)
    then show ?thesis
      using False by simp
  qed
qed

lemma leap_days:
  "(y div 4 - (y - 1) div 4) - (y div 100 - (y - 1) div 100) + (y div 400 - (y - 1) div 400) = (if leap y then 1 else 0 :: int)"
proof -
  have "y mod 400 mod 100 = y mod 100" "y mod 100 mod 4 = y mod 4"
    by (rule mod_mod_cancel, simp)+
  then have m: "y mod 400 = 0 \<Longrightarrow> y mod 100 = 0" "y mod 100 = 0 \<Longrightarrow> y mod 4 = 0"
    by auto
  have i: "(0 :: int) < 4" "(0 :: int) < 100" "(0 :: int) < 400"
    by simp_all
  note d = div_step [OF i(1), of y] div_step [OF i(2), of y] div_step [OF i(3), of y]
  have X: "(if a then 1 else 0) - (if b then 1 else 0) + (if c then 1 else 0) = (if a \<and> (\<not> b \<or> c) then 1 else 0 :: int)"
    if "c \<longrightarrow> b" "b \<longrightarrow> a" for a b c
    using that by (cases a; cases b; cases c) simp_all
  show ?thesis
    unfolding d leap_def by (rule X) (use m in blast)+
qed

text \<open>The days of the years before \<open>y\<close> since year 0, but for a constant.\<close>

definition year_days :: "int \<Rightarrow> int" where
  "year_days y = 365 * y + y div 4 - y div 100 + y div 400"

lemma year_days_step: "year_days y = year_days (y - 1) + (if leap y then 366 else 365)"
proof -
  have "year_days y - year_days (y - 1) = 365 + ((y div 4 - (y - 1) div 4) - (y div 100 - (y - 1) div 100) + (y div 400 - (y - 1) div 400))"
    unfolding year_days_def by (simp only: algebra_simps)
  also have "\<dots> = (if leap y then 366 else 365)"
    unfolding leap_days by simp
  finally show ?thesis
    by linarith
qed

lemma year_sum:
  assumes "1970 \<le> y"
  shows "sum_list (map (\<lambda>y. if leap y then 366 else 365) [1970..y - 1]) = year_days (y - 1) - 719162"
  using assms
proof (induction y rule: int_ge_induct)
  case base
  then show ?case
    by (simp add: year_days_def)
next
  case (step y)
  have "[1970..y + 1 - 1] = [1970..y - 1] @ [y]"
    using step.hyps upto_rec2 [of 1970 y] by simp
  then show ?case
    using step.IH year_days_step [of y] by simp
qed

lemma month_sum:
  assumes "1 \<le> m" "m \<le> 12"
  shows "sum_list (map (month_days y) [1..m - 1])
    = (if m \<le> 2 then 31 * (m - 1) else 367 * (m - 2) div 12 + (if leap y then 30 else 29))"
proof -
  have "m \<in> {1, 2, 3, 4, 5, 6, 7, 8, 9, 10, 11, 12}"
    unfolding insert_iff empty_iff using assms by presburger
  then show ?thesis
    by (elim insertE emptyE) (simp_all add: month_days_def upto_rec1)
qed

text \<open>The formula of \<^verbatim>\<open>init_clock\<close>, in integers.\<close>

definition clock_days :: "int \<Rightarrow> int \<Rightarrow> int \<Rightarrow> int" where
  "clock_days y m d = (let (mm, yy) = (if m \<le> 2 then (m + 10, y - 1) else (m - 2, y))
    in year_days yy + 367 * mm div 12 + d - 719499)"

lemma clock_days_calendar:
  assumes "1970 \<le> y" "1 \<le> m" "m \<le> 12"
  shows "clock_days y m d = calendar_days y m d"
proof (cases "m \<le> 2")
  case True
  then have "m = 1 \<or> m = 2"
    using assms by auto
  then show ?thesis
    using year_sum [OF assms(1)] month_sum [OF assms(2,3), of y] by (auto simp: clock_days_def calendar_days_def)
next
  case False
  then show ?thesis
    using year_sum [OF assms(1)] month_sum [OF assms(2,3), of y] year_days_step [of y]
    by (simp add: clock_days_def calendar_days_def)
qed

lemma bcd_bin: "n < 100 \<Longrightarrow> BCD_TO_BIN (ucast (bcd n)) = of_nat n"
proof -
  assume "n < 100"
  then have "n div 10 < 10" "n mod 10 < 10"
    by auto
  have "list_all (\<lambda>n. BCD_TO_BIN (ucast (bcd n)) = of_nat n) [0..<100]"
    by code_simp
  then show ?thesis
    using \<open>n < 100\<close> by (auto simp: list_all_iff)
qed

lemma of_int_div_u32:
  assumes "0 \<le> a" "a < 2 ^ 32" "0 \<le> b" "b < 2 ^ 32"
  shows "(of_int a :: u32) div of_int b = of_int (a div b)"
  using assms by (simp add: word_div_def uint_word_of_int)

lemma shift_month_int:
  assumes "1 \<le> m" "m \<le> 12"
  shows "shift_month (of_int m) (of_int y) = (if m \<le> 2 then (of_int (m + 10), of_int (y - 1)) else (of_int (m - 2), of_int y))"
proof -
  have "m \<in> {1, 2, 3, 4, 5, 6, 7, 8, 9, 10, 11, 12}"
    unfolding insert_iff empty_iff using assms by presburger
  then show ?thesis
    by (elim insertE emptyE) (simp_all add: shift_month_def Let_def)
qed

lemma clock_year_day_int:
  assumes "0 \<le> y" "y < 3000" "1 \<le> m" "m \<le> 12"
  shows "clock_year_day (of_int y) (of_int m) (of_int d) = of_int (year_days y + 367 * m div 12 + d - 719499)"
proof -
  have d: "(of_int y :: u32) div 4 = of_int (y div 4)" "(of_int y :: u32) div 100 = of_int (y div 100)"
    "(of_int y :: u32) div 400 = of_int (y div 400)" "(of_int (367 * m) :: u32) div 12 = of_int (367 * m div 12)"
    using of_int_div_u32 [of y 4] of_int_div_u32 [of y 100] of_int_div_u32 [of y 400] of_int_div_u32 [of "367 * m" 12] assms
    by simp_all
  have m: "367 * (of_int m :: u32) = of_int (367 * m)"
    by simp
  show ?thesis
    unfolding clock_year_day_def year_days_def m d by simp
qed

lemma year_days_bounds:
  assumes "1999 \<le> y" "y \<le> 2029"
  shows "729635 + 499 - 19 + 4 \<le> year_days y" "year_days y \<le> 740585 + 507 - 19 + 5"
proof -
  have "1999 div 4 \<le> y div 4" "y div 4 \<le> 2029 div 4" "1999 div 100 \<le> y div 100" "y div 100 \<le> 2029 div 100"
    "1999 div 400 \<le> y div 400" "y div 400 \<le> 2029 div 400"
    using assms by (intro zdiv_mono1; simp)+
  then show "729635 + 499 - 19 + 4 \<le> year_days y" "year_days y \<le> 740585 + 507 - 19 + 5"
    using assms unfolding year_days_def by simp_all
qed

lemma clock_days_range:
  assumes "2000 \<le> y" "y \<le> 2029" "1 \<le> m" "m \<le> 12" "1 \<le> d" "d \<le> 31"
  shows "0 \<le> clock_days y m d" "clock_days y m d < 24000"
proof -
  have "0 \<le> 367 * mm div 12" "367 * mm div 12 \<le> 367" if "1 \<le> mm" "mm \<le> 12" for mm :: int
    using that zdiv_mono1 [of 0 "367 * mm" 12] zdiv_mono1 [of "367 * mm" "367 * 12" 12] by simp_all
  from this [of "m + 10"] this [of "m - 2"] show "0 \<le> clock_days y m d" "clock_days y m d < 24000"
    using assms year_days_bounds [of y] year_days_bounds [of "y - 1"] by (auto simp: clock_days_def)
qed

lemma shifted_days:
  assumes "1970 \<le> y" "y < 3000" "1 \<le> m" "m \<le> 12"
  shows "(case shift_month (of_int m) (of_int y) of (mon, year) \<Rightarrow> clock_year_day year mon (of_int d)) = of_int (calendar_days y m d)"
proof (cases "m \<le> 2")
  case True
  have "clock_year_day (of_int (y - 1)) (of_int (m + 10)) (of_int d) = of_int (clock_days y m d)"
    using clock_year_day_int [of "y - 1" "m + 10" d] True assms unfolding clock_days_def if_P [OF True] Let_def prod.case by simp
  then show ?thesis
    unfolding shift_month_int [OF assms(3,4)] if_P [OF True] prod.case clock_days_calendar [OF assms(1,3,4)] .
next
  case False
  have "clock_year_day (of_int y) (of_int (m - 2)) (of_int d) = of_int (clock_days y m d)"
    using clock_year_day_int [of y "m - 2" d] False assms unfolding clock_days_def if_not_P [OF False] Let_def prod.case by simp
  then show ?thesis
    unfolding shift_month_int [OF assms(3,4)] if_not_P [OF False] prod.case clock_days_calendar [OF assms(1,3,4)] .
qed

definition cmos_shows :: "(nat \<Rightarrow> nat \<Rightarrow> u8) \<Rightarrow> nat \<Rightarrow> nat \<Rightarrow> nat \<Rightarrow> nat \<Rightarrow> nat \<Rightarrow> nat \<Rightarrow> bool" where
  "cmos_shows cmos yy m d hh mi ss \<longleftrightarrow> (\<forall>k. cmos k YEAR = bcd yy \<and> cmos k MON = bcd m \<and> cmos k DOM = bcd d
     \<and> cmos k HOUR = bcd hh \<and> cmos k MINUTE = bcd mi \<and> cmos k SEC = bcd ss)"

lemma clock_epoch_seconds:
  assumes "yy < 30" "1 \<le> m" "m \<le> 12" "1 \<le> d" "d \<le> 31" "hh < 24" "mi < 60" "ss < 60"
  shows "clock_epoch \<lparr>ct_sec = ucast (bcd ss), ct_min = ucast (bcd mi), ct_hour = ucast (bcd hh),
      ct_day = ucast (bcd d), ct_mon = ucast (bcd m), ct_year = ucast (bcd yy)\<rparr>
    = of_int (calendar_seconds (2000 + int yy) (int m) (int d) (int hh) (int mi) (int ss))"
proof -
  let ?y = "2000 + int yy"
  have "(of_nat yy :: u32) < 30"
    using assms(1) by (simp add: word_less_nat_alt unat_of_nat_u32)
  then have y: "full_year (of_nat yy) = of_int ?y"
    by (simp add: full_year_def)
  have days: "(case shift_month (of_int (int m)) (of_int ?y) of (mon, year) \<Rightarrow> clock_year_day year mon (of_int (int d)))
      = of_int (calendar_days ?y (int m) (int d))"
    by (rule shifted_days) (use assms in simp_all)
  show ?thesis
    using days assms bcd_bin [of ss] bcd_bin [of mi] bcd_bin [of hh] bcd_bin [of d] bcd_bin [of m] bcd_bin [of yy] y
    by (simp add: clock_epoch_def Let_def calendar_seconds_def split: prod.splits)
qed

text \<open>
  C15: The clock is set right in the years 2000 to 2029: if the CMOS chip shows a date and a time of that range in
  BCD, \<^verbatim>\<open>init_clock\<close> returns with \<^verbatim>\<open>cur_sec\<close> the number of seconds since 1 January 1970 by the
  Gregorian calendar, without wrap-around, and \<^verbatim>\<open>cur_usec\<close> 0.
\<close>

theorem init_clock_epoch:
  assumes "cmos_shows cmos yy m d hh mi ss" and "yy < 30" and "1 \<le> m" and "m \<le> 12" and "1 \<le> d" and "d \<le> 31"
    and "hh < 24" and "mi < 60" and "ss < 60"
  shows "\<exists>c. init_clock cmos = Some c \<and> cur_usec c = 0
    \<and> uint (cur_sec c) = calendar_seconds (2000 + int yy) (int m) (int d) (int hh) (int mi) (int ss)"
proof -
  let ?t = "\<lparr>ct_sec = ucast (bcd ss), ct_min = ucast (bcd mi), ct_hour = ucast (bcd hh),
      ct_day = ucast (bcd d), ct_mon = ucast (bcd m), ct_year = ucast (bcd yy)\<rparr>"
  let ?s = "calendar_seconds (2000 + int yy) (int m) (int d) (int hh) (int mi) (int ss)"
  have "cmos_time_loop cmos 0 = Some ?t"
    using assms(1) by (subst cmos_time_loop.simps) (simp add: cmos_shows_def)
  then have "init_clock cmos = Some \<lparr>cur_sec = of_int ?s, cur_usec = 0\<rparr>"
    using clock_epoch_seconds [OF assms(2-9)] by (simp add: init_clock_def)
  moreover have "0 \<le> ?s" "?s < 2 ^ 32"
    using clock_days_range [of "2000 + int yy" "int m" "int d"] clock_days_calendar [of "2000 + int yy" "int m" "int d"] assms
    by (simp_all add: calendar_seconds_def)
  ultimately show ?thesis
    by (simp add: uint_word_of_int)
qed

theorem init_clock_epoch_witness:
  "\<exists>c. init_clock (\<lambda>k r. bcd (if r = YEAR then 12 else if r = MON then 2 else if r = DOM then 29 else 0)) = Some c
     \<and> uint (cur_sec c) = calendar_seconds 2012 2 29 0 0 0"
  using init_clock_epoch [of "\<lambda>k r. bcd (if r = YEAR then 12 else if r = MON then 2 else if r = DOM then 29 else 0)" 12 2 29 0 0 0]
  by (auto simp: cmos_shows_def YEAR_def MON_def DOM_def HOUR_def MINUTE_def SEC_def)

lemma timer_interrupt_run:
  "timer_interrupt (c, s) = bind_result (timer_handle s) (\<lambda>s. Inr (update_clock c, s))"
  by (simp add: timer_interrupt_def timer_handle_def)

end
