(* ===== verification/Console.thy ===== *)
theory Console
  imports Common_Lib
begin

text \<open>
  The text screen of \<^verbatim>\<open>console.cpp\<close>: the video memory, the cursor, and the printing of numbers and
  formats.  The video memory is a map from the index of a character cell; the cursor registers
  of the display are \<open>con_crtc\<close>.  A variable argument of \<^verbatim>\<open>vprintf\<close> is a value of the type it
  was passed with.
\<close>

subsection \<open>The screen\<close>

record console =
  con_video :: "nat \<Rightarrow> u16"
  con_x :: u8
  con_y :: u8
  con_crtc :: "nat \<Rightarrow> u8"

definition con_loc :: "console \<Rightarrow> nat" where
  "con_loc s = unat (con_y s) * 80 + unat (con_x s)"

definition move_cursor :: "console \<Rightarrow> console" where
  "move_cursor s =
    (let loc = of_nat (con_loc s) :: u16
     in s\<lparr>con_crtc := (con_crtc s)(14 := ucast (drop_bit 8 loc), 15 := ucast loc)\<rparr>)"

definition con_blank :: u16 where "con_blank = 0x20 OR push_bit 8 15"

definition scroll :: "console \<Rightarrow> console" where
  "scroll s =
    (if con_y s \<ge> 25
     then let v = fold (\<lambda>i v. v(i := v (i + 80))) [0..<24 * 80] (con_video s);
              v = fold (\<lambda>i v. v(i := con_blank)) [24 * 80..<25 * 80] v
          in s\<lparr>con_video := v, con_y := 24\<rparr>
     else s)"

definition put_char :: "u8 \<Rightarrow> console \<Rightarrow> console" where
  "put_char c s =
    (if c = 0x08 \<and> con_x s \<noteq> 0 then s\<lparr>con_x := con_x s - 1\<rparr>
     else if c = 0x09 then s\<lparr>con_x := (con_x s + 8) AND NOT 7\<rparr>
     else if c = 0x0D then s\<lparr>con_x := 0\<rparr>
     else if c = 0x0A then s\<lparr>con_x := 0, con_y := con_y s + 1\<rparr>
     else if sint c \<ge> 0x20
     then s\<lparr>con_video := (con_video s)(con_loc s := ucast c OR push_bit 8 15), con_x := con_x s + 1\<rparr>
     else s)"

definition con_put :: "u8 \<Rightarrow> console \<Rightarrow> console" where
  "con_put c s =
    (let s = put_char c s;
         s = (if con_x s \<ge> 80 then s\<lparr>con_x := 0, con_y := con_y s + 1\<rparr> else s)
     in move_cursor (scroll s))"

definition con_setup :: "console \<Rightarrow> console" where
  "con_setup s = move_cursor (s\<lparr>con_x := 0, con_y := 10\<rparr>)"

definition con_clear :: "console \<Rightarrow> console" where
  "con_clear s =
    move_cursor (s\<lparr>con_video := fold (\<lambda>i v. v(i := con_blank)) [0..<80 * 25] (con_video s), con_x := 0, con_y := 0\<rparr>)"

partial_function (option) con_write_from :: "cstr \<Rightarrow> nat \<Rightarrow> console \<Rightarrow> console option" where
  "con_write_from c i s = (if c i \<noteq> 0 then con_write_from c (Suc i) (con_put (c i) s) else Some s)"

definition con_write :: "cstr \<Rightarrow> console \<Rightarrow> console option" where
  "con_write c s = con_write_from c 0 s"


subsection \<open>Numbers\<close>

definition chars :: "string \<Rightarrow> u8 list" where
  "chars s = map (\<lambda>c. of_char c) s"

definition hex_digit :: "u32 \<Rightarrow> u8" where
  "hex_digit tmp = (if tmp \<ge> 0xA then ucast (tmp - 0xA + 0x61) else ucast (tmp + 0x30))"

fun hex_loop :: "u32 \<Rightarrow> nat list \<Rightarrow> bool \<Rightarrow> u8 list" where
  "hex_loop n [] noZeroes = []"
| "hex_loop n (i # is) noZeroes =
    (let tmp = drop_bit i n AND 0xF
     in if tmp = 0 \<and> noZeroes then hex_loop n is noZeroes else hex_digit tmp # hex_loop n is False)"

definition hex_np :: "u32 \<Rightarrow> u8 list" where
  "hex_np n = hex_loop n [28, 24, 20, 16, 12, 8, 4] True @ [hex_digit (n AND 0xF)]"

definition write_hex_np :: "u32 \<Rightarrow> console \<Rightarrow> console" where
  "write_hex_np n = fold con_put (hex_np n)"

definition write_hex :: "u32 \<Rightarrow> console \<Rightarrow> console" where
  "write_hex n = fold con_put (chars ''0x'' @ hex_np n)"

definition write_hex_byte :: "u8 \<Rightarrow> console \<Rightarrow> console" where
  "write_hex_byte byte = fold con_put ((if byte < 0x10 then [0x30] else []) @ hex_np (ucast byte))"

text \<open>The digits of a positive number, last digit first, as they are put into the array \<^verbatim>\<open>c\<close>.\<close>

function dec_loop :: "int \<Rightarrow> u8 list" where
  "dec_loop acc = (if acc > 0 then of_int (0x30 + acc mod 10) # dec_loop (acc div 10) else [])"
  by pat_completeness auto
termination by (relation "measure nat") auto

definition dec_chars :: "'a::len word \<Rightarrow> u8 list" where
  "dec_chars n =
    (if n = 0 then [0x30]
     else let neg = sint n < 0; n = (if neg then - n else n)
          in (if neg then [0x2D] else []) @ rev (dec_loop (sint n)))"

definition write_dec :: "u32 \<Rightarrow> console \<Rightarrow> console" where
  "write_dec n = fold con_put (dec_chars n)"

definition write_dec_ll :: "u64 \<Rightarrow> console \<Rightarrow> console" where
  "write_dec_ll n = fold con_put (dec_chars n)"

fun hex_width_loop :: "u32 \<Rightarrow> nat list \<Rightarrow> bool \<Rightarrow> int \<Rightarrow> int" where
  "hex_width_loop n [] noZeroes width = width"
| "hex_width_loop n (i # is) noZeroes width =
    (if drop_bit i n AND 0xF = 0 \<and> noZeroes then hex_width_loop n is noZeroes width
     else hex_width_loop n is False (width + 1))"

definition hex_width :: "u32 \<Rightarrow> int" where
  "hex_width n = hex_width_loop n [28, 24, 20, 16, 12, 8, 4] True 1"

definition dec_width :: "u32 \<Rightarrow> int" where
  "dec_width n =
    (if n = 0 then 1
     else let neg = sint n < 0; n = (if neg then - n else n)
          in (if neg then 1 else 0) + int (length (dec_loop (sint n))))"

declare dec_loop.simps [simp del]


subsection \<open>Formats\<close>

datatype varg = VInt u32 | VStr "u8 list option" | VLong u64 | VThread u32 u32 u32 u32

datatype vmode = Plain | Directive int nat

definition emit :: "u8 list \<Rightarrow> u8 list result \<Rightarrow> u8 list result" where
  "emit out r = bind_result r (\<lambda>rest. Inr (out @ rest))"

text \<open>The padding as it is written: as many zeros as the number has characters.\<close>

definition pad_zeros :: "int \<Rightarrow> int \<Rightarrow> u8 list" where
  "pad_zeros width w = (if width \<noteq> 0 \<and> width - w \<ge> 1 then replicate (nat w) 0x30 else [])"

definition thread_chars :: "u32 \<Rightarrow> u32 \<Rightarrow> u32 \<Rightarrow> u32 \<Rightarrow> u8 list" where
  "thread_chars t pid ident eip =
    chars ''<Thread:0x'' @ hex_np t @ chars '' ('' @ dec_chars pid @ chars '':'' @ dec_chars ident @ chars '') at ''
    @ hex_np eip @ chars ''>''"

definition width_of :: "u8 \<Rightarrow> int option" where
  "width_of c = (if c = 0x33 then Some 4 else if c \<ge> 0x31 \<and> c \<le> 0x39 then Some (uint c - 0x30) else None)"

text \<open>
  The characters \<^verbatim>\<open>vprintf\<close> puts out for the rest of a format, inside a directive or outside; \<open>d\<close> is the local
  variable \<^verbatim>\<open>d\<close>.  A format that ends inside a directive is read past its end.
\<close>

fun format :: "vmode \<Rightarrow> u8 list \<Rightarrow> varg list \<Rightarrow> u32 \<Rightarrow> u8 list result" where
  "format Plain [] args d = Inr []"
| "format Plain (cur # fmt) args d =
    (if cur = 0x25 then format (Directive 0 0) fmt args d else emit [cur] (format Plain fmt args d))"
| "format (Directive width is_long) [] args d = Inl OutOfBounds"
| "format (Directive width is_long) (c # fmt) args d =
    (if c = 0x25 then emit [0x25] (format Plain fmt args d)
     else if c \<in> set (chars ''sS'')
     then (case args of
             VStr s # args \<Rightarrow> emit (case s of None \<Rightarrow> chars ''<null>'' | Some s \<Rightarrow> s) (format Plain fmt args d)
           | _ \<Rightarrow> Inl OutOfBounds)
     else if c \<in> set (chars ''diouDOU'')
     then (if is_long = 1
           then (case args of
                   VInt l # args \<Rightarrow> emit (pad_zeros width (dec_width d) @ dec_chars l) (format Plain fmt args d)
                 | _ \<Rightarrow> Inl OutOfBounds)
           else if is_long = 2
           then (case args of VLong ll # args \<Rightarrow> emit (dec_chars ll) (format Plain fmt args d) | _ \<Rightarrow> Inl OutOfBounds)
           else (case args of
                   VInt d # args \<Rightarrow> emit (pad_zeros width (dec_width d) @ dec_chars d) (format Plain fmt args d)
                 | _ \<Rightarrow> Inl OutOfBounds))
     else if c = 0x71
     then (case args of VLong ll # args \<Rightarrow> emit (dec_chars ll) (format Plain fmt args d) | _ \<Rightarrow> Inl OutOfBounds)
     else if c \<in> set (chars ''xXp'')
     then (case args of
             VInt d # args \<Rightarrow> emit (pad_zeros width (hex_width d) @ hex_np d) (format Plain fmt args d)
           | _ \<Rightarrow> Inl OutOfBounds)
     else if c \<in> set (chars ''Cc'')
     then (case args of VInt c # args \<Rightarrow> emit [ucast c] (format Plain fmt args d) | _ \<Rightarrow> Inl OutOfBounds)
     else if c \<in> set (chars ''eEfFgGaA'') then emit (chars ''<some float>'') (format Plain fmt args d)
     else if c = 0x6C then format (Directive width (Suc is_long)) fmt args d
     else if c = 0x74
     then (case args of
             VThread t pid ident eip # args \<Rightarrow> emit (thread_chars t pid ident eip) (format Plain fmt args d)
           | _ \<Rightarrow> Inl OutOfBounds)
     else if c \<in> set (chars ''hjz0 '') then format (Directive width is_long) fmt args d
     else (case width_of c of
             Some w \<Rightarrow> format (Directive w is_long) fmt args d
           | None \<Rightarrow> format Plain fmt args d))"

definition vprintf :: "u8 list \<Rightarrow> varg list \<Rightarrow> u32 \<Rightarrow> console \<Rightarrow> console result" where
  "vprintf fmt args d s = bind_result (format Plain fmt args d) (\<lambda>out. Inr (fold con_put out s))"

definition alert :: "u8 list \<Rightarrow> varg list \<Rightarrow> u32 \<Rightarrow> console \<Rightarrow> console result" where
  "alert fmt args d s =
    bind_result (vprintf fmt args d (fold con_put (chars ''[ALERT] '') s)) (\<lambda>s. Inr (con_put 0x0A s))"


subsection \<open>The cursor stays on the screen\<close>

definition on_screen :: "console \<Rightarrow> bool" where
  "on_screen s \<longleftrightarrow> con_x s < 80 \<and> con_y s < 25"

definition cursor_shown :: "console \<Rightarrow> bool" where
  "cursor_shown s \<longleftrightarrow> unat (con_crtc s 14) * 256 + unat (con_crtc s 15) = con_loc s"

lemma fold_fill:
  "fold (\<lambda>i v. v(i := c)) [a..<b] v j = (if a \<le> j \<and> j < b then c else v j)" for j :: nat
proof (induction b)
  case (Suc b)
  then show ?case
    by (cases "a \<le> b") (auto simp: less_Suc_eq)
qed simp

lemma fold_shift_lines:
  "fold (\<lambda>i v. v(i := v (i + k))) [a..<b] v j = (if a \<le> j \<and> j < b \<and> 0 < k then v (j + k) else v j)"
  if "0 < k" for k :: nat
proof (induction b arbitrary: j)
  case (Suc b)
  then show ?case
    using that by (cases "a \<le> b") (auto simp: less_Suc_eq)
qed simp

lemma scroll_video:
  "con_video (scroll s) j = (if con_y s \<ge> 25 then (if j < 1920 then con_video s (j + 80) else if j < 2000 then con_blank else con_video s j)
     else con_video s j)"
proof (cases "con_y s \<ge> 25")
  case True
  have k: "(0 :: nat) < 80"
    by simp
  have "con_video (scroll s) j = fold (\<lambda>i v. v(i := con_blank)) [24 * 80..<25 * 80]
      (fold (\<lambda>i v. v(i := v (i + 80))) [0..<24 * 80] (con_video s)) j"
    using True by (simp add: scroll_def Let_def del: upt_rec_numeral)
  also have "\<dots> = (if 24 * 80 \<le> j \<and> j < 25 * 80 then con_blank
      else if 0 \<le> j \<and> j < 24 * 80 \<and> (0 :: nat) < 80 then con_video s (j + 80) else con_video s j)"
    unfolding fold_fill fold_shift_lines [OF k] ..
  finally show ?thesis
    using True by auto
qed (simp add: scroll_def)

lemma scroll_cursor [simp]:
  "con_x (scroll s) = con_x s" "con_y (scroll s) = (if con_y s \<ge> 25 then 24 else con_y s)" "con_crtc (scroll s) = con_crtc s"
  by (simp_all add: scroll_def Let_def)

lemma move_cursor_fields [simp]:
  "con_x (move_cursor s) = con_x s" "con_y (move_cursor s) = con_y s" "con_video (move_cursor s) = con_video s"
  by (simp_all add: move_cursor_def Let_def)

lemma loc_on_screen: "on_screen s \<Longrightarrow> con_loc s < 2000"
  by (auto simp: on_screen_def con_loc_def word_less_nat_alt)

lemma cursor_move: "on_screen s \<Longrightarrow> cursor_shown (move_cursor s)"
proof -
  assume "on_screen s"
  then have "con_loc s < 2000"
    by (rule loc_on_screen)
  moreover have "con_loc (move_cursor s) = con_loc s"
    by (simp add: con_loc_def)
  moreover have "unat (of_nat (con_loc s) :: u16) = con_loc s"
    using calculation(1) by (simp add: unat_of_nat take_bit_nat_eq_self)
  moreover have "con_loc s div 256 mod 256 * 256 + con_loc s mod 256 = con_loc s"
    using calculation(1) by (simp add: mod_less)
  ultimately show ?thesis
    by (simp add: cursor_shown_def move_cursor_def Let_def unsigned_ucast_eq unsigned_drop_bit_eq drop_bit_eq_div take_bit_eq_mod unat_div)
qed

lemma tab_stop:
  assumes "x < 80"
  shows "((x :: u8) + 8) AND NOT 7 \<le> 80"
proof -
  have "list_all (\<lambda>n. ((of_nat n :: u8) + 8) AND NOT 7 \<le> 80) [0..<80]"
    by code_simp
  moreover have "unat x < 80"
    using assms by (simp add: word_less_nat_alt)
  ultimately have "((of_nat (unat x) :: u8) + 8) AND NOT 7 \<le> 80"
    unfolding list_all_iff set_upt by (metis atLeastLessThan_iff le0)
  then show ?thesis
    by simp
qed

lemma con_put_on_screen:
  assumes "on_screen s"
  shows "on_screen (con_put c s) \<and> cursor_shown (con_put c s)"
proof -
  let ?p = "put_char c s"
  have p: "con_x ?p \<le> 80 \<and> con_y ?p \<le> 25"
  proof -
    have x: "unat (con_x s) < 80" "unat (con_y s) < 25"
      using assms by (simp_all add: on_screen_def word_less_nat_alt)
    then have "con_x s + 1 \<le> 80" "con_y s + 1 \<le> 25" "con_x s \<noteq> 0 \<Longrightarrow> con_x s - 1 \<le> 80" "con_x s \<le> 80" "con_y s \<le> 25"
      by (auto simp: word_le_nat_alt unat_word_ariths unat_minus_one)
    then show ?thesis
      using tab_stop [of "con_x s"] assms by (auto simp: put_char_def on_screen_def)
  qed
  let ?q = "if con_x ?p \<ge> 80 then ?p\<lparr>con_x := 0, con_y := con_y ?p + 1\<rparr> else ?p"
  have "con_x ?q < 80"
    by (simp add: not_le)
  then have "on_screen (scroll ?q)"
    by (auto simp: on_screen_def not_le)
  then show ?thesis
    using cursor_move by (auto simp: con_put_def Let_def on_screen_def)
qed

lemma con_put_frame:
  assumes "on_screen s" "2000 \<le> j"
  shows "con_video (con_put c s) j = con_video s j"
proof -
  have "con_loc s \<noteq> j"
    using loc_on_screen [OF assms(1)] assms(2) by auto
  then have "con_video (put_char c s) j = con_video s j"
    by (simp add: put_char_def)
  then show ?thesis
    using assms(2) by (simp add: con_put_def Let_def scroll_video)
qed

lemma con_puts_on_screen:
  "on_screen s \<Longrightarrow> on_screen (fold con_put out s) \<and> (\<forall>j\<ge>2000. con_video (fold con_put out s) j = con_video s j)"
proof (induction out arbitrary: s)
  case (Cons c out)
  then show ?case
    using con_put_on_screen [OF Cons.prems, of c] con_put_frame [OF Cons.prems, of _ c] by auto
qed simp

lemma con_put_shows:
  assumes "on_screen s" "sint c \<ge> 0x20" "con_y s < 24 \<or> con_x s < 79"
  shows "con_video (con_put c s) = (con_video s)(con_loc s := ucast c OR push_bit 8 15)"
proof -
  have ne: "c \<noteq> 0x08" "c \<noteq> 0x09" "c \<noteq> 0x0D" "c \<noteq> 0x0A"
    using assms(2) by auto
  have "unat (con_x s) < 80" "unat (con_y s) < 25" "unat (con_y s) < 24 \<or> unat (con_x s) < 79"
    using assms(1,3) by (auto simp: on_screen_def word_less_nat_alt)
  then have "\<not> (80 \<le> con_x s + 1 \<and> 25 \<le> con_y s + 1)" "\<not> 25 \<le> con_y s"
    by (auto simp: word_le_nat_alt unat_word_ariths)
  then show ?thesis
    using ne assms(2) by (auto simp: con_put_def put_char_def Let_def scroll_def)
qed

text \<open>
  C16: Whatever is printed, the cursor stays on the screen, 80 columns by 25 rows, and no memory outside the 2000 cells of the
  screen is written; each character that is put also leaves the cursor registers of the display at
  the position of the cursor.
\<close>

theorem printing_stays_on_screen:
  assumes "on_screen s" and "vprintf fmt args d s = Inr s'"
  shows "on_screen s' \<and> (\<forall>j\<ge>2000. con_video s' j = con_video s j) \<and> cursor_shown (con_put c s')"
  using assms con_puts_on_screen [OF assms(1)] con_put_on_screen
  by (auto simp: vprintf_def result_simps)

definition demo_console :: console where
  "demo_console = con_setup \<lparr>con_video = (\<lambda>_. 0), con_x = 0, con_y = 0, con_crtc = (\<lambda>_. 0)\<rparr>"

lemma demo_console_on_screen: "on_screen demo_console"
  by (simp add: on_screen_def demo_console_def con_setup_def)

theorem printing_stays_on_screen_witness:
  "\<exists>s'. vprintf (chars ''pid %d'') [VInt 12] 0 demo_console = Inr s' \<and> on_screen s'"
proof -
  have "\<exists>out. format Plain (chars ''pid %d'') [VInt 12] 0 = Inr out"
    by (simp add: chars_def emit_def)
  then obtain s' where s': "vprintf (chars ''pid %d'') [VInt 12] 0 demo_console = Inr s'"
    by (auto simp: vprintf_def)
  then show ?thesis
    using printing_stays_on_screen [OF demo_console_on_screen s'] by blast
qed

subsection \<open>Numbers read back\<close>

definition read_digits :: "int \<Rightarrow> u8 list \<Rightarrow> int" where
  "read_digits base = foldl (\<lambda>a c. base * a + (if uint c \<ge> 0x61 then uint c - 0x61 + 10 else uint c - 0x30)) 0"

definition read_dec :: "u8 list \<Rightarrow> int" where
  "read_dec cs = (case cs of c # cs' \<Rightarrow> if c = 0x2D then - read_digits 10 cs' else read_digits 10 cs | [] \<Rightarrow> 0)"

lemma digit_value: "0 \<le> d \<Longrightarrow> d < 10 \<Longrightarrow> uint (of_int (0x30 + d) :: u8) = 0x30 + d"
  unfolding uint_word_of_int by (rule mod_pos_pos_trivial) simp_all

lemma read_dec_loop: "0 \<le> n \<Longrightarrow> read_digits 10 (rev (dec_loop n)) = n"
proof (induction n rule: dec_loop.induct)
  case (1 n)
  show ?case
  proof (cases "n > 0")
    case True
    then have ih: "read_digits 10 (rev (dec_loop (n div 10))) = n div 10"
      using 1 by simp
    have d: "uint (of_int (0x30 + n mod 10) :: u8) = 0x30 + n mod 10"
      by (rule digit_value) simp_all
    have "dec_loop n = of_int (0x30 + n mod 10) # dec_loop (n div 10)"
      using True by (simp add: dec_loop.simps [of n])
    then have "read_digits 10 (rev (dec_loop n)) = 10 * (n div 10) + (if 0x30 + n mod 10 \<ge> 0x61 then 0x30 + n mod 10 - 0x61 + 10 else 0x30 + n mod 10 - 0x30)"
      using ih d by (simp add: read_digits_def)
    also have "\<dots> = n"
    proof -
      have "n mod 10 < 10"
        by simp
      then have "\<not> 0x30 + n mod 10 \<ge> 0x61"
        by linarith
      then show ?thesis
        by simp
    qed
    finally show ?thesis .
  next
    case False
    then show ?thesis
      using 1(2) by (simp add: dec_loop.simps [of 0] read_digits_def)
  qed
qed

lemma dec_loop_digits: "c \<in> set (dec_loop n) \<Longrightarrow> c \<noteq> 0x2D"
proof (induction n rule: dec_loop.induct)
  case (1 n)
  have "uint (of_int (0x30 + n mod 10) :: u8) = 0x30 + n mod 10"
    by (rule digit_value) simp_all
  moreover have "0 \<le> n mod 10"
    by simp
  ultimately have "uint (of_int (0x30 + n mod 10) :: u8) \<noteq> uint (0x2D :: u8)"
    by simp
  then have "(of_int (0x30 + n mod 10) :: u8) \<noteq> 0x2D"
    by metis
  then show ?case
    using 1 by (cases "n > 0") (auto simp: dec_loop.simps [of n])
qed

lemma dec_loop_length: "0 \<le> n \<Longrightarrow> n < 10 ^ k \<Longrightarrow> length (dec_loop n) \<le> k"
proof (induction k arbitrary: n)
  case 0
  then show ?case
    by (simp add: dec_loop.simps)
next
  case (Suc k)
  then have "n div 10 < 10 ^ k"
    by (simp add: div_less_iff_less_mult)
  then show ?case
    using Suc by (simp add: dec_loop.simps [of n])
qed

lemma sint_negated:
  "sint n < 0 \<Longrightarrow> n \<noteq> 0x80000000 \<Longrightarrow> sint (- n) = - sint n" for n :: u32
proof -
  assume "sint n < 0" and "n \<noteq> 0x80000000"
  moreover have "sint n \<noteq> sint (0x80000000 :: u32)"
    using \<open>n \<noteq> 0x80000000\<close> by (metis signed_word_eqI)
  ultimately have "- (2 ^ 31) < sint n"
    using sint_ge [of n] by simp
  then show "sint (- n) = - sint n"
    using \<open>sint n < 0\<close> by (simp add: sint_word_ariths signed_take_bit_int_eq_self)
qed

lemma read_dec_minus: "read_dec (0x2D # cs) = - read_digits 10 cs"
  by (simp add: read_dec_def)

lemma read_dec_plain: "0 < n \<Longrightarrow> read_dec (rev (dec_loop n)) = n"
proof -
  assume n: "0 < n"
  then have "rev (dec_loop n) \<noteq> []"
    by (simp add: dec_loop.simps [of n])
  then obtain c cs where c: "rev (dec_loop n) = c # cs"
    by (meson list.exhaust)
  then have "c \<in> set (dec_loop n)"
    by (metis list.set_intros(1) set_rev)
  then have "c \<noteq> 0x2D"
    by (rule dec_loop_digits)
  then show ?thesis
    using c read_dec_loop [of n] n by (simp add: read_dec_def)
qed

text \<open>The nibbles from bit \<open>4 * k\<close> downwards, with or without the leading zeros, denote the number.\<close>

lemma nibble: "uint (drop_bit i n AND 0xF) = uint n div 2 ^ i mod 16" for n :: u32
proof -
  have "drop_bit i n AND 0xF = take_bit 4 (drop_bit i n)"
    by (simp add: take_bit_eq_mask mask_eq_exp_minus_1)
  then have "uint (drop_bit i n AND 0xF) = take_bit 4 (drop_bit i (uint n))"
    by (simp only: unsigned_take_bit_eq unsigned_drop_bit_eq) (simp add: take_bit_int_eq_self uint_lt2p [of n, simplified])
  then show ?thesis
    by (simp add: take_bit_eq_mod drop_bit_eq_div)
qed

lemma hex_digit_value:
  fixes t :: u32
  assumes "uint t < 16"
  shows "(if uint (hex_digit t) \<ge> 0x61 then uint (hex_digit t) - 0x61 + 10 else uint (hex_digit t) - 0x30) = uint t"
proof -
  have t: "unat t < 16"
    using assms word_less_nat_alt [of t 16] by (simp add: word_less_def)
  have "unat (hex_digit t) = (if unat t \<ge> 10 then unat t - 10 + 0x61 else unat t + 0x30)"
    using t by (cases "10 \<le> unat t")
      (simp_all add: hex_digit_def unsigned_ucast_eq take_bit_eq_mod unat_word_ariths unat_sub word_le_nat_alt)
  moreover obtain h :: nat where h: "h = unat (hex_digit t)" "uint (hex_digit t) = int h"
    using uint_nat by blast
  moreover obtain k where k: "k = unat t" "uint t = int k"
    using uint_nat by blast
  ultimately show ?thesis
    using t unfolding h(2) k(2) by (auto split: if_splits)
qed

lemma nibble_step: "16 * (N div 2 ^ (i + 4)) + N div 2 ^ i mod 16 = N div 2 ^ i" for N :: int
proof -
  have "N div 2 ^ (i + 4) = N div 2 ^ i div 16"
    by (simp add: power_add zdiv_zmult2_eq)
  then show ?thesis
    by simp
qed

lemma read_hex_loop:
  "successively (\<lambda>i j. i = j + 4) (t0 # is) \<Longrightarrow> (noZeroes \<Longrightarrow> a = 0) \<Longrightarrow> a = uint n div 2 ^ t0
   \<Longrightarrow> foldl (\<lambda>a c. 16 * a + (if uint c \<ge> 0x61 then uint c - 0x61 + 10 else uint c - 0x30)) a (hex_loop n is noZeroes)
      = uint n div 2 ^ last (t0 # is)"
proof (induction "is" arbitrary: t0 a noZeroes)
  case (Cons i "is")
  let ?v = "\<lambda>c :: u8. if uint c \<ge> 0x61 then uint c - 0x61 + 10 else uint c - 0x30"
  have t0: "t0 = i + 4" and rest: "successively (\<lambda>i j. i = j + 4) (i # is)"
    using Cons.prems(1) by auto
  let ?t = "drop_bit i n AND 0xF"
  have t: "uint ?t = uint n div 2 ^ i mod 16"
    by (rule nibble)
  have v: "?v (hex_digit ?t) = uint ?t"
    by (rule hex_digit_value) (simp add: t)
  have step: "16 * a + uint ?t = uint n div 2 ^ i"
    unfolding t Cons.prems(3) t0 by (rule nibble_step)
  show ?case
  proof (cases "?t = 0 \<and> noZeroes")
    case True
    then have "a = uint n div 2 ^ i"
      using step Cons.prems(2) by simp
    then show ?thesis
      using Cons.IH [OF rest, of noZeroes a] Cons.prems(2) True by simp
  next
    case False
    then have "hex_loop n (i # is) noZeroes = hex_digit ?t # hex_loop n is False"
      by (auto simp: Let_def)
    moreover have "foldl (\<lambda>a c. 16 * a + ?v c) (16 * a + uint ?t) (hex_loop n is False) = uint n div 2 ^ last (i # is)"
      using Cons.IH [OF rest, of False "16 * a + uint ?t"] step by simp
    ultimately show ?thesis
      using v by (simp del: if_split hex_loop.simps)
  qed
qed simp

lemma read_hex_np: "read_digits 16 (hex_np n) = uint n"
proof -
  have "uint n div 2 ^ 32 = 0"
    using uint_lt2p [of n] by (simp add: div_pos_pos_trivial)
  then have l: "foldl (\<lambda>a c. 16 * a + (if uint c \<ge> 0x61 then uint c - 0x61 + 10 else uint c - 0x30)) 0
      (hex_loop n [28, 24, 20, 16, 12, 8, 4] True) = uint n div 2 ^ 4"
    using read_hex_loop [of 32 "[28, 24, 20, 16, 12, 8, 4]" True 0 n] by simp
  have t: "uint (n AND 0xF) = uint n mod 16"
    using nibble [of 0 n] by simp
  have "16 * (uint n div 2 ^ 4) + uint n mod 16 = uint n"
    by simp
  then show ?thesis
    using l hex_digit_value [of "n AND 0xF"] t by (simp add: read_digits_def hex_np_def del: if_split)
qed

text \<open>
  C37: Printing a 32-bit number in decimal can be undone: the characters read back as the signed number, and the digits
  leave room for the terminator in the array of 32 bytes they are collected in.  The exception is the
  most negative number, whose negation is negative again: only its sign is printed.  In hexadecimal every
  number reads back as the unsigned one.
\<close>

theorem printed_number_roundtrip:
  fixes n :: u32
  shows "(if n = 0x80000000 then dec_chars n = [0x2D] else read_dec (dec_chars n) = sint n) \<and> length (dec_chars n) \<le> 11
    \<and> read_digits 16 (hex_np n) = uint n"
proof -
  have bnd: "sint n < 10 ^ 10" "sint (- n) < 10 ^ 10"
    using sint_lt [of n] sint_lt [of "- n"] by simp_all
  have len: "length (dec_loop (sint m)) \<le> 10" if "sint m < 10 ^ 10" for m :: u32
    using that dec_loop_length [of "sint m" 10] by (cases "0 \<le> sint m") (simp_all add: dec_loop.simps)
  have l11: "length (dec_chars n) \<le> 11"
    using len [OF bnd(1)] len [OF bnd(2)] by (simp add: dec_chars_def Let_def)
  show ?thesis
  proof (cases "sint n < 0")
    case True
    then have "n \<noteq> 0"
      by auto
    with True show ?thesis
      using l11 read_hex_np read_dec_loop [of "- sint n"] sint_negated [OF True]
      by (auto simp: dec_chars_def Let_def read_dec_minus dec_loop.simps [of "- 2147483648"])
  next
    case False
    then have "n = 0 \<or> 0 < sint n" "n \<noteq> 0x80000000"
      by (auto simp: order_less_le signed_eq_0_iff)
    moreover have "dec_chars n = (if n = 0 then [0x30] else rev (dec_loop (sint n)))"
      using False by (simp add: dec_chars_def Let_def)
    moreover have "read_dec [0x30] = 0"
      by (simp add: read_dec_def read_digits_def)
    ultimately show ?thesis
      using l11 read_hex_np False read_dec_plain [of "sint n"] by auto
  qed
qed

end
