(* ===== verification/Console_Driver.thy ===== *)
theory Console_Driver
  imports Rtc Console
begin

text \<open>
  The way of a key press to the program that reads it: the byte buffers of \<^verbatim>\<open>buffer.cpp\<close>, the keyboard of
  \<^verbatim>\<open>keyboard.cpp\<close>, the console device of \<^verbatim>\<open>character/console.cpp\<close>, \<^verbatim>\<open>Scheduler::process_keyboard\<close>,
  and the interrupt table of \<^verbatim>\<open>isr.cpp\<close> that calls them.  The addresses of fresh heap memory are
  arguments of the operations that allocate.
\<close>

subsection \<open>Byte buffers\<close>

record region =
  rg_start :: u32
  rg_end :: u32

definition region_new :: region where "region_new = \<lparr>rg_start = 0, rg_end = 0\<rparr>"

definition empty_p :: "region \<Rightarrow> bool" where "empty_p reg \<longleftrightarrow> rg_end reg \<le> rg_start reg"

text \<open>\<^verbatim>\<open>size\<close> is at least 0 in every call; a copy of a negative count is a copy of an enormous one.\<close>

definition drain_into :: "u32 \<Rightarrow> u32 \<Rightarrow> region \<times> mem \<Rightarrow> u32 \<times> region \<times> mem" where
  "drain_into buffer len = (\<lambda>(reg, m).
    let n = (if sint (rg_end reg - rg_start reg) < sint len then rg_end reg - rg_start reg else len)
    in (n, reg\<lparr>rg_start := rg_start reg + n\<rparr>, memcpy buffer (rg_start reg) (unat n) m))"

record buffer =
  bf_used :: u32
  bf_size :: u32
  bf_data :: u32

definition buffer_new :: buffer where "buffer_new = \<lparr>bf_used = 0, bf_size = 0, bf_data = 0\<rparr>"

definition has_data_p :: "buffer \<Rightarrow> bool" where "has_data_p b \<longleftrightarrow> sint (bf_used b) > 0"

definition buffer_allocate :: "u32 \<Rightarrow> u32 \<Rightarrow> buffer \<Rightarrow> buffer" where
  "buffer_allocate addr len b = b\<lparr>bf_size := len, bf_data := addr\<rparr>"

definition buffer_copy :: "buffer \<Rightarrow> buffer \<times> mem \<Rightarrow> (bool \<times> buffer \<times> mem)" where
  "buffer_copy b = (\<lambda>(other, m).
    let target = bf_data other + bf_used other; avail = bf_size other - bf_used other
    in if sint (bf_used b) > sint avail then (False, other, m)
       else (True, other\<lparr>bf_used := bf_used other + bf_used b\<rparr>, memcpy target (bf_data b) (unat (bf_used b)) m))"

definition buffer_clear :: "buffer \<Rightarrow> buffer" where "buffer_clear b = b\<lparr>bf_used := 0\<rparr>"

definition buffer_put :: "u8 \<Rightarrow> buffer \<times> mem \<Rightarrow> bool \<times> buffer \<times> mem" where
  "buffer_put byte = (\<lambda>(b, m).
    if bf_used b = bf_size b then (False, b, m)
    else (True, b\<lparr>bf_used := bf_used b + 1\<rparr>, m(bf_data b + bf_used b := byte)))"

definition all_of :: "buffer \<Rightarrow> region" where
  "all_of b = \<lparr>rg_start = bf_data b, rg_end = bf_data b + bf_used b\<rparr>"

text \<open>The bytes from \<^verbatim>\<open>data_\<close> up to \<^verbatim>\<open>data_ + used_\<close>, in the order the loops of the buffer visit them.\<close>

definition buffer_bytes :: "buffer \<Rightarrow> mem \<Rightarrow> u8 list" where
  "buffer_bytes b m = map (\<lambda>i. m (bf_data b + of_nat i)) [0..<unat (bf_used b)]"

fun newline_from :: "u32 \<Rightarrow> u8 list \<Rightarrow> u32 option" where
  "newline_from pos [] = None"
| "newline_from pos (c # cs) = (if c = 0x0A then Some pos else newline_from (pos + 1) cs)"

definition find_newline :: "buffer \<Rightarrow> mem \<Rightarrow> region option" where
  "find_newline b m =
    map_option (\<lambda>pos. \<lparr>rg_start = bf_data b, rg_end = pos + 1\<rparr>) (newline_from (bf_data b) (buffer_bytes b m))"


subsection \<open>The keyboard\<close>

datatype key_type =
    Knone | Kreg | Kenter | Kctrl | Klshift | Krshift | Kleftalt | Kcaps | Kfc | Khome | Kup | Kpage_up | Kleft | Kright
  | Kend | Kdown | Kpage_down

definition key_mapping :: "key_type list" where
  "key_mapping =
    [Knone, Knone] @ replicate 13 Kreg
    @ replicate 13 Kreg @ [Kenter]
    @ [Kctrl] @ replicate 12 Kreg
    @ [Klshift] @ replicate 11 Kreg @ [Krshift]
    @ [Knone, Kleftalt, Kreg, Kcaps] @ replicate 12 Kfc
    @ [Khome, Kup, Kpage_up, Knone, Kleft, Knone, Kright, Knone, Kend, Kdown, Kpage_down]
    @ replicate 42 Knone @ replicate 4 Knone"

definition key_row :: "string \<Rightarrow> string \<Rightarrow> (u8 \<times> u8) list" where
  "key_row plain shifted = zip (chars plain) (chars shifted)"

definition us_map :: "(u8 \<times> u8) list" where
  "us_map =
    [(0, 0), (0, 0)] @ key_row ''1234567890-='' ''!@#$%^&*()_+'' @ [(0x08, 0x08)]
    @ [(0x09, 0x09)] @ key_row ''qwertyuiop[]'' ''QWERTYUIOP{}'' @ [(0x0A, 0x0A)]
    @ [(0, 0)] @ key_row ''asdfghjkl;'' ''ASDFGHJKL:'' @ [(0x27, 0x22), (0x60, 0x7E)]
    @ [(0, 0), (0x5C, 0x7C)] @ key_row ''zxcvbnm,./'' ''ZXCVBNM<>?'' @ [(0, 0)]
    @ [(0, 0), (0, 0), (0x20, 0x20)]"

definition dv_map :: "(u8 \<times> u8) list" where
  "dv_map =
    [(0, 0), (0, 0)] @ key_row ''1234567890-='' ''!@#$%^&*()_+'' @ [(0x08, 0x08)]
    @ [(0x09, 0x09), (0x27, 0x22)] @ key_row '',.pyfgcrl/='' ''<>PYFGCRL?+'' @ [(0x0A, 0x0A)]
    @ [(0, 0)] @ key_row ''aoeuidhtns-'' ''AOEUIDHTNS_'' @ [(0x60, 0x7E)]
    @ [(0, 0), (0x5C, 0x7C)] @ key_row '';qjkxbmwvz'' '':QJKXBMWVZ'' @ [(0, 0)]
    @ [(0, 0), (0, 0), (0x20, 0x20)]"

record keyboard =
  kb_shifted :: u32
  kb_map :: "(u8 \<times> u8) list"
  kb_buffer :: buffer

record console_device =
  cd_tty :: nat
  cd_raw :: buffer
  cd_region :: region
  cd_wait :: "nat list"

text \<open>
  What the operations of this theory act on: the scheduler with the console device it was given (\<^verbatim>\<open>console_\<close>), the
  screen, the keyboard, the clock, the terminals and memory.
\<close>

record io_state =
  io_sched :: sched
  io_clock :: wall_clock
  io_screen :: console
  io_kbd :: keyboard
  io_dev :: "console_device option"
  io_ttys :: "nat \<Rightarrow> tty"
  io_mem :: mem

definition kb_put :: "u8 \<Rightarrow> io_state \<Rightarrow> io_state result" where
  "kb_put keycode s =
    (let (ok, b, m) = buffer_put keycode (kb_buffer (io_kbd s), io_mem s);
         s = s\<lparr>io_kbd := (io_kbd s)\<lparr>kb_buffer := b\<rparr>, io_mem := m\<rparr>
     in if ok then Inr s
        else bind_result (alert (chars ''Keyboard buffer overflowth!'') [] 0 (io_screen s)) (\<lambda>scr. Inr (s\<lparr>io_screen := scr\<rparr>)))"

definition map_entry :: "(u8 \<times> u8) list \<Rightarrow> u8 \<Rightarrow> u32 \<Rightarrow> u8 result" where
  "map_entry tab scan_code shifted =
    (if unat scan_code < length tab
     then if shifted = 0 then Inr (fst (tab ! unat scan_code))
          else if shifted = 1 then Inr (snd (tab ! unat scan_code)) else Inl OutOfBounds
     else Inl OutOfBounds)"

definition pressed :: "u8 \<Rightarrow> io_state \<Rightarrow> io_state result" where
  "pressed scan_code s =
    (let ty = key_mapping ! unat (scan_code AND 0x7F)
     in if ty = Kreg \<or> ty = Kenter
        then if scan_code \<le> 0x3A
             then bind_result (map_entry (kb_map (io_kbd s)) scan_code (kb_shifted (io_kbd s))) (\<lambda>c. kb_put c s)
             else Inr s
        else if ty = Klshift \<or> ty = Krshift
        then Inr (s\<lparr>io_kbd := (io_kbd s)\<lparr>kb_shifted := kb_shifted (io_kbd s) XOR 1\<rparr>\<rparr>)
        else Inr s)"

definition kb_init :: "u32 \<Rightarrow> keyboard \<Rightarrow> keyboard" where
  "kb_init addr k = k\<lparr>kb_shifted := 0, kb_map := dv_map, kb_buffer := buffer_allocate addr 0x1000 (kb_buffer k)\<rparr>"


subsection \<open>The console device\<close>

definition each_byte :: "(u8 \<Rightarrow> 'a \<Rightarrow> 'a) \<Rightarrow> buffer \<Rightarrow> mem \<Rightarrow> 'a \<Rightarrow> 'a" where
  "each_byte f b m = fold f (buffer_bytes b m)"

definition dev_wake :: "console_device \<Rightarrow> sched \<Rightarrow> (console_device \<times> sched) result" where
  "dev_wake d sc = bind_result (wq_wake (cd_wait d, sc)) (\<lambda>(_, q, sc). Inr (d\<lparr>cd_wait := q\<rparr>, sc))"

definition inject_bytes :: "buffer \<Rightarrow> console_device \<Rightarrow> io_state \<Rightarrow> (console_device \<times> io_state) result" where
  "inject_bytes buffer d s =
    (let tt = io_ttys s (cd_tty d);
         s = (if tt_echo tt then s\<lparr>io_screen := each_byte con_put buffer (io_mem s) (io_screen s)\<rparr> else s);
         (ok, raw, m) = buffer_copy buffer (cd_raw d, io_mem s);
         s = s\<lparr>io_mem := m\<rparr>; d = d\<lparr>cd_raw := raw\<rparr>
     in bind_result (assert_that ok) (\<lambda>_.
        let d' = (if tt_canonical tt then map_option (\<lambda>reg. d\<lparr>cd_region := reg\<rparr>) (find_newline raw m)
                  else Some (d\<lparr>cd_region := all_of raw\<rparr>))
        in case d' of
             None \<Rightarrow> Inr (d, s)
           | Some d \<Rightarrow> bind_result (dev_wake d (io_sched s)) (\<lambda>(d, sc). Inr (d, s\<lparr>io_sched := sc\<rparr>))))"

text \<open>
  One turn of the loop of \<^verbatim>\<open>read_bytes\<close>: with nothing to read the thread waits, and comes back to the same point
  when it runs again; otherwise the count is returned.
\<close>

definition console_read_bytes :: "u32 \<Rightarrow> u32 \<Rightarrow> console_device \<Rightarrow> io_state \<Rightarrow> (u32 option \<times> console_device \<times> io_state) result" where
  "console_read_bytes len buffer d s =
    (if empty_p (cd_region d)
     then bind_result (wq_wait (cd_wait d, io_sched s)) (\<lambda>(q, sc). Inr (None, d\<lparr>cd_wait := q\<rparr>, s\<lparr>io_sched := sc\<rparr>))
     else let (n, reg, m) = drain_into buffer len (cd_region d, io_mem s)
          in Inr (Some n, d\<lparr>cd_region := reg\<rparr>, s\<lparr>io_mem := m\<rparr>))"

definition console_write_bytes :: "u32 \<Rightarrow> u32 \<Rightarrow> io_state \<Rightarrow> u32 \<times> io_state" where
  "console_write_bytes len buffer s =
    (len, s\<lparr>io_screen := fold (\<lambda>i. con_put (io_mem s (buffer + of_nat i))) [0..<unat len] (io_screen s)\<rparr>)"

definition TCGETS :: u32 where "TCGETS = 0x5401"
definition TCSETS :: u32 where "TCSETS = 0x5402"
definition OPOST :: u32 where "OPOST = 1"
definition ICANON :: u32 where "ICANON = 2"
definition ECHO :: u32 where "ECHO = 8"

record termios =
  c_iflag :: u32
  c_oflag :: u32
  c_cflag :: u32
  c_lflag :: u32
  c_line :: u8
  c_cc :: "u8 list"
  c_ispeed :: u32
  c_ospeed :: u32

definition termios_zero :: termios where
  "termios_zero = \<lparr>c_iflag = 0, c_oflag = 0, c_cflag = 0, c_lflag = 0, c_line = 0, c_cc = replicate 32 0, c_ispeed = 0, c_ospeed = 0\<rparr>"

text \<open>The argument of \<^verbatim>\<open>ioctl\<close> is the structure the pointer names, and the result the structure afterwards.\<close>

definition console_ioctl :: "u32 \<Rightarrow> termios \<Rightarrow> console_device \<Rightarrow> io_state \<Rightarrow> (int \<times> termios \<times> io_state) result" where
  "console_ioctl req info d s =
    (let tt = io_ttys s (cd_tty d)
     in if req = TCGETS
        then Inr (0, termios_zero\<lparr>c_lflag := if tt_echo tt then ECHO else 0,
               c_iflag := if tt_canonical tt then ICANON else 0, c_oflag := OPOST\<rparr>, s)
        else if req = TCSETS
        then let tt = set_echo (c_lflag info AND ECHO \<noteq> 0) tt;
                 tt = set_canonical (c_iflag info AND ICANON \<noteq> 0) tt
             in Inr (0, info, s\<lparr>io_ttys := (io_ttys s)(cd_tty d := tt)\<rparr>)
        else bind_result (vprintf (chars ''unknown ioctl: %x'' @ [0x0A]) [VInt req] 0 (io_screen s)) (\<lambda>scr.
               Inr (- 1, info, s\<lparr>io_screen := scr\<rparr>)))"

definition console_open :: "u32 \<Rightarrow> console_device \<Rightarrow> io_state \<Rightarrow> (console_device \<times> io_state) result" where
  "console_open addr d s =
    (let d = d\<lparr>cd_raw := buffer_allocate addr 0x1000 (cd_raw d)\<rparr>
     in case s_current (io_sched s) of
          None \<Rightarrow> Inl NullDeref
        | Some cur \<Rightarrow>
            let p = t_process (s_thread (io_sched s) cur);
                (se, ttys) = set_tty (cd_tty d) (p_session (s_proc (io_sched s) p), io_ttys s)
            in Inr (d, s\<lparr>io_sched := proc_update p (\<lambda>pr. pr\<lparr>p_session := se\<rparr>) (io_sched s), io_ttys := ttys\<rparr>))"

definition console_device_new :: "nat \<Rightarrow> console_device" where
  "console_device_new tt = \<lparr>cd_tty = tt, cd_raw = buffer_new, cd_region = region_new, cd_wait = []\<rparr>"

text \<open>\<^verbatim>\<open>synchronized(lock_)\<close> of the scheduler around a body that also changes the rest of the state.\<close>

definition sync_io :: "(io_state \<Rightarrow> io_state result) \<Rightarrow> io_state \<Rightarrow> io_state result" where
  "sync_io body s =
    bind_result (sync (\<lambda>sc. bind_result (body (s\<lparr>io_sched := sc\<rparr>)) (\<lambda>s. Inr (s, io_sched s))) (io_sched s)) (\<lambda>(s, sc).
      Inr (s\<lparr>io_sched := sc\<rparr>))"

definition process_keyboard :: "io_state \<Rightarrow> io_state result" where
  "process_keyboard s =
    (case io_dev s of
       None \<Rightarrow> Inr s
     | Some d \<Rightarrow> sync_io (\<lambda>s.
         let b = kb_buffer (io_kbd s)
         in if \<not> has_data_p b then Inr s
            else bind_result (inject_bytes b d s) (\<lambda>(d, s).
              Inr (s\<lparr>io_dev := Some d, io_kbd := (io_kbd s)\<lparr>kb_buffer := buffer_clear (kb_buffer (io_kbd s))\<rparr>\<rparr>))) s)"

text \<open>\<^verbatim>\<open>console_driver::init\<close> without its entry in devfs.\<close>

definition console_init :: "nat \<Rightarrow> io_state \<Rightarrow> io_state" where
  "console_init tt s = s\<lparr>io_dev := Some (console_device_new tt), io_ttys := (io_ttys s)(tt := tty_new)\<rparr>"


subsection \<open>Interrupts\<close>

definition IRQ0 :: u8 where "IRQ0 = 32"

definition handlers_init :: "u8 \<Rightarrow> 'h option" where "handlers_init = (\<lambda>_. None)"

definition register_interrupt :: "u8 \<Rightarrow> 'h \<Rightarrow> (u8 \<Rightarrow> 'h option) \<Rightarrow> (u8 \<Rightarrow> 'h option)" where
  "register_interrupt n handler handlers = handlers(IRQ0 + n := Some handler)"

definition register_isr :: "u8 \<Rightarrow> 'h \<Rightarrow> (u8 \<Rightarrow> 'h option) \<Rightarrow> (u8 \<Rightarrow> 'h option)" where
  "register_isr n handler handlers = handlers(n := Some handler)"

text \<open>An interrupt without a handler stops the processor for good.\<close>

definition isr_handler :: "('h \<Rightarrow> io_state \<Rightarrow> io_state result) \<Rightarrow> (u8 \<Rightarrow> 'h option) \<Rightarrow> u32 \<Rightarrow> io_state \<Rightarrow> io_state result" where
  "isr_handler handle handlers int_no s =
    (case handlers (ucast (int_no AND 0xFF)) of
       None \<Rightarrow> Inl Diverges
     | Some h \<Rightarrow>
         let s = s\<lparr>io_sched := (io_sched s)\<lparr>s_ints := snd (enable_interrupts (s_ints (io_sched s)))\<rparr>\<rparr>
         in bind_result (handle h s) (\<lambda>s.
              Inr (s\<lparr>io_sched := (io_sched s)\<lparr>s_ints := snd (disable_interrupts (s_ints (io_sched s)))\<rparr>\<rparr>)))"

definition eoi :: "u32 \<Rightarrow> (nat \<times> u8) list" where
  "eoi int_no = (if int_no \<ge> 40 then [(0xA0, 0x20)] else []) @ [(0x20, 0x20)]"

definition irq_handler :: "('h \<Rightarrow> io_state \<Rightarrow> io_state result) \<Rightarrow> (u8 \<Rightarrow> 'h option) \<Rightarrow> u32 \<Rightarrow> io_state
    \<Rightarrow> ((nat \<times> u8) list \<times> io_state) result" where
  "irq_handler handle handlers int_no s =
    bind_result
      (if int_no \<ge> 256 then Inl OutOfBounds
       else case handlers (ucast int_no) of
         Some h \<Rightarrow> handle h s
       | None \<Rightarrow> bind_result (vprintf (chars ''unhandled interrupt: %d'' @ [0x0A]) [VInt (int_no - ucast IRQ0)] 0 (io_screen s)) (\<lambda>scr.
                   Inr (s\<lparr>io_screen := scr\<rparr>))) (\<lambda>s.
    bind_result (process_keyboard s) (\<lambda>s. Inr (eoi int_no, s)))"

text \<open>
  The callbacks of the two devices modelled here; \<open>inb\<close> is what the port of the keyboard gives, and other devices are
  the argument \<open>other\<close>.
\<close>

datatype callback = TimerCallback | KeyboardCallback | OtherCallback nat

definition run_callback :: "(nat \<Rightarrow> io_state \<Rightarrow> io_state result) \<Rightarrow> u8 \<Rightarrow> callback \<Rightarrow> io_state \<Rightarrow> io_state result" where
  "run_callback other inb cb s =
    (case cb of
       TimerCallback \<Rightarrow> bind_result (timer_interrupt (io_clock s, io_sched s)) (\<lambda>(c, sc). Inr (s\<lparr>io_clock := c, io_sched := sc\<rparr>))
     | KeyboardCallback \<Rightarrow> pressed inb s
     | OtherCallback k \<Rightarrow> other k s)"

text \<open>\<^verbatim>\<open>Timer::init\<close>: \<open>None\<close> if the clock is never read twice alike; a frequency of 0 is a division by zero.\<close>

definition timer_init :: "(nat \<Rightarrow> nat \<Rightarrow> u8) \<Rightarrow> u32 \<Rightarrow> (u8 \<Rightarrow> callback option) \<times> io_state
    \<Rightarrow> ((nat \<times> u8) list \<times> (u8 \<Rightarrow> callback option) \<times> io_state) result option" where
  "timer_init cmos frequency = (\<lambda>(handlers, s).
    Option.bind (init_clock cmos) (\<lambda>c.
      let s = s\<lparr>io_sched := (io_sched s)\<lparr>s_ticks := 0\<rparr>, io_clock := c\<rparr>;
          handlers = register_interrupt 0 TimerCallback handlers
      in Some (if frequency = 0 then Inl Diverges else Inr (timer_bytes frequency, handlers, s))))"

definition keyboard_init :: "u32 \<Rightarrow> (u8 \<Rightarrow> callback option) \<times> io_state \<Rightarrow> (u8 \<Rightarrow> callback option) \<times> io_state" where
  "keyboard_init addr = (\<lambda>(handlers, s).
    (register_interrupt 1 KeyboardCallback handlers, s\<lparr>io_kbd := kb_init addr (io_kbd s)\<rparr>))"


subsection \<open>Keys\<close>

lemma map_entries [simp]: "length us_map = 0x3A" "length dv_map = 0x3A" "length key_mapping = 128"
  by (simp_all add: us_map_def dv_map_def key_mapping_def key_row_def chars_def)

text \<open>The characters a sequence of scan codes stands for, from the state of the shift.\<close>

definition shift_key :: "u8 \<Rightarrow> bool" where
  "shift_key scan \<longleftrightarrow> scan AND 0x7F = 0x2A \<or> scan AND 0x7F = 0x36"

definition char_key :: "u8 \<Rightarrow> bool" where
  "char_key scan \<longleftrightarrow> unat scan < 0x3A \<and> scan \<notin> {0, 1, 0x1D, 0x2A, 0x36, 0x37, 0x38}"

fun typed :: "(u8 \<times> u8) list \<Rightarrow> bool \<Rightarrow> u8 list \<Rightarrow> u8 list" where
  "typed tab sh [] = []"
| "typed tab sh (c # cs) =
    (if shift_key c then typed tab (\<not> sh) cs
     else if char_key c then (if sh then snd else fst) (tab ! unat c) # typed tab sh cs
     else typed tab sh cs)"

lemma key_types:
  "(key_mapping ! unat (scan AND 0x7F) = Klshift \<or> key_mapping ! unat (scan AND 0x7F) = Krshift) = shift_key scan"
  "((key_mapping ! unat (scan AND 0x7F) = Kreg \<or> key_mapping ! unat (scan AND 0x7F) = Kenter) \<and> scan \<le> 0x3A) = char_key scan"
proof -
  have "list_all (\<lambda>n. let scan = of_nat n :: u8 in
      (key_mapping ! unat (scan AND 0x7F) = Klshift \<or> key_mapping ! unat (scan AND 0x7F) = Krshift) = shift_key scan \<and>
      ((key_mapping ! unat (scan AND 0x7F) = Kreg \<or> key_mapping ! unat (scan AND 0x7F) = Kenter) \<and> scan \<le> 0x3A) = char_key scan)
     [0..<256]"
    by code_simp
  moreover have "unat scan < 256"
    using unsigned_less [of scan, where ?'a = nat] by simp
  ultimately have "let scan = of_nat (unat scan) :: u8 in
      (key_mapping ! unat (scan AND 0x7F) = Klshift \<or> key_mapping ! unat (scan AND 0x7F) = Krshift) = shift_key scan \<and>
      ((key_mapping ! unat (scan AND 0x7F) = Kreg \<or> key_mapping ! unat (scan AND 0x7F) = Kenter) \<and> scan \<le> 0x3A) = char_key scan"
    unfolding list_all_iff by (metis (no_types, lifting) atLeastLessThan_iff le0 set_upt)
  then show "(key_mapping ! unat (scan AND 0x7F) = Klshift \<or> key_mapping ! unat (scan AND 0x7F) = Krshift) = shift_key scan"
    "((key_mapping ! unat (scan AND 0x7F) = Kreg \<or> key_mapping ! unat (scan AND 0x7F) = Kenter) \<and> scan \<le> 0x3A) = char_key scan"
    by (simp_all only: of_nat_unat ucast_id Let_def)
qed

definition kb_ok :: "io_state \<Rightarrow> bool" where
  "kb_ok s \<longleftrightarrow> length (kb_map (io_kbd s)) = 0x3A \<and> kb_shifted (io_kbd s) \<in> {0, 1}
     \<and> bf_used (kb_buffer (io_kbd s)) \<le> bf_size (kb_buffer (io_kbd s))"

definition kb_bytes :: "io_state \<Rightarrow> u8 list" where
  "kb_bytes s = buffer_bytes (kb_buffer (io_kbd s)) (io_mem s)"

definition kb_same :: "io_state \<Rightarrow> io_state \<Rightarrow> bool" where
  "kb_same s s' \<longleftrightarrow> kb_map (io_kbd s') = kb_map (io_kbd s) \<and> bf_size (kb_buffer (io_kbd s')) = bf_size (kb_buffer (io_kbd s))
     \<and> bf_data (kb_buffer (io_kbd s')) = bf_data (kb_buffer (io_kbd s)) \<and> io_sched s' = io_sched s \<and> io_dev s' = io_dev s"

lemma length_buffer_bytes [simp]: "length (buffer_bytes b m) = unat (bf_used b)"
  by (simp add: buffer_bytes_def)

lemma buffer_put_bytes:
  assumes "bf_used b < bf_size b"
  shows "\<exists>b' m'. buffer_put c (b, m) = (True, b', m') \<and> buffer_bytes b' m' = buffer_bytes b m @ [c]
    \<and> bf_size b' = bf_size b \<and> bf_data b' = bf_data b \<and> bf_used b' \<le> bf_size b \<and> unat (bf_used b') = Suc (unat (bf_used b))"
proof -
  have lt: "unat (bf_used b) < unat (bf_size b)"
    using assms by (simp add: word_less_nat_alt)
  then have u: "unat (bf_used b + 1) = Suc (unat (bf_used b))"
    using unat_u32_lt [of "bf_size b"] by (simp add: unat_word_ariths)
  have "bf_data b + of_nat i \<noteq> bf_data b + bf_used b" if "i < unat (bf_used b)" for i
    using that unat_of_nat_u32 [of i] unat_u32_lt [of "bf_used b"] by auto
  then have "buffer_bytes (b\<lparr>bf_used := bf_used b + 1\<rparr>) (m(bf_data b + bf_used b := c)) = buffer_bytes b m @ [c]"
    by (simp add: buffer_bytes_def u)
  then show ?thesis
    using lt u assms by (auto simp: buffer_put_def word_le_nat_alt)
qed

lemma alert_ok: "\<exists>scr. alert (chars ''Keyboard buffer overflowth!'') [] 0 s = Inr scr"
  by (simp add: alert_def vprintf_def chars_def emit_def)

lemma kb_put_run:
  assumes "kb_ok s"
  shows "\<exists>s'. kb_put c s = Inr s' \<and> kb_ok s' \<and> kb_same s s' \<and> kb_shifted (io_kbd s') = kb_shifted (io_kbd s)
    \<and> kb_bytes s' = take (unat (bf_size (kb_buffer (io_kbd s)))) (kb_bytes s @ [c])"
proof (cases "bf_used (kb_buffer (io_kbd s)) = bf_size (kb_buffer (io_kbd s))")
  case True
  obtain scr where "alert (chars ''Keyboard buffer overflowth!'') [] 0 (io_screen s) = Inr scr"
    using alert_ok by blast
  moreover have "length (kb_bytes s) = unat (bf_size (kb_buffer (io_kbd s)))"
    using True by (simp add: kb_bytes_def)
  ultimately show ?thesis
    using True assms by (simp add: kb_put_def buffer_put_def kb_ok_def kb_same_def kb_bytes_def)
next
  case False
  then have "bf_used (kb_buffer (io_kbd s)) < bf_size (kb_buffer (io_kbd s))"
    using assms by (auto simp: kb_ok_def order_less_le)
  from buffer_put_bytes [OF this, of c "io_mem s"] obtain b' m' where
    b: "buffer_put c (kb_buffer (io_kbd s), io_mem s) = (True, b', m')"
      "buffer_bytes b' m' = buffer_bytes (kb_buffer (io_kbd s)) (io_mem s) @ [c]"
      "bf_size b' = bf_size (kb_buffer (io_kbd s))" "bf_data b' = bf_data (kb_buffer (io_kbd s))"
      "bf_used b' \<le> bf_size (kb_buffer (io_kbd s))"
    by blast
  have "length (buffer_bytes b' m') \<le> unat (bf_size (kb_buffer (io_kbd s)))"
    using b(5) by (simp add: word_le_nat_alt)
  then have "take (unat (bf_size (kb_buffer (io_kbd s)))) (kb_bytes s @ [c]) = kb_bytes s @ [c]"
    using b(2) by (simp add: kb_bytes_def)
  then show ?thesis
    using b assms by (simp add: kb_put_def kb_ok_def kb_same_def kb_bytes_def)
qed

lemma pressed_run:
  assumes "kb_ok s"
  shows "\<exists>s'. pressed scan s = Inr s' \<and> kb_ok s' \<and> kb_same s s'
    \<and> (kb_shifted (io_kbd s') = 1) = ((kb_shifted (io_kbd s) = 1) \<noteq> shift_key scan)
    \<and> kb_bytes s' = take (unat (bf_size (kb_buffer (io_kbd s)))) (kb_bytes s @ typed (kb_map (io_kbd s)) (kb_shifted (io_kbd s) = 1) [scan])"
proof -
  let ?sh = "kb_shifted (io_kbd s)"
  have sh: "?sh = 0 \<or> ?sh = 1"
    using assms by (auto simp: kb_ok_def)
  have full: "take (unat (bf_size (kb_buffer (io_kbd s)))) (kb_bytes s) = kb_bytes s"
    using assms by (simp add: kb_bytes_def kb_ok_def word_le_nat_alt)
  consider "shift_key scan" | "\<not> shift_key scan" "char_key scan" | "\<not> shift_key scan" "\<not> char_key scan"
    by blast
  then show ?thesis
  proof cases
    case 1
    then have "pressed scan s = Inr (s\<lparr>io_kbd := (io_kbd s)\<lparr>kb_shifted := ?sh XOR 1\<rparr>\<rparr>)"
      using key_types(1) [of scan] by (auto simp: pressed_def Let_def)
    then show ?thesis
      using 1 sh assms full by (auto simp: kb_ok_def kb_same_def kb_bytes_def)
  next
    case 2
    let ?c = "(if ?sh = 1 then snd else fst) (kb_map (io_kbd s) ! unat scan)"
    have "map_entry (kb_map (io_kbd s)) scan ?sh = Inr ?c"
      using 2 sh assms by (auto simp: map_entry_def kb_ok_def char_key_def)
    then have "pressed scan s = kb_put ?c s"
      using 2 key_types [of scan] by (simp add: pressed_def Let_def)
    then show ?thesis
      using kb_put_run [OF assms, of ?c] 2 by auto
  next
    case 3
    then have "pressed scan s = Inr s"
      using key_types [of scan] by (auto simp: pressed_def Let_def)
    then show ?thesis
      using 3 assms full by (simp add: kb_same_def)
  qed
qed

lemma take_again: "take n (take n xs @ ys) = take n (xs @ ys)"
  by (cases "length xs \<le> n") simp_all

lemma typed_Cons: "typed tab sh (c # cs) = typed tab sh [c] @ typed tab (sh \<noteq> shift_key c) cs"
  by simp

text \<open>
  C18: Typing is safe and loses nothing but what does not fit: for every sequence of scan codes the interrupt handler of the
  keyboard stays inside its tables, the shift state stays 0 or 1, and the buffer then holds its old bytes followed by the
  characters of the keys with the shift as it was at each of them, cut off at the size of the buffer.
\<close>

theorem keys_typed:
  assumes "kb_ok s"
  shows "\<exists>s'. fold_result pressed codes s = Inr s' \<and> kb_ok s' \<and> kb_same s s'
    \<and> kb_bytes s' = take (unat (bf_size (kb_buffer (io_kbd s))))
        (kb_bytes s @ typed (kb_map (io_kbd s)) (kb_shifted (io_kbd s) = 1) codes)"
  using assms
proof (induction codes arbitrary: s)
  case Nil
  then show ?case
    by (simp add: kb_same_def kb_bytes_def kb_ok_def word_le_nat_alt)
next
  case (Cons c cs)
  from pressed_run [OF Cons.prems, of c] obtain s1 where s1: "pressed c s = Inr s1" "kb_ok s1" "kb_same s s1"
      "(kb_shifted (io_kbd s1) = 1) = ((kb_shifted (io_kbd s) = 1) \<noteq> shift_key c)"
      "kb_bytes s1 = take (unat (bf_size (kb_buffer (io_kbd s)))) (kb_bytes s @ typed (kb_map (io_kbd s)) (kb_shifted (io_kbd s) = 1) [c])"
    by blast
  from Cons.IH [OF s1(2)] obtain s2 where s2: "fold_result pressed cs s1 = Inr s2" "kb_ok s2" "kb_same s1 s2"
      "kb_bytes s2 = take (unat (bf_size (kb_buffer (io_kbd s1))))
        (kb_bytes s1 @ typed (kb_map (io_kbd s1)) (kb_shifted (io_kbd s1) = 1) cs)"
    by blast
  have "kb_same s s2"
    using s1(3) s2(3) by (simp add: kb_same_def)
  moreover have m: "kb_map (io_kbd s1) = kb_map (io_kbd s)" "bf_size (kb_buffer (io_kbd s1)) = bf_size (kb_buffer (io_kbd s))"
    using s1(3) by (simp_all add: kb_same_def)
  moreover have "kb_bytes s2 = take (unat (bf_size (kb_buffer (io_kbd s))))
      (kb_bytes s @ typed (kb_map (io_kbd s)) (kb_shifted (io_kbd s) = 1) (c # cs))"
    unfolding s2(4) m s1(5) s1(4) take_again typed_Cons [of _ _ c cs] append_assoc ..
  ultimately show ?case
    using s1(1) s2(1,2) by (simp del: typed.simps)
qed


subsection \<open>Lines\<close>

definition span_bytes :: "u32 \<Rightarrow> nat \<Rightarrow> mem \<Rightarrow> u8 list" where
  "span_bytes a n m = map (\<lambda>i. m (a + of_nat i)) [0..<n]"

definition apart :: "u32 \<Rightarrow> nat \<Rightarrow> u32 \<Rightarrow> nat \<Rightarrow> bool" where
  "apart a n c k \<longleftrightarrow> (\<forall>i<n. \<forall>j<k. a + of_nat i \<noteq> c + of_nat j)"

lemma apart_shrink: "apart a n c k \<Longrightarrow> n' \<le> n \<Longrightarrow> k' \<le> k \<Longrightarrow> apart a n' c k'"
  by (simp add: apart_def)

lemma apart_sym: "apart a n c k \<Longrightarrow> apart c k a n"
  by (metis apart_def)

lemma apart_tail: "apart a n c (k + j) \<Longrightarrow> apart a n (c + of_nat k) j"
  unfolding apart_def by (metis add.assoc add_less_cancel_left of_nat_add)

lemma span_bytes_add: "span_bytes a (n + k) m = span_bytes a n m @ span_bytes (a + of_nat n) k m"
  by (rule nth_equalityI) (auto simp: span_bytes_def nth_append add.assoc simp flip: of_nat_add)

lemma buffer_bytes_span: "buffer_bytes b m = span_bytes (bf_data b) (unat (bf_used b)) m"
  by (simp add: buffer_bytes_def span_bytes_def)

lemma length_span_bytes [simp]: "length (span_bytes a n m) = n"
  by (simp add: span_bytes_def)

lemma take_span_bytes: "n \<le> k \<Longrightarrow> take n (span_bytes a k m) = span_bytes a n m"
  by (simp add: span_bytes_def take_map)

lemma memcpy_span_other: "apart dest n a k \<Longrightarrow> span_bytes a k (memcpy dest src n m) = span_bytes a k m"
proof -
  assume ap: "apart dest n a k"
  have "\<not> unat (a + of_nat j - dest) < n" if "j < k" for j
  proof
    assume "unat (a + of_nat j - dest) < n"
    moreover have "dest + of_nat (unat (a + of_nat j - dest)) = a + of_nat j"
      by simp
    ultimately show False
      using ap that by (metis apart_def)
  qed
  then show ?thesis
    by (simp add: span_bytes_def memcpy_other)
qed

lemma memcpy_span: "apart dest n src n \<Longrightarrow> n \<le> 2 ^ 32 \<Longrightarrow> span_bytes dest n (memcpy dest src n m) = span_bytes src n m"
proof -
  assume ap: "apart dest n src n" and n: "n \<le> 2 ^ 32"
  have "n \<le> unat (dest - src)"
  proof (rule ccontr)
    assume c: "\<not> n \<le> unat (dest - src)"
    moreover have "dest + of_nat 0 = src + of_nat (unat (dest - src))"
      by simp
    moreover have "0 < n"
      using c by simp
    ultimately show False
      using ap by (metis apart_def not_le)
  qed
  then show ?thesis
    using memcpy_copies n by (simp add: span_bytes_def)
qed

lemma sint_small: "unat x < 2 ^ 31 \<Longrightarrow> sint x = int (unat x)" for x :: u32
proof -
  assume x: "unat x < 2 ^ 31"
  obtain k where k: "k = unat x" "uint x = int k"
    using uint_nat by blast
  have "sint x = signed_take_bit 31 (uint x)"
    by (simp add: sint_uint)
  also have "\<dots> = int k"
    using x unfolding k(2) k(1) [symmetric] by (intro signed_take_bit_int_eq_self) simp_all
  finally show ?thesis
    by (simp only: k(1))
qed

lemma newline_from_first: "0x0A \<notin> set l \<Longrightarrow> newline_from pos (l @ 0x0A # rest) = Some (pos + of_nat (length l))"
  by (induction l arbitrary: pos) (auto simp: add.assoc)

definition raw_bytes :: "console_device \<Rightarrow> io_state \<Rightarrow> u8 list" where
  "raw_bytes d s = buffer_bytes (cd_raw d) (io_mem s)"

definition fits :: "buffer \<Rightarrow> console_device \<Rightarrow> bool" where
  "fits b d \<longleftrightarrow> unat (bf_used (cd_raw d)) + unat (bf_used b) \<le> unat (bf_size (cd_raw d)) \<and> unat (bf_size (cd_raw d)) < 2 ^ 31
     \<and> apart (bf_data b) (unat (bf_used b)) (bf_data (cd_raw d)) (unat (bf_size (cd_raw d)))"

lemma buffer_copy_fits:
  assumes "fits b d"
  shows "\<exists>raw m'. buffer_copy b (cd_raw d, m) = (True, raw, m') \<and> buffer_bytes raw m' = buffer_bytes (cd_raw d) m @ buffer_bytes b m
    \<and> bf_data raw = bf_data (cd_raw d) \<and> bf_size raw = bf_size (cd_raw d)
    \<and> unat (bf_used raw) = unat (bf_used (cd_raw d)) + unat (bf_used b)"
proof -
  let ?o = "cd_raw d"
  let ?n = "unat (bf_used ?o)" and ?k = "unat (bf_used b)"
  have f: "?n + ?k \<le> unat (bf_size ?o)" "unat (bf_size ?o) < 2 ^ 31"
    and ap: "apart (bf_data b) ?k (bf_data ?o) (unat (bf_size ?o))"
    using assms by (simp_all add: fits_def)
  have av: "unat (bf_size ?o - bf_used ?o) = unat (bf_size ?o) - ?n"
    using f by (simp add: unat_sub word_le_nat_alt)
  have k: "?k < 2 ^ 31" "unat (bf_size ?o - bf_used ?o) < 2 ^ 31"
    using f av by simp_all
  have "\<not> sint (bf_used b) > sint (bf_size ?o - bf_used ?o)"
    unfolding sint_small [OF k(1)] sint_small [OF k(2)] av of_nat_less_iff using f(1) by linarith
  moreover have u: "unat (bf_used ?o + bf_used b) = ?n + ?k"
    using f by (simp add: unat_word_ariths)
  moreover have "apart (bf_data b) ?k (bf_data ?o + of_nat ?n) ?k"
    using apart_tail [of "bf_data b" ?k "bf_data ?o" ?n ?k] apart_shrink [OF ap order_refl f(1)] by blast
  then have "span_bytes (bf_data ?o + bf_used ?o) ?k (memcpy (bf_data ?o + bf_used ?o) (bf_data b) ?k m) = span_bytes (bf_data b) ?k m"
    using f by (intro memcpy_span) (simp_all add: apart_sym)
  moreover have "apart (bf_data ?o + bf_used ?o) ?k (bf_data ?o) ?n"
    unfolding apart_def
  proof (intro allI impI notI)
    fix i j
    assume i: "i < ?k" and j: "j < ?n" and eq: "bf_data ?o + bf_used ?o + of_nat i = bf_data ?o + of_nat j"
    then have "bf_used ?o + of_nat i = of_nat j"
      by (simp add: add.assoc)
    then have "unat (bf_used ?o + of_nat i) = j"
      using j f by (simp add: unat_of_nat_u32)
    moreover have "unat (bf_used ?o + of_nat i) = ?n + i"
      using i f by (simp add: unat_word_ariths unat_of_nat_u32)
    ultimately show False
      using j by simp
  qed
  then have "span_bytes (bf_data ?o) ?n (memcpy (bf_data ?o + bf_used ?o) (bf_data b) ?k m) = span_bytes (bf_data ?o) ?n m"
    by (rule memcpy_span_other)
  ultimately show ?thesis
    by (simp add: buffer_copy_def Let_def buffer_bytes_span span_bytes_add)
qed

text \<open>What an injection does in canonical mode with nobody waiting, when the bytes before or with it hold a newline.\<close>

lemma inject_line:
  assumes "fits b d" and "tt_canonical (io_ttys s (cd_tty d))" and "cd_wait d = []"
    and line: "raw_bytes d s @ buffer_bytes b (io_mem s) = l @ 0x0A # rest" and "0x0A \<notin> set l"
  shows "\<exists>d' s'. inject_bytes b d s = Inr (d', s') \<and> raw_bytes d' s' = l @ 0x0A # rest
    \<and> bf_data (cd_raw d') = bf_data (cd_raw d) \<and> bf_size (cd_raw d') = bf_size (cd_raw d)
    \<and> cd_region d' = \<lparr>rg_start = bf_data (cd_raw d), rg_end = bf_data (cd_raw d) + of_nat (length l) + 1\<rparr>"
proof -
  obtain raw m' where c: "buffer_copy b (cd_raw d, io_mem s) = (True, raw, m')"
      "buffer_bytes raw m' = buffer_bytes (cd_raw d) (io_mem s) @ buffer_bytes b (io_mem s)"
      "bf_data raw = bf_data (cd_raw d)" "bf_size raw = bf_size (cd_raw d)"
    using buffer_copy_fits [OF assms(1), of "io_mem s"] by blast
  have bytes: "buffer_bytes raw m' = l @ 0x0A # rest"
    using c(2) line by (simp add: raw_bytes_def)
  then have "find_newline raw m' = Some \<lparr>rg_start = bf_data (cd_raw d), rg_end = bf_data (cd_raw d) + of_nat (length l) + 1\<rparr>"
    using c(3) newline_from_first [OF assms(5)] by (simp add: find_newline_def)
  then show ?thesis
    using assms(2,3) c bytes
    by (simp add: inject_bytes_def Let_def dev_wake_def wq_wake_def raw_bytes_def)
qed

text \<open>Reading a region that is not longer than the space given empties it.\<close>

lemma drain_all:
  assumes "reg = \<lparr>rg_start = a, rg_end = a + of_nat n\<rparr>" and "n \<le> unat len" and "unat len < 2 ^ 31" and "apart buffer (unat len) a n"
  shows "\<exists>m'. drain_into buffer len (reg, m) = (of_nat n, \<lparr>rg_start = a + of_nat n, rg_end = a + of_nat n\<rparr>, m')
    \<and> m' = memcpy buffer a n m \<and> span_bytes buffer n m' = span_bytes a n m"
proof -
  have n: "unat (of_nat n :: u32) = n"
    using assms(2,3) by (intro unat_of_nat_u32) simp
  have k: "unat (of_nat n :: u32) < 2 ^ 31"
    using n assms(2,3) by simp
  have "\<not> sint (of_nat n :: u32) < sint len \<Longrightarrow> of_nat n = len"
    unfolding sint_small [OF k] sint_small [OF assms(3)] of_nat_less_iff n using assms(2)
    by (metis le_neq_implies_less of_nat_unat ucast_id)
  moreover have "span_bytes buffer n (memcpy buffer a n m) = span_bytes a n m"
    using assms by (intro memcpy_span apart_shrink [OF assms(4)]) simp_all
  ultimately show ?thesis
    using n by (auto simp: drain_into_def assms(1) Let_def)
qed

text \<open>
  C38: The console hands out its first line over and over: once a line is in the raw buffer, every later injection in
  canonical mode, whatever it holds, makes the next read return that first line again, and neither the read nor the
  injection takes it out of the buffer, so the second line is never read.
\<close>

theorem console_repeats_first_line:
  assumes "raw_bytes d s = l @ 0x0A # rest" and "0x0A \<notin> set l" and "fits b d"
    and "tt_canonical (io_ttys s (cd_tty d))" and "cd_wait d = []"
    and "length l + 1 \<le> unat len" and "unat len < 2 ^ 31" and "apart buffer (unat len) (bf_data (cd_raw d)) (unat (bf_size (cd_raw d)))"
    and "unat (bf_data (cd_raw d)) + unat (bf_size (cd_raw d)) < 2 ^ 32"
  shows "\<exists>d1 s1 d2 s2. inject_bytes b d s = Inr (d1, s1) \<and> console_read_bytes len buffer d1 s1 = Inr (Some (of_nat (length l + 1)), d2, s2)
    \<and> span_bytes buffer (length l + 1) (io_mem s2) = l @ [0x0A]
    \<and> raw_bytes d2 s2 = raw_bytes d s @ buffer_bytes b (io_mem s)"
proof -
  let ?a = "bf_data (cd_raw d)" and ?n = "length l + 1"
  let ?R = "l @ 0x0A # rest @ buffer_bytes b (io_mem s)"
  obtain d1 s1 where i: "inject_bytes b d s = Inr (d1, s1)" "raw_bytes d1 s1 = ?R" "bf_data (cd_raw d1) = ?a"
      "bf_size (cd_raw d1) = bf_size (cd_raw d)" "cd_region d1 = \<lparr>rg_start = ?a, rg_end = ?a + of_nat (length l) + 1\<rparr>"
    using inject_line [OF assms(3,4,5), of l "rest @ buffer_bytes b (io_mem s)"] assms(1,2) by auto
  have used: "unat (bf_used (cd_raw d)) \<le> unat (bf_size (cd_raw d))" "?n \<le> unat (bf_used (cd_raw d))"
    using assms(3) arg_cong [OF assms(1), of length] by (simp_all add: fits_def raw_bytes_def)
  have reg: "cd_region d1 = \<lparr>rg_start = ?a, rg_end = ?a + of_nat ?n\<rparr>"
    using i(5) by (simp add: add.assoc add.commute)
  obtain m' where dr: "drain_into buffer len (cd_region d1, io_mem s1)
        = (of_nat ?n, \<lparr>rg_start = ?a + of_nat ?n, rg_end = ?a + of_nat ?n\<rparr>, m')"
      "m' = memcpy buffer ?a ?n (io_mem s1)" "span_bytes buffer ?n m' = span_bytes ?a ?n (io_mem s1)"
    using drain_all [OF reg assms(6,7), of buffer "io_mem s1"] apart_shrink [OF assms(8), of "unat len" ?n] used by auto
  have "unat (?a + of_nat ?n) = unat ?a + ?n"
    using used assms(9) by (simp add: unat_word_ariths unat_of_nat_u32 del: of_nat_Suc)
  then have "\<not> empty_p (cd_region d1)"
    by (simp add: reg empty_p_def word_le_nat_alt)
  then have rd: "console_read_bytes len buffer d1 s1 = Inr (Some (of_nat ?n),
      d1\<lparr>cd_region := \<lparr>rg_start = ?a + of_nat ?n, rg_end = ?a + of_nat ?n\<rparr>\<rparr>, s1\<lparr>io_mem := m'\<rparr>)"
    using dr(1) by (simp add: console_read_bytes_def)
  have "?n \<le> unat (bf_used (cd_raw d1))"
    using arg_cong [OF i(2), of length] by (simp add: raw_bytes_def)
  then have "span_bytes ?a ?n (io_mem s1) = take ?n (raw_bytes d1 s1)"
    unfolding raw_bytes_def buffer_bytes_span i(3) by (rule take_span_bytes [symmetric])
  then have "span_bytes buffer ?n m' = l @ [0x0A]"
    using dr(3) i(2) by simp
  moreover have "unat (bf_used (cd_raw d1)) \<le> unat (bf_size (cd_raw d))"
    using arg_cong [OF i(2), of length] assms(3) arg_cong [OF assms(1), of length] by (simp add: raw_bytes_def fits_def)
  then have "buffer_bytes (cd_raw d1) m' = buffer_bytes (cd_raw d1) (io_mem s1)"
    unfolding buffer_bytes_span dr(2) i(3) using assms(6)
    by (intro memcpy_span_other apart_shrink [OF assms(8)]) simp_all
  ultimately show ?thesis
    using i rd assms(1) by (auto simp: raw_bytes_def)
qed

definition demo_io :: io_state where
  "demo_io = \<lparr>io_sched = demo_sched, io_clock = \<lparr>cur_sec = 0, cur_usec = 0\<rparr>, io_screen = demo_console,
     io_kbd = \<lparr>kb_shifted = 0, kb_map = dv_map, kb_buffer = \<lparr>bf_used = 2, bf_size = 0x1000, bf_data = 0x3000\<rparr>\<rparr>,
     io_dev = None, io_ttys = (\<lambda>_. tty_new),
     io_mem = (\<lambda>_. 0)(0x1000 := 0x61, 0x1001 := 0x0A, 0x3000 := 0x62, 0x3001 := 0x0A)\<rparr>"

definition demo_device :: console_device where
  "demo_device = (console_device_new 0)\<lparr>cd_raw := \<lparr>bf_used = 2, bf_size = 0x1000, bf_data = 0x1000\<rparr>\<rparr>"

lemma demo_keyboard_ok: "kb_ok demo_io"
  by (simp add: kb_ok_def demo_io_def)

theorem keys_typed_witness:
  "\<exists>s'. fold_result pressed [0x2A, 0x1E, 0xAA, 0x1E] demo_io = Inr s' \<and> kb_bytes s' = [0x62, 0x0A, 0x41, 0x61]"
proof -
  have "typed dv_map False [0x2A, 0x1E, 0xAA, 0x1E] = [0x41, 0x61]"
    by code_simp
  moreover have "kb_bytes demo_io = [0x62, 0x0A]" "kb_map (io_kbd demo_io) = dv_map" "kb_shifted (io_kbd demo_io) = 0"
    "bf_size (kb_buffer (io_kbd demo_io)) = 0x1000"
    by (simp_all add: demo_io_def kb_bytes_def buffer_bytes_def upt_rec)
  ultimately show ?thesis
    using keys_typed [OF demo_keyboard_ok, of "[0x2A, 0x1E, 0xAA, 0x1E]"]
    by (auto simp del: fold_result.simps typed.simps)
qed

lemma apart_ranges:
  assumes "unat a + n \<le> unat c \<or> unat c + k \<le> unat a" and "unat a + n \<le> 2 ^ 32" and "unat c + k \<le> 2 ^ 32"
  shows "apart a n c k"
  unfolding apart_def
proof (intro allI impI notI)
  fix i j
  assume i: "i < n" and j: "j < k" and eq: "a + of_nat i = c + of_nat j"
  have "unat (a + of_nat i) = unat a + i" "unat (c + of_nat j) = unat c + j"
    using i j assms(2,3) by (simp_all add: unat_word_ariths unat_of_nat_u32)
  then show False
    using eq i j assms(1) by auto
qed

theorem console_repeats_first_line_witness:
  "\<exists>d1 s1 d2 s2. inject_bytes (kb_buffer (io_kbd demo_io)) demo_device demo_io = Inr (d1, s1)
     \<and> console_read_bytes 16 0x5000 d1 s1 = Inr (Some 2, d2, s2) \<and> span_bytes 0x5000 2 (io_mem s2) = [0x61, 0x0A]
     \<and> raw_bytes d2 s2 = [0x61, 0x0A, 0x62, 0x0A]"
proof -
  let ?b = "kb_buffer (io_kbd demo_io)"
  have r: "raw_bytes demo_device demo_io = [0x61] @ 0x0A # []" "(0x0A :: u8) \<notin> set [0x61]" "cd_wait demo_device = []"
    "tt_canonical (io_ttys demo_io (cd_tty demo_device))" "buffer_bytes ?b (io_mem demo_io) = [0x62, 0x0A]"
    by (simp_all add: raw_bytes_def buffer_bytes_def demo_device_def demo_io_def console_device_new_def tty_new_def upt_rec)
  have f: "fits ?b demo_device"
    by (simp add: fits_def demo_io_def demo_device_def apart_ranges)
  have a: "apart 0x5000 (unat (16 :: u32)) (bf_data (cd_raw demo_device)) (unat (bf_size (cd_raw demo_device)))"
    "length [0x61 :: u8] + 1 \<le> unat (16 :: u32)" "unat (16 :: u32) < 2 ^ 31"
    "unat (bf_data (cd_raw demo_device)) + unat (bf_size (cd_raw demo_device)) < 2 ^ 32"
    by (simp_all add: demo_device_def apart_ranges)
  show ?thesis
    using console_repeats_first_line [OF r(1,2) f r(4,3) a(2,3,1,4)] r(1,5) by (simp add: eval_nat_numeral)
qed

text \<open>The raw buffer is never emptied, so in the end the kernel stops: an injection that does not fit fails the assertion.\<close>

lemma inject_overflow:
  assumes "unat (bf_used (cd_raw d)) + unat (bf_used b) > unat (bf_size (cd_raw d))"
    and "bf_used (cd_raw d) \<le> bf_size (cd_raw d)" and "unat (bf_size (cd_raw d)) < 2 ^ 31" and "unat (bf_used b) < 2 ^ 31"
  shows "inject_bytes b d s = Inl AssertFailed"
proof -
  let ?v = "bf_size (cd_raw d) - bf_used (cd_raw d)"
  have v: "unat ?v = unat (bf_size (cd_raw d)) - unat (bf_used (cd_raw d))"
    using assms(2) by (simp add: unat_sub)
  then have "unat ?v < 2 ^ 31"
    using assms(3) by simp
  then have "sint (bf_used b) > sint ?v"
    unfolding sint_small [OF assms(4)] sint_small [OF \<open>unat ?v < 2 ^ 31\<close>] of_nat_less_iff v
    using assms(1,2) by (simp add: word_le_nat_alt)
  then show ?thesis
    by (simp add: inject_bytes_def buffer_copy_def Let_def)
qed

end
