(* ===== verification/Block_Device.thy ===== *)
theory Block_Device
  imports Kernel_Steps
begin

text \<open>
  Block devices: \<^verbatim>\<open>block.hpp\<close>, \<^verbatim>\<open>block.cpp\<close>, \<^verbatim>\<open>block_buffer.cpp\<close> and \<^verbatim>\<open>block_region.hpp\<close>.  Devices and buffers are named by
  numbers.  The memory of a buffer is the list of its bytes; access outside it, or after it was
  freed, is a fault.  What the hardware delivers is the argument \<open>io\<close>: \<open>io d r\<close> are the bytes of the range
  \<open>r\<close> of the disk \<open>d\<close>.
\<close>

subsection \<open>Regions\<close>

definition BlockSize :: u32 where "BlockSize = 1024"
definition cRegionSize :: u32 where "cRegionSize = 1024"
definition cSectorPerRegion :: u32 where "cSectorPerRegion = 2"

definition byte2region :: "u32 \<Rightarrow> u32" where "byte2region n = n div cRegionSize"

type_synonym region_range = "u32 \<times> u32"

definition range_sector :: "region_range \<Rightarrow> u32" where "range_sector r = fst r * cSectorPerRegion"
definition num_sectors :: "region_range \<Rightarrow> u32" where "num_sectors r = snd r * cSectorPerRegion"
definition num_bytes :: "region_range \<Rightarrow> u32" where "num_bytes r = snd r * cRegionSize"


subsection \<open>Buffers\<close>

definition eFree :: u16 where "eFree = 1"
definition eFull :: u16 where "eFull = 2"
definition eRequested :: u16 where "eRequested = 4"

record block_buffer =
  bb_size :: u16
  bb_state :: u16
  bb_data :: "u8 list"
  bb_freed :: bool
  bb_device :: nat
  bb_range :: region_range
  bb_waiting :: "nat option"
  bb_lock :: spin_lock

text \<open>\<open>data\<close> is what the fresh memory of the buffer holds.\<close>

definition block_buffer_new :: "u32 \<Rightarrow> u8 list \<Rightarrow> nat \<Rightarrow> block_buffer" where
  "block_buffer_new sz data dev =
    \<lparr>bb_size = ucast sz, bb_state = eFree, bb_data = data, bb_freed = False, bb_device = dev, bb_range = (0, 0),
     bb_waiting = None, bb_lock = spin_lock_new\<rparr>"

definition free_p :: "block_buffer \<Rightarrow> bool" where "free_p b \<longleftrightarrow> bb_state b AND eFree = eFree"
definition full_p :: "block_buffer \<Rightarrow> bool" where "full_p b \<longleftrightarrow> bb_state b AND eFull = eFull"
definition requested_p :: "block_buffer \<Rightarrow> bool" where "requested_p b \<longleftrightarrow> bb_state b AND eRequested = eRequested"

text \<open>\<^verbatim>\<open>synchronized(lock_)\<close> with the lock of the buffer.\<close>

definition buffer_sync :: "(block_buffer \<times> sched \<Rightarrow> ('a \<times> block_buffer \<times> sched) result) \<Rightarrow> block_buffer \<times> sched
    \<Rightarrow> ('a \<times> block_buffer \<times> sched) result" where
  "buffer_sync body = (\<lambda>(b, s).
    bind_result (lock (s_current s) (bb_lock b, s_ints s)) (\<lambda>(l, i).
    bind_result (body (b\<lparr>bb_lock := l\<rparr>, s\<lparr>s_ints := i\<rparr>)) (\<lambda>(x, b, s).
    bind_result (unlock (s_current s) (bb_lock b, s_ints s)) (\<lambda>(l, i).
      Inr (x, b\<lparr>bb_lock := l\<rparr>, s\<lparr>s_ints := i\<rparr>)))))"

definition set_full :: "block_buffer \<times> sched \<Rightarrow> (block_buffer \<times> sched) result" where
  "set_full bs =
    bind_result (buffer_sync (\<lambda>(b, s).
        let b = b\<lparr>bb_state := bb_state b OR eFull\<rparr>
        in case bb_waiting b of
             None \<Rightarrow> Inr ((), b, s)
           | Some th \<Rightarrow> bind_result (make_ready th s) (\<lambda>s. Inr ((), b, s))) bs) (\<lambda>(_, b, s). Inr (b, s))"

text \<open>\<open>ff\<close> is the virtual method \<^verbatim>\<open>fulfill\<close> of the device, which starts the transfer.\<close>

definition fill :: "(block_buffer \<times> sched \<Rightarrow> (block_buffer \<times> sched) result) \<Rightarrow> block_buffer \<times> sched
    \<Rightarrow> (block_buffer \<times> sched) result" where
  "fill ff = (\<lambda>(b, s). if full_p b then Inr (b, s) else ff (b\<lparr>bb_state := bb_state b OR eRequested\<rparr>, s))"

text \<open>
  \<^verbatim>\<open>wait\<close> up to the point where it returns, or the thread stops in \<^verbatim>\<open>io_wait\<close>; \<open>resumed\<close> is what it does when the thread
  runs again.
\<close>

definition buffer_wait :: "(block_buffer \<times> sched \<Rightarrow> (block_buffer \<times> sched) result) \<Rightarrow> block_buffer \<times> sched
    \<Rightarrow> (block_buffer \<times> sched) result" where
  "buffer_wait ff = (\<lambda>(b, s).
    bind_result (start_io s) (\<lambda>s.
    bind_result (buffer_sync (\<lambda>(b, s).
        if full_p b then Inr (True, b, s)
        else bind_result (if bb_state b AND eRequested = 0 then fill ff (b, s) else Inr (b, s)) (\<lambda>(b, s).
               Inr (False, b\<lparr>bb_waiting := s_current s\<rparr>, s))) (b, s)) (\<lambda>(done, b, s).
      if done then Inr (b, s) else bind_result (io_wait s) (\<lambda>s. Inr (b, s)))))"

definition buffer_resumed :: "block_buffer \<Rightarrow> unit result" where
  "buffer_resumed b = assert_that (full_p b)"

text \<open>\<^verbatim>\<open>busy_wait\<close>; \<open>halt k\<close> is what happens while the processor is halted for the \<open>k\<close>-th time.\<close>

partial_function (option) halt_until_full :: "(nat \<Rightarrow> block_buffer \<times> sched \<Rightarrow> block_buffer \<times> sched) \<Rightarrow> nat \<Rightarrow> block_buffer \<times> sched
    \<Rightarrow> (block_buffer \<times> sched) option" where
  "halt_until_full halt k bs = (if full_p (fst bs) then Some bs else halt_until_full halt (Suc k) (halt k bs))"

definition busy_wait :: "(block_buffer \<times> sched \<Rightarrow> (block_buffer \<times> sched) result) \<Rightarrow> (nat \<Rightarrow> block_buffer \<times> sched \<Rightarrow> block_buffer \<times> sched)
    \<Rightarrow> block_buffer \<times> sched \<Rightarrow> (block_buffer \<times> sched) result" where
  "busy_wait ff halt = (\<lambda>(b, s).
    if full_p b then Inr (b, s)
    else bind_result (if bb_state b AND eRequested = 0 then fill ff (b, s) else Inr (b, s)) (\<lambda>(b, s).
      if full_p b then Inr (b, s)
      else let (st, ints) = enable_interrupts (s_ints s)
           in case halt_until_full halt 0 (b, s\<lparr>s_ints := ints\<rparr>) of
                None \<Rightarrow> Inl Diverges
              | Some (b, s) \<Rightarrow> Inr (b, s\<lparr>s_ints := restore_interrupts st (s_ints s)\<rparr>)))"


subsection \<open>Devices\<close>

text \<open>A device with \<open>dv_parent\<close> is a \<^verbatim>\<open>SubDevice\<close>: parent, \<^verbatim>\<open>offset_\<close> and \<^verbatim>\<open>size_\<close>.\<close>

record block_device =
  dv_name :: fixed_string
  dv_id :: int
  dv_cache :: "(region_range, nat) hash_table"
  dv_signature :: u32
  dv_parent :: "(nat \<times> u32 \<times> u32) option"

record block_state =
  bs_dev :: "nat \<Rightarrow> block_device"
  bs_next_dev :: nat
  bs_buf :: "nat \<Rightarrow> block_buffer"
  bs_next_buf :: nat
  bs_registry :: "nat \<Rightarrow> nat option"
  bs_used :: int
  bs_vfs :: vfs

definition max_devices :: int where "max_devices = 128"

definition registry_init :: "block_state \<Rightarrow> block_state" where
  "registry_init st = st\<lparr>bs_used := 0, bs_registry := (\<lambda>_. None)\<rparr>"

text \<open>The guard of \<^verbatim>\<open>get\<close> lets the index 128 through, one past the array.\<close>

definition registry_get :: "int \<Rightarrow> block_state \<Rightarrow> nat option result" where
  "registry_get f st =
    (if f < 0 \<or> f > max_devices then Inr None
     else if f < max_devices then Inr (bs_registry st (nat f)) else Inl OutOfBounds)"

definition registry_add :: "cstr \<Rightarrow> nat \<Rightarrow> block_state \<Rightarrow> (int \<times> block_state) result" where
  "registry_add junk dev st =
    bind_result (assert_that (bs_used st < max_devices)) (\<lambda>_.
      let i = bs_used st + 1;
          st = st\<lparr>bs_used := i, bs_dev := (bs_dev st)(dev := (bs_dev st dev)\<lparr>dv_id := i\<rparr>)\<rparr>
      in if \<not> i < max_devices then Inl OutOfBounds
         else let st = st\<lparr>bs_registry := (bs_registry st)(nat i := Some dev)\<rparr>
              in case add_block_device junk (of_int i) (fx_data (dv_name (bs_dev st dev))) (bs_vfs st) of
                   None \<Rightarrow> Inl Diverges
                 | Some v \<Rightarrow> Inr (i, st\<lparr>bs_vfs := v\<rparr>))"

text \<open>\<^verbatim>\<open>for_size\<close> and \<^verbatim>\<open>request\<close>; \<open>fresh\<close> gives the bytes of newly allocated memory.\<close>

definition for_size :: "(nat \<Rightarrow> u8) \<Rightarrow> nat \<Rightarrow> u32 \<Rightarrow> block_state \<Rightarrow> nat \<times> block_state" where
  "for_size fresh dev n st =
    (bs_next_buf st, st\<lparr>bs_buf := (bs_buf st)(bs_next_buf st := block_buffer_new n (map fresh [0..<unat n]) dev),
       bs_next_buf := Suc (bs_next_buf st)\<rparr>)"

definition request :: "(nat \<Rightarrow> u8) \<Rightarrow> nat \<Rightarrow> region_range \<Rightarrow> block_state \<Rightarrow> nat \<times> block_state" where
  "request fresh dev rng st =
    (case ht_fetch region_hash region_eq rng (dv_cache (bs_dev st dev)) of
       Some b \<Rightarrow> (b, st)
     | None \<Rightarrow>
         let (b, st) = for_size fresh dev (num_bytes rng) st;
             st = st\<lparr>bs_buf := (bs_buf st)(b := (bs_buf st b)\<lparr>bb_range := rng\<rparr>)\<rparr>
         in (b, st\<lparr>bs_dev := (bs_dev st)(dev := (bs_dev st dev)\<lparr>dv_cache := ht_store region_hash region_eq rng b (dv_cache (bs_dev st dev))\<rparr>)\<rparr>))"

text \<open>The disk that serves a device: \<^verbatim>\<open>SubDevice::fulfill\<close> hands the buffer to its parent as it is.\<close>

partial_function (option) fulfiller :: "block_state \<Rightarrow> nat \<Rightarrow> nat option" where
  "fulfiller st d = (case dv_parent (bs_dev st d) of None \<Rightarrow> Some d | Some p \<Rightarrow> fulfiller st (fst p))"

text \<open>
  The state when \<^verbatim>\<open>wait\<close> or \<^verbatim>\<open>busy_wait\<close> of a single waiting thread is over: the buffer is full with what the disk delivered.  A second
  waiter, which would overwrite \<^verbatim>\<open>waiting_task_\<close>, is not part of it.
\<close>

definition await :: "(nat \<Rightarrow> region_range \<Rightarrow> u8 list) \<Rightarrow> nat \<Rightarrow> block_state \<Rightarrow> block_state result" where
  "await io b st =
    (if full_p (bs_buf st b) then Inr st
     else case fulfiller st (bb_device (bs_buf st b)) of
            None \<Rightarrow> Inl Diverges
          | Some d \<Rightarrow> Inr (st\<lparr>bs_buf := (bs_buf st)(b := (bs_buf st b)\<lparr>bb_data := io d (bb_range (bs_buf st b)),
                bb_state := bb_state (bs_buf st b) OR eRequested OR eFull\<rparr>)\<rparr>))"

definition get_region :: "(nat \<Rightarrow> u8) \<Rightarrow> (nat \<Rightarrow> region_range \<Rightarrow> u8 list) \<Rightarrow> nat \<Rightarrow> region_range \<Rightarrow> block_state \<Rightarrow> (nat \<times> block_state) result" where
  "get_region fresh io dev rng st =
    (let (b, st) = request fresh dev rng st in bind_result (await io b st) (\<lambda>st. Inr (b, st)))"

text \<open>\<^verbatim>\<open>memcpy\<close> out of the memory of a buffer; copying no byte touches no memory.\<close>

definition buffer_read :: "block_buffer \<Rightarrow> nat \<Rightarrow> nat \<Rightarrow> u8 list result" where
  "buffer_read b off n =
    (if 0 < n \<and> (bb_freed b \<or> off + n > length (bb_data b)) then Inl OutOfBounds else Inr (take n (drop off (bb_data b))))"

function read_regions :: "(nat \<Rightarrow> u8) \<Rightarrow> (nat \<Rightarrow> region_range \<Rightarrow> u8 list) \<Rightarrow> nat \<Rightarrow> u32 \<Rightarrow> u32 \<Rightarrow> u8 list \<Rightarrow> block_state
    \<Rightarrow> (u8 list \<times> block_state) result" where
  "read_regions fresh io dev cur_region left out st =
    (if left > 0
     then let cur_region = cur_region + 1
          in case get_region fresh io dev (cur_region, 1) st of
               Inl e \<Rightarrow> Inl e
             | Inr (b, st) \<Rightarrow>
                 if left > cRegionSize
                 then case buffer_read (bs_buf st b) 0 (unat cRegionSize) of
                        Inl e \<Rightarrow> Inl e
                      | Inr bytes \<Rightarrow> read_regions fresh io dev cur_region (left - cRegionSize) (out @ bytes) st
                 else bind_result (buffer_read (bs_buf st b) 0 (unat left)) (\<lambda>bytes. Inr (out @ bytes, st))
     else Inr (out, st))"
  by pat_completeness auto
termination
  by (relation "measure (\<lambda>(_, _, _, _, left, _, _). unat left)")
    (auto simp: cRegionSize_def unat_sub word_le_nat_alt word_less_nat_alt)

declare read_regions.simps [simp del]

text \<open>\<^verbatim>\<open>Device::read_bytes\<close>: the bytes it puts at \<^verbatim>\<open>out_buffer\<close> and the count it returns.\<close>

definition block_read_bytes :: "(nat \<Rightarrow> u8) \<Rightarrow> (nat \<Rightarrow> region_range \<Rightarrow> u8 list) \<Rightarrow> nat \<Rightarrow> u32 \<Rightarrow> u32 \<Rightarrow> block_state
    \<Rightarrow> (u32 \<times> u8 list \<times> block_state) result" where
  "block_read_bytes fresh io dev offset sz st =
    (let cur_region = offset div cRegionSize; initial_offset = offset mod cRegionSize; left = sz
     in bind_result (get_region fresh io dev (cur_region, 1) st) (\<lambda>(b, st).
        if left > BlockSize
        then let copy_bytes = cRegionSize - initial_offset
             in bind_result (buffer_read (bs_buf st b) (unat initial_offset) (unat copy_bytes)) (\<lambda>bytes.
                bind_result (read_regions fresh io dev cur_region (left - copy_bytes) bytes st) (\<lambda>(out, st). Inr (sz, out, st)))
        else bind_result (buffer_read (bs_buf st b) (unat initial_offset) (unat left)) (\<lambda>out. Inr (sz, out, st))))"

text \<open>The partition table of the first region: entry \<open>i\<close> has its type, first sector and number of sectors.\<close>

definition le32 :: "u8 list \<Rightarrow> nat \<Rightarrow> u32" where
  "le32 d i = ucast (d ! i) OR push_bit 8 (ucast (d ! (i + 1))) OR push_bit 16 (ucast (d ! (i + 2))) OR push_bit 24 (ucast (d ! (i + 3)))"

definition dos_type :: "u8 list \<Rightarrow> nat \<Rightarrow> u8" where "dos_type d i = d ! (446 + 16 * i + 4)"
definition dos_lba :: "u8 list \<Rightarrow> nat \<Rightarrow> u32" where "dos_lba d i = le32 d (446 + 16 * i + 8)"
definition dos_sectors :: "u8 list \<Rightarrow> nat \<Rightarrow> u32" where "dos_sectors d i = le32 d (446 + 16 * i + 12)"

definition fixed_new :: fixed_string where "fixed_new = \<lparr>fx_data = (\<lambda>_. 0), fx_size = 0\<rparr>"

definition block_device_new :: "cstr \<Rightarrow> (nat \<times> u32 \<times> u32) option \<Rightarrow> block_device" where
  "block_device_new name parent =
    \<lparr>dv_name = fixed_set 8 name fixed_new, dv_id = 0, dv_cache = ht_new, dv_signature = 0, dv_parent = parent\<rparr>"

definition add_partition :: "cstr \<Rightarrow> nat \<Rightarrow> u8 list \<Rightarrow> nat \<Rightarrow> block_state \<Rightarrow> block_state result" where
  "add_partition junk dev d i st =
    (if dos_type d i \<noteq> 0
     then bind_result (fixed_push 8 (0x30 + of_nat i) (fixed_set 8 (fx_data (dv_name (bs_dev st dev))) fixed_new)) (\<lambda>name.
       let sub = bs_next_dev st;
           st = st\<lparr>bs_dev := (bs_dev st)(sub := block_device_new (fx_data name) (Some (dev, dos_lba d i, dos_sectors d i))),
                   bs_next_dev := Suc sub\<rparr>
       in bind_result (registry_add junk sub st) (\<lambda>(_, st). Inr st))
     else Inr st)"

definition detect_partitions :: "cstr \<Rightarrow> (nat \<Rightarrow> u8) \<Rightarrow> (nat \<Rightarrow> region_range \<Rightarrow> u8 list) \<Rightarrow> nat \<Rightarrow> block_state \<Rightarrow> block_state result" where
  "detect_partitions junk fresh io dev st =
    bind_result (get_region fresh io dev (0, 1) st) (\<lambda>(b, st).
    bind_result (buffer_read (bs_buf st b) 0 512) (\<lambda>d.
    bind_result
      (if d ! 510 = 0x55 \<and> d ! 511 = 0xAA
       then fold_result (add_partition junk dev d) [0..<4]
              (st\<lparr>bs_dev := (bs_dev st)(dev := (bs_dev st dev)\<lparr>dv_signature := le32 d 440\<rparr>)\<rparr>)
       else Inr st) (\<lambda>st.
      Inr (st\<lparr>bs_buf := (bs_buf st)(b := (bs_buf st b)\<lparr>bb_freed := True\<rparr>)\<rparr>))))"


subsection \<open>What a cache holds\<close>

definition ht_all :: "('k \<times> 'v \<Rightarrow> bool) \<Rightarrow> ('k, 'v) hash_table \<Rightarrow> bool" where
  "ht_all P t \<longleftrightarrow> (\<forall>i. \<forall>e \<in> set (ht_values t i). P e)"

lemma ht_all_new [simp]: "ht_all P ht_new"
  by (simp add: ht_all_def ht_new_def)

lemma ht_all_mono: "ht_all P t \<Longrightarrow> (\<And>e. P e \<Longrightarrow> Q e) \<Longrightarrow> ht_all Q t"
  by (auto simp: ht_all_def)

lemma ht_all_fetch: "ht_all P t \<Longrightarrow> ht_fetch hash eq k t = Some v \<Longrightarrow> \<exists>k'. eq k' k \<and> P (k', v)"
  using chain_fetch_mem [of eq k _ v] by (fastforce simp: ht_all_def ht_fetch_def)

lemma set_relink: "set (relink e chain) \<subseteq> insert e (set chain)"
  by (cases chain) (auto simp: relink_def)

lemma redistribute_chain_all:
  "(\<forall>i. \<forall>e \<in> set (vals i). P e) \<Longrightarrow> (\<forall>e \<in> set chain. P e) \<Longrightarrow> \<forall>e \<in> set (redistribute_chain hash sz chain vals i). P e"
proof (induction chain arbitrary: vals)
  case (Cons e chain)
  let ?b = "find_bin (hash (fst e)) sz"
  have "P x" if "x \<in> set ((vals(?b := relink e (vals ?b))) j)" for j x
    using that Cons.prems set_relink [of e "vals ?b"] by (cases "j = ?b") (auto dest: subsetD)
  then have "\<forall>j. \<forall>x \<in> set ((vals(?b := relink e (vals ?b))) j). P x"
    by blast
  then show ?case
    using Cons.IH [of "vals(?b := relink e (vals ?b))"] Cons.prems(2) by (simp add: Let_def del: fun_upd_apply)
qed simp

lemma ht_all_redistribute: "ht_all P t \<Longrightarrow> ht_all P (redistribute hash sz t)"
proof -
  assume t: "ht_all P t"
  have step: "\<forall>i. \<forall>e \<in> set (fold (\<lambda>i vals. redistribute_chain hash sz (ht_values t i) vals) js vals i). P e"
    if "\<forall>i. \<forall>e \<in> set (vals i). P e" for js vals
    using that
  proof (induction js arbitrary: vals)
    case (Cons j js)
    have "\<forall>e \<in> set (ht_values t j). P e"
      using t by (simp add: ht_all_def)
    then have "\<forall>i. \<forall>e \<in> set (redistribute_chain hash sz (ht_values t j) vals i). P e"
      using redistribute_chain_all [OF Cons.prems] by blast
    then show ?case
      using Cons.IH [of "redistribute_chain hash sz (ht_values t j) vals"] by simp
  qed simp
  show ?thesis
    using step [where vals = "\<lambda>_. []" and js = "[0..<unat (ht_bins t)]"] by (simp add: ht_all_def redistribute_def)
qed

lemma chain_store_all:
  "\<forall>e \<in> set chain. P e \<Longrightarrow> (\<And>k'. eq k' k \<Longrightarrow> P (k', v)) \<Longrightarrow> P (k, v) \<Longrightarrow> \<forall>e \<in> set (snd (chain_store eq k v chain)). P e"
  by (induction chain) (auto split: prod.splits)

lemma ht_all_store:
  assumes "ht_all P t" "\<And>k'. eq k' k \<Longrightarrow> P (k', v)" "P (k, v)"
  shows "ht_all P (ht_store hash eq k v t)"
proof -
  let ?t = "if max_density_p t then redistribute hash (ht_bins t * 2) t else t"
  have "ht_all P ?t"
    using assms(1) ht_all_redistribute by auto
  then have "\<forall>e \<in> set (snd (chain_store eq k v (ht_values ?t (find_bin (hash k) (ht_bins ?t))))). P e"
    using assms(2,3) by (intro chain_store_all) (auto simp: ht_all_def)
  with \<open>ht_all P ?t\<close> show ?thesis
    unfolding ht_store_def Let_def by (auto simp: ht_all_def split: prod.splits if_splits)
qed

subsection \<open>Reading through the cache\<close>

lemma or_and_same: "(a OR b) AND b = b" for a b :: "'a::len word"
  by (rule bit_word_eqI) (auto simp: bit_simps)

lemma full_states [simp]: "full_p (b\<lparr>bb_data := d, bb_state := bb_state b OR eRequested OR eFull\<rparr>)"
  by (simp add: full_p_def or_and_same or.assoc [symmetric])

text \<open>
  \<open>await\<close> is the outcome of \<^verbatim>\<open>wait\<close> for one waiting thread: \<^verbatim>\<open>wait\<close> on an empty buffer requests the transfer and registers
  the running thread, the transfer puts \<open>d\<close> into the memory of the buffer, and the \<^verbatim>\<open>set_full\<close> of the interrupt handler leaves the state
  that \<open>await\<close> gives and satisfies the assertion with which \<^verbatim>\<open>wait\<close> ends.
\<close>

lemma buffer_syncE:
  assumes "buffer_sync body (b, s) = Inr (x, b', s')"
  obtains l i b1 s1 l' i' where "body (b\<lparr>bb_lock := l\<rparr>, s\<lparr>s_ints := i\<rparr>) = Inr (x, b1, s1)"
    "b' = b1\<lparr>bb_lock := l'\<rparr>" "s' = s1\<lparr>s_ints := i'\<rparr>"
  using assms by (auto simp: buffer_sync_def bind_result_def split: sum.splits)

lemma wait_requests:
  assumes ff: "\<And>b s. ff (b, s) = Inr (b, s)" and b: "\<not> full_p b" "bb_state b AND eRequested = 0"
    and w: "buffer_wait ff (b, s) = Inr (b', s')"
  obtains l c where "b' = b\<lparr>bb_state := bb_state b OR eRequested, bb_waiting := c, bb_lock := l\<rparr>"
proof -
  obtain s1 x b1 s2 where s1: "start_io s = Inr s1"
    and sy: "buffer_sync (\<lambda>(b, s).
        if full_p b then Inr (True, b, s)
        else bind_result (if bb_state b AND eRequested = 0 then fill ff (b, s) else Inr (b, s)) (\<lambda>(b, s).
               Inr (False, b\<lparr>bb_waiting := s_current s\<rparr>, s))) (b, s1) = Inr (x, b1, s2)" and b': "b' = b1"
    using w by (auto simp: buffer_wait_def bind_result_def split: sum.splits if_splits prod.splits)
  show thesis
    by (rule buffer_syncE [OF sy]) (use b ff b' that in \<open>auto simp: fill_def full_p_def\<close>)
qed

lemma wait_then_full:
  assumes ff: "\<And>b s. ff (b, s) = Inr (b, s)" and b: "\<not> full_p b" "bb_state b AND eRequested = 0"
    and w: "buffer_wait ff (b, s) = Inr (b1, s1)" and f: "set_full (b1\<lparr>bb_data := d\<rparr>, s2) = Inr (b2, s3)"
  shows "\<exists>l c. b2 = b\<lparr>bb_data := d, bb_state := bb_state b OR eRequested OR eFull, bb_waiting := c, bb_lock := l\<rparr>"
    and "buffer_resumed b2 = Inr ()"
proof -
  obtain l c where b1: "b1 = b\<lparr>bb_state := bb_state b OR eRequested, bb_waiting := c, bb_lock := l\<rparr>"
    by (rule wait_requests [OF ff b w])
  obtain s4 where sy: "buffer_sync (\<lambda>(b, s).
        let b = b\<lparr>bb_state := bb_state b OR eFull\<rparr>
        in case bb_waiting b of
             None \<Rightarrow> Inr ((), b, s)
           | Some th \<Rightarrow> bind_result (make_ready th s) (\<lambda>s. Inr ((), b, s))) (b1\<lparr>bb_data := d\<rparr>, s2) = Inr ((), b2, s4)"
    using f by (auto simp: set_full_def bind_result_def split: sum.splits)
  show b2: "\<exists>l c. b2 = b\<lparr>bb_data := d, bb_state := bb_state b OR eRequested OR eFull, bb_waiting := c, bb_lock := l\<rparr>"
    by (rule buffer_syncE [OF sy], cases b)
      (auto simp: b1 Let_def or.assoc bind_result_def split: option.splits sum.splits)
  then show "buffer_resumed b2 = Inr ()"
    by (auto simp: buffer_resumed_def assert_that_def full_p_def or_and_same or.assoc [symmetric])
qed

lemma fulfiller_parents:
  assumes "fulfiller st d = Some x" "\<And>d. dv_parent (bs_dev st' d) = dv_parent (bs_dev st d)"
  shows "fulfiller st' d = Some x"
proof -
  have "(\<forall>d. dv_parent (bs_dev st' d) = dv_parent (bs_dev st d)) \<longrightarrow> fulfiller st' d = Some x"
  proof (rule fulfiller.raw_induct [where P = "\<lambda>st d x. (\<forall>d. dv_parent (bs_dev st' d) = dv_parent (bs_dev st d)) \<longrightarrow> fulfiller st' d = Some x", OF _ assms(1)])
    fix f st d x
    assume "\<And>st d x. f st d = Some x \<Longrightarrow> (\<forall>d. dv_parent (bs_dev st' d) = dv_parent (bs_dev st d)) \<longrightarrow> fulfiller st' d = Some x"
      and "(case dv_parent (bs_dev st d) of None \<Rightarrow> Some d | Some p \<Rightarrow> f st (fst p)) = Some x"
    then show "(\<forall>d. dv_parent (bs_dev st' d) = dv_parent (bs_dev st d)) \<longrightarrow> fulfiller st' d = Some x"
      by (cases "dv_parent (bs_dev st d)") (auto simp: fulfiller.simps [of st' d] fulfiller.simps [of st' x])
  qed
  then show ?thesis
    using assms(2) by blast
qed

text \<open>
  \<open>src\<close> serves the device \<open>dev\<close>, and every buffer of its cache that is full holds what \<open>src\<close> delivers.  Only buffers of the ranges \<open>F\<close> may
  have been freed: \<^verbatim>\<open>detect_partitions\<close> frees that of the first region of a disk and leaves it in the cache.
\<close>

definition cached_but :: "region_range set \<Rightarrow> (nat \<Rightarrow> region_range \<Rightarrow> u8 list) \<Rightarrow> nat \<Rightarrow> nat \<Rightarrow> block_state \<Rightarrow> region_range \<times> nat \<Rightarrow> bool" where
  "cached_but F io dev src st = (\<lambda>(k, b). b < bs_next_buf st \<and> bb_range (bs_buf st b) = k \<and> bb_device (bs_buf st b) = dev
     \<and> (bb_freed (bs_buf st b) \<longrightarrow> k \<in> F) \<and> (full_p (bs_buf st b) \<longrightarrow> bb_data (bs_buf st b) = io src k))"

definition cache_but :: "region_range set \<Rightarrow> (nat \<Rightarrow> region_range \<Rightarrow> u8 list) \<Rightarrow> nat \<Rightarrow> nat \<Rightarrow> block_state \<Rightarrow> bool" where
  "cache_but F io dev src st \<longleftrightarrow> fulfiller st dev = Some src \<and> ht_all (cached_but F io dev src st) (dv_cache (bs_dev st dev))"

abbreviation cache_ok :: "(nat \<Rightarrow> region_range \<Rightarrow> u8 list) \<Rightarrow> nat \<Rightarrow> nat \<Rightarrow> block_state \<Rightarrow> bool" where
  "cache_ok \<equiv> cache_but {}"

lemma cached_but_later:
  assumes "cached_but F io dev src st e" "bs_next_buf st \<le> bs_next_buf st'" "\<And>b. b < bs_next_buf st \<Longrightarrow> bs_buf st' b = bs_buf st b"
  shows "cached_but F io dev src st' e"
  using assms by (auto simp: cached_but_def split: prod.splits)

lemma region_eq_iff: "region_eq a b \<longleftrightarrow> a = b"
  by (auto simp: region_eq_def prod_eq_iff)

lemma request_ok:
  assumes "cache_but F io dev src st" "request fresh dev rng st = (b, st')"
  shows "cache_but F io dev src st' \<and> cached_but F io dev src st' (rng, b)"
proof (cases "ht_fetch region_hash region_eq rng (dv_cache (bs_dev st dev))")
  case None
  let ?bb = "(block_buffer_new (num_bytes rng) (map fresh [0..<unat (num_bytes rng)]) dev)\<lparr>bb_range := rng\<rparr>"
  let ?st = "st\<lparr>bs_buf := (bs_buf st)(bs_next_buf st := ?bb), bs_next_buf := Suc (bs_next_buf st)\<rparr>"
  have st': "b = bs_next_buf st" "st' = ?st\<lparr>bs_dev := (bs_dev st)(dev := (bs_dev st dev)\<lparr>dv_cache :=
      ht_store region_hash region_eq rng b (dv_cache (bs_dev st dev))\<rparr>)\<rparr>"
    using assms(2) None by (auto simp: request_def for_size_def Let_def)
  have new: "cached_but F io dev src st' (rng, b)"
    by (simp add: st' cached_but_def block_buffer_new_def full_p_def eFree_def eFull_def)
  have "ht_all (cached_but F io dev src st') (dv_cache (bs_dev st dev))"
    using assms(1) cached_but_later [of F io dev src st _ st'] by (auto simp: cache_but_def st' elim!: ht_all_mono)
  then have "ht_all (cached_but F io dev src st') (ht_store region_hash region_eq rng b (dv_cache (bs_dev st dev)))"
    using new by (intro ht_all_store) (auto simp: region_eq_iff)
  moreover have "fulfiller st' dev = Some src"
    by (rule fulfiller_parents [of st]) (use assms(1) in \<open>auto simp: cache_but_def st'\<close>)
  ultimately show ?thesis
    using new by (simp add: cache_but_def) (simp add: st')
next
  case (Some b')
  then have "b' = b" "st' = st"
    using assms(2) by (auto simp: request_def)
  moreover obtain k where "region_eq k rng" "cached_but F io dev src st (k, b')"
    using assms(1) ht_all_fetch [OF _ Some] unfolding cache_but_def by blast
  ultimately show ?thesis
    using assms(1) by (auto simp: region_eq_iff)
qed

lemma await_ok:
  assumes "cache_but F io dev src st" "cached_but F io dev src st (rng, b)"
  shows "\<exists>st'. await io b st = Inr st' \<and> cache_but F io dev src st' \<and> bb_data (bs_buf st' b) = io src rng \<and> (bb_freed (bs_buf st' b) \<longleftrightarrow> bb_freed (bs_buf st b))"
proof (cases "full_p (bs_buf st b)")
  case True
  then show ?thesis
    using assms by (simp add: await_def cached_but_def)
next
  case False
  let ?st = "st\<lparr>bs_buf := (bs_buf st)(b := (bs_buf st b)\<lparr>bb_data := io src rng,
      bb_state := bb_state (bs_buf st b) OR eRequested OR eFull\<rparr>)\<rparr>"
  have aw: "await io b st = Inr ?st"
    using False assms by (simp add: await_def cached_but_def cache_but_def)
  have "cached_but F io dev src ?st e" if "cached_but F io dev src st e" for e
    using that assms(2) by (auto simp: cached_but_def split: prod.splits)
  then have "ht_all (cached_but F io dev src ?st) (dv_cache (bs_dev st dev))"
    using assms(1) ht_all_mono unfolding cache_but_def by blast
  moreover have "fulfiller ?st dev = Some src"
    by (rule fulfiller_parents [of st]) (use assms(1) in \<open>auto simp: cache_but_def\<close>)
  ultimately show ?thesis
    using aw assms(2) by (simp add: cache_but_def cached_but_def)
qed

lemma get_region_ok:
  assumes "cache_but F io dev src st"
  shows "\<exists>b st'. get_region fresh io dev rng st = Inr (b, st') \<and> cache_but F io dev src st'
    \<and> bb_data (bs_buf st' b) = io src rng \<and> (bb_freed (bs_buf st' b) \<longrightarrow> rng \<in> F)"
proof -
  obtain b st1 where r: "request fresh dev rng st = (b, st1)"
    by (meson surj_pair)
  have ok: "cache_but F io dev src st1" "cached_but F io dev src st1 (rng, b)"
    using request_ok [OF assms r] by blast+
  with await_ok [OF ok] r show ?thesis
    by (auto simp: get_region_def cached_but_def)
qed

text \<open>A freed buffer of the cache is handed out like any other.\<close>

lemma get_region_freed:
  assumes "fulfiller st (bb_device (bs_buf st b)) \<noteq> None" "ht_fetch region_hash region_eq rng (dv_cache (bs_dev st dev)) = Some b"
    "bb_freed (bs_buf st b)"
  shows "\<exists>st'. get_region fresh io dev rng st = Inr (b, st') \<and> bb_freed (bs_buf st' b)"
  using assms by (auto simp: get_region_def request_def await_def split: option.split)

text \<open>The hardware delivers the bytes of the medium at the positions of the range.\<close>

definition media_bytes :: "(nat \<Rightarrow> nat \<Rightarrow> u8) \<Rightarrow> nat \<Rightarrow> nat \<Rightarrow> nat \<Rightarrow> u8 list" where
  "media_bytes media d off n = map (media d) [off..<off + n]"

definition delivers :: "(nat \<Rightarrow> region_range \<Rightarrow> u8 list) \<Rightarrow> (nat \<Rightarrow> nat \<Rightarrow> u8) \<Rightarrow> bool" where
  "delivers io media \<longleftrightarrow> (\<forall>d r. io d r = media_bytes media d (1024 * unat (fst r)) (1024 * unat (snd r)))"

lemma length_media_bytes [simp]: "length (media_bytes media d off n) = n"
  by (simp add: media_bytes_def)

lemma media_bytes_sub: "k + n \<le> m \<Longrightarrow> take n (drop k (media_bytes media d off m)) = media_bytes media d (off + k) n"
  by (simp add: media_bytes_def take_map drop_map)

lemma media_bytes_append: "media_bytes media d off n @ media_bytes media d (off + n) k = media_bytes media d off (n + k)"
  by (rule nth_equalityI) (auto simp: media_bytes_def nth_append)

lemma copy_region:
  assumes "delivers io media" "bb_data b = io src (cur, 1)" "0 < n \<Longrightarrow> \<not> bb_freed b"
  shows "buffer_read b off n = (if 0 < n \<and> off + n > 1024 then Inl OutOfBounds else Inr (media_bytes media src (1024 * unat cur + off) n))"
  using assms media_bytes_sub [of off n 1024] by (auto simp: buffer_read_def delivers_def media_bytes_def)

lemma read_regions_ok:
  assumes "delivers io media" "cache_but F io dev src st" "1024 * (unat cur + 1) + unat left \<le> 1024 * 2 ^ 32"
    "\<And>r. unat cur < unat r \<Longrightarrow> 1024 * unat r < 1024 * (unat cur + 1) + unat left \<Longrightarrow> (r, 1) \<notin> F"
  shows "\<exists>st'. read_regions fresh io dev cur left out st = Inr (out @ media_bytes media src (1024 * (unat cur + 1)) (unat left), st')
    \<and> cache_but F io dev src st'"
  using assms
proof (induction fresh io dev cur left out st rule: read_regions.induct)
  case (1 fresh io dev cur left out st)
  show ?case
  proof (cases "left > 0")
    case True
    then have pos: "0 < unat left"
      by (simp add: word_less_nat_alt)
    have cur: "unat (cur + 1) = unat cur + 1"
      using "1.prems"(3) pos by (simp add: unat_word_ariths)
    obtain b st1 where g: "get_region fresh io dev (cur + 1, 1) st = Inr (b, st1)" "cache_but F io dev src st1"
        "bb_data (bs_buf st1 b) = io src (cur + 1, 1)" "bb_freed (bs_buf st1 b) \<longrightarrow> (cur + 1, 1) \<in> F"
      using get_region_ok [OF "1.prems"(2)] by blast
    have live: "\<not> bb_freed (bs_buf st1 b)"
      using g(4) "1.prems"(4) [of "cur + 1"] cur pos by auto
    note cp = copy_region [OF "1.prems"(1) g(3) live, where off = 0, simplified add_0 add_0_right]
    show ?thesis
    proof (cases "left > cRegionSize")
      case True
      then have big: "1024 < unat left" and less: "unat (left - cRegionSize) = unat left - 1024"
        by (simp_all add: cRegionSize_def word_less_nat_alt unat_sub word_le_nat_alt)
      let ?m = "media_bytes media src (1024 * unat (cur + 1)) 1024"
      have c: "buffer_read (bs_buf st1 b) 0 (unat cRegionSize) = Inr ?m"
        using cp [of 1024] by (simp add: cRegionSize_def)
      obtain st' where "read_regions fresh io dev (cur + 1) (left - cRegionSize) (out @ ?m) st1
          = Inr ((out @ ?m) @ media_bytes media src (1024 * (unat (cur + 1) + 1)) (unat (left - cRegionSize)), st')"
          "cache_but F io dev src st'"
        using "1.IH" [OF \<open>left > 0\<close> refl g(1) refl True c "1.prems"(1) g(2)] "1.prems"(3,4) cur less big by auto
      moreover have "media_bytes media src (1024 * (unat cur + 1)) (unat left) = ?m @ media_bytes media src (1024 * (unat (cur + 1) + 1)) (unat (left - cRegionSize))"
        using media_bytes_append [of media src "1024 * (unat cur + 1)" 1024 "unat left - 1024"] big less cur by simp
      ultimately show ?thesis
        using \<open>left > 0\<close> True g(1) c by (simp add: read_regions.simps [of fresh io dev cur left] Let_def)
    next
      case False
      then have "unat left \<le> 1024"
        by (simp add: cRegionSize_def word_less_nat_alt)
      then have "buffer_read (bs_buf st1 b) 0 (unat left) = Inr (media_bytes media src (1024 * (unat cur + 1)) (unat left))"
        using cp [of "unat left"] cur by simp
      then show ?thesis
        using \<open>left > 0\<close> False g(1,2) by (simp add: read_regions.simps [of fresh io dev cur left] Let_def)
    qed
  next
    case False
    then have "unat left = 0"
      by (simp add: word_less_nat_alt)
    then show ?thesis
      using False "1.prems"(2) by (simp add: read_regions.simps [of fresh io dev cur left] media_bytes_def)
  qed
qed

lemma region_end: "r < 1024 \<Longrightarrow> 1024 * q + r = x \<Longrightarrow> 1024 * (q + 1) = x + (1024 - r)" for q r x :: nat
  by simp

lemma block_read_live:
  assumes "delivers io media" "cache_but F io dev src st" "unat offset + unat sz \<le> 2 ^ 32"
    and live: "\<forall>r. unat offset div 1024 \<le> unat r \<and> 1024 * unat r < unat offset + unat sz \<longrightarrow> (r, 1) \<notin> F"
  shows "if unat sz \<le> 1024 \<and> unat offset mod 1024 + unat sz > 1024
    then block_read_bytes fresh io dev offset sz st = Inl OutOfBounds
    else \<exists>st'. block_read_bytes fresh io dev offset sz st = Inr (sz, media_bytes media src (unat offset) (unat sz), st')
      \<and> cache_but F io dev src st'"
proof -
  let ?cur = "offset div cRegionSize" and ?off = "unat offset mod 1024"
  have cur: "unat ?cur = unat offset div 1024" "unat (offset mod cRegionSize) = ?off"
    by (simp_all add: cRegionSize_def unat_div unat_mod)
  obtain b st1 where g: "get_region fresh io dev (?cur, 1) st = Inr (b, st1)" "cache_but F io dev src st1"
      "bb_data (bs_buf st1 b) = io src (?cur, 1)" "bb_freed (bs_buf st1 b) \<longrightarrow> (?cur, 1) \<in> F"
    using get_region_ok [OF assms(2)] by blast
  have "1024 * (unat offset div 1024) \<le> unat offset"
    by simp
  then have fr: "0 < unat sz \<Longrightarrow> \<not> bb_freed (bs_buf st1 b)"
    using g(4) live cur(1) by fastforce
  have cp: "buffer_read (bs_buf st1 b) ?off n = (if 0 < n \<and> ?off + n > 1024 then Inl OutOfBounds else Inr (media_bytes media src (unat offset) n))"
    if "0 < n \<longrightarrow> 0 < unat sz" for n
    using copy_region [OF assms(1) g(3), where off = ?off and n = n] fr that cur(1) by simp
  show ?thesis
  proof (cases "sz > BlockSize")
    case True
    then have big: "1024 < unat sz"
      by (simp add: BlockSize_def word_less_nat_alt)
    let ?first = "1024 - ?off"
    have f: "unat (cRegionSize - offset mod cRegionSize) = ?first"
      using cur(2) by (simp add: unat_sub word_le_nat_alt cRegionSize_def)
    have l: "unat (sz - (cRegionSize - offset mod cRegionSize)) = unat sz - ?first"
      using f big by (simp add: unat_sub word_le_nat_alt)
    have pos: "1024 * (unat ?cur + 1) = unat offset + ?first"
      unfolding cur(1) by (rule region_end) simp_all
    have room: "1024 * (unat ?cur + 1) + unat (sz - (cRegionSize - offset mod cRegionSize)) \<le> 1024 * 2 ^ 32"
      using pos l big assms(3) by simp
    have "1024 * (unat ?cur + 1) + unat (sz - (cRegionSize - offset mod cRegionSize)) = unat offset + unat sz"
      using pos l big by simp
    then have rest: "(r, 1) \<notin> F" if "unat ?cur < unat r"
        "1024 * unat r < 1024 * (unat ?cur + 1) + unat (sz - (cRegionSize - offset mod cRegionSize))" for r
      using that live cur(1) by (auto dest: spec [of _ r])
    from read_regions_ok [OF assms(1) g(2) room rest, of fresh "media_bytes media src (unat offset) ?first"]
    obtain st' where "read_regions fresh io dev ?cur (sz - (cRegionSize - offset mod cRegionSize)) (media_bytes media src (unat offset) ?first) st1
        = Inr (media_bytes media src (unat offset) (unat sz), st')" "cache_but F io dev src st'"
      using pos l media_bytes_append [of media src "unat offset" ?first "unat sz - ?first"] big by auto
    then show ?thesis
      using True big g(1) cp [of ?first] f cur(2) by (simp add: block_read_bytes_def Let_def)
  next
    case False
    then have "unat sz \<le> 1024"
      by (simp add: BlockSize_def word_less_nat_alt)
    moreover have "(1024 < unat offset mod 1024) = False"
      by (simp add: not_less less_imp_le)
    ultimately show ?thesis
      using False g(1,2) cp [of "unat sz"] cur(2) by (simp add: block_read_bytes_def Let_def)
  qed
qed

lemma block_read_freed:
  assumes "cache_but F io dev src st" "ht_fetch region_hash region_eq (offset div 1024, 1) (dv_cache (bs_dev st dev)) = Some b"
    "bb_freed (bs_buf st b)" "0 < sz"
  shows "block_read_bytes fresh io dev offset sz st = Inl OutOfBounds"
proof -
  have "fulfiller st (bb_device (bs_buf st b)) \<noteq> None"
    using assms(1) ht_all_fetch [OF _ assms(2)] by (fastforce simp: cache_but_def cached_but_def)
  from get_region_freed [OF this assms(2,3), of fresh io]
  obtain st' where g: "get_region fresh io dev (offset div cRegionSize, 1) st = Inr (b, st')" "bb_freed (bs_buf st' b)"
    by (auto simp: cRegionSize_def)
  have "offset mod cRegionSize < cRegionSize"
    unfolding cRegionSize_def by (rule word_mod_less_divisor) simp
  then have "0 < unat (cRegionSize - offset mod cRegionSize)" "0 < unat sz"
    using assms(4) by (simp_all add: unat_sub word_le_nat_alt word_less_nat_alt)
  then show ?thesis
    using g by (simp add: block_read_bytes_def buffer_read_def Let_def)
qed

text \<open>
  C9: Reading a block device.  Any number of bytes from any offset gives exactly the bytes of the disk there, through the
  cache or not, if no region that is read has a freed buffer in the cache, unless the request is for at most 1024 bytes and crosses a region: then the
  code copies past the end of the buffer of the first region.  If the cached buffer of the first region was freed, as
  \<^verbatim>\<open>detect_partitions\<close> does with region 0 of every disk, the code copies out of freed memory.  The disk is the one at the end of the chain of
  parents, with the same offset, so a partition reads the start of its disk.
\<close>

theorem block_read_bytes_result:
  assumes "delivers io media" and "cache_but F io dev src st" and "unat offset + unat sz \<le> 2 ^ 32"
  shows "((\<forall>r. unat offset div 1024 \<le> unat r \<and> 1024 * unat r < unat offset + unat sz \<longrightarrow> (r, 1) \<notin> F) \<longrightarrow>
      (if unat sz \<le> 1024 \<and> unat offset mod 1024 + unat sz > 1024
       then block_read_bytes fresh io dev offset sz st = Inl OutOfBounds
       else \<exists>st'. block_read_bytes fresh io dev offset sz st = Inr (sz, media_bytes media src (unat offset) (unat sz), st')
         \<and> cache_but F io dev src st'))
    \<and> (\<forall>b. ht_fetch region_hash region_eq (offset div 1024, 1) (dv_cache (bs_dev st dev)) = Some b \<and> bb_freed (bs_buf st b) \<and> 0 < sz \<longrightarrow>
        block_read_bytes fresh io dev offset sz st = Inl OutOfBounds)"
  using block_read_live [OF assms] block_read_freed [OF assms(2)] by blast

definition demo_blocks :: block_state where
  "demo_blocks = \<lparr>bs_dev = (\<lambda>d. block_device_new (\<lambda>_. 0) (if d = 1 then Some (0, 2048, 4096) else None)), bs_next_dev = 2,
     bs_buf = (\<lambda>_. block_buffer_new 0 [] 0), bs_next_buf = 0, bs_registry = (\<lambda>_. None), bs_used = 0, bs_vfs = demo_vfs\<rparr>"

definition demo_media :: "nat \<Rightarrow> nat \<Rightarrow> u8" where
  "demo_media d k = of_nat (k + d)"

definition demo_drive :: "nat \<Rightarrow> region_range \<Rightarrow> u8 list" where
  "demo_drive d r = media_bytes demo_media d (1024 * unat (fst r)) (1024 * unat (snd r))"

lemma demo_blocks_cache: "cache_ok io 1 0 demo_blocks"
proof -
  have "fulfiller demo_blocks 1 = Some 0"
    by (simp add: fulfiller.simps demo_blocks_def block_device_new_def)
  then show ?thesis
    by (simp add: cache_but_def) (simp add: demo_blocks_def block_device_new_def)
qed

lemma demo_blocks_ok: "delivers demo_drive demo_media" "cache_ok demo_drive 1 0 demo_blocks"
  using demo_blocks_cache by (simp_all add: delivers_def demo_drive_def)

subsection \<open>The disk after the search for partitions\<close>

lemma chain_store_fetch: "eq k k \<Longrightarrow> chain_fetch eq k (snd (chain_store eq k v chain)) = Some v"
  by (induction chain) (auto split: prod.splits)

lemma ht_store_fetch: "eq k k \<Longrightarrow> ht_fetch hash eq k (ht_store hash eq k v t) = Some v"
  using chain_store_fetch [of eq k v] by (auto simp: ht_store_def ht_fetch_def Let_def split: prod.split) (metis snd_conv)+

lemma get_region_cached:
  "get_region fresh io dev rng st = Inr (b, st') \<Longrightarrow> ht_fetch region_hash region_eq rng (dv_cache (bs_dev st' dev)) = Some b
    \<and> bs_next_dev st' = bs_next_dev st \<and> dv_parent (bs_dev st' dev) = dv_parent (bs_dev st dev)"
  using ht_store_fetch [of region_eq rng region_hash]
  by (auto simp: get_region_def request_def for_size_def await_def region_eq_def Let_def bind_result_def split: option.splits if_splits sum.splits)

lemma add_partition_frame:
  "add_partition junk dev d i st = Inr st' \<Longrightarrow> dev < bs_next_dev st
    \<Longrightarrow> bs_buf st' = bs_buf st \<and> bs_next_buf st' = bs_next_buf st \<and> bs_dev st' dev = bs_dev st dev \<and> bs_next_dev st \<le> bs_next_dev st'"
  by (auto simp: add_partition_def registry_add_def Let_def bind_result_def assert_that_def split: if_splits sum.splits option.splits)

lemma add_partitions_frame:
  "fold_result (add_partition junk dev d) is st = Inr st' \<Longrightarrow> dev < bs_next_dev st
    \<Longrightarrow> bs_buf st' = bs_buf st \<and> bs_next_buf st' = bs_next_buf st \<and> bs_dev st' dev = bs_dev st dev"
proof (induction "is" arbitrary: st)
  case (Cons i "is")
  then obtain st1 where "add_partition junk dev d i st = Inr st1" "fold_result (add_partition junk dev d) is st1 = Inr st'"
    by (auto simp: bind_result_def split: sum.splits)
  with Cons add_partition_frame show ?case
    by fastforce
qed simp

text \<open>After \<^verbatim>\<open>detect_partitions\<close> the cache of a disk has the freed buffer of region 0, and no other.\<close>

lemma detect_partitions_frees:
  assumes "cache_ok io dev dev st" "dv_parent (bs_dev st dev) = None" "dev < bs_next_dev st"
    and run: "detect_partitions junk fresh io dev st = Inr st'"
  shows "cache_but {(0, 1)} io dev dev st'"
    and "\<exists>b. ht_fetch region_hash region_eq (0, 1) (dv_cache (bs_dev st' dev)) = Some b \<and> bb_freed (bs_buf st' b)"
proof -
  obtain b st1 where g: "get_region fresh io dev (0, 1) st = Inr (b, st1)" "cache_ok io dev dev st1"
    using get_region_ok [OF assms(1)] by blast
  note c = get_region_cached [OF g(1)]
  obtain st2 where st2: "bs_buf st2 = bs_buf st1" "bs_next_buf st2 = bs_next_buf st1" "dv_cache (bs_dev st2 dev) = dv_cache (bs_dev st1 dev)"
      "dv_parent (bs_dev st2 dev) = dv_parent (bs_dev st1 dev)"
      "st' = st2\<lparr>bs_buf := (bs_buf st2)(b := (bs_buf st2 b)\<lparr>bb_freed := True\<rparr>)\<rparr>"
    using run g(1) c assms(3) by (auto simp: detect_partitions_def bind_result_def split: sum.splits if_splits dest!: add_partitions_frame)
  have "bb_range (bs_buf st1 b) = (0, 1)"
    using g(2) c ht_all_fetch [of "cached_but {} io dev dev st1"] by (fastforce simp: cache_but_def cached_but_def region_eq_iff)
  then have "cached_but {(0, 1)} io dev dev st' e" if "cached_but {} io dev dev st1 e" for e
    using that st2(1,2,5) by (auto simp: cached_but_def full_p_def split: prod.splits)
  then have "ht_all (cached_but {(0, 1)} io dev dev st') (dv_cache (bs_dev st1 dev))"
    using g(2) ht_all_mono unfolding cache_but_def by blast
  moreover have "fulfiller st' dev = Some dev"
    using st2(4,5) c assms(2) by (simp add: fulfiller.simps)
  ultimately show "cache_but {(0, 1)} io dev dev st'"
    using st2(3,5) by (simp add: cache_but_def)
  show "\<exists>b. ht_fetch region_hash region_eq (0, 1) (dv_cache (bs_dev st' dev)) = Some b \<and> bb_freed (bs_buf st' b)"
    using c st2 by auto
qed

lemma demo_disk_cache: "cache_ok io 0 0 demo_blocks"
proof -
  have "fulfiller demo_blocks 0 = Some 0"
    by (simp add: fulfiller.simps demo_blocks_def block_device_new_def)
  then show ?thesis
    by (simp add: cache_but_def) (simp add: demo_blocks_def block_device_new_def)
qed

lemma demo_disk_searched: "\<exists>st'. detect_partitions (\<lambda>_. 0) (\<lambda>_. 0) demo_drive 0 demo_blocks = Inr st'"
proof -
  obtain b st1 where g: "get_region (\<lambda>_. 0) demo_drive 0 (0, 1) demo_blocks = Inr (b, st1)"
      "bb_data (bs_buf st1 b) = demo_drive 0 (0, 1)" "\<not> bb_freed (bs_buf st1 b)"
    using get_region_ok [OF demo_disk_cache] by fastforce
  then have "buffer_read (bs_buf st1 b) 0 512 = Inr (media_bytes demo_media 0 0 512)"
    using copy_region [OF demo_blocks_ok(1), of _ 0 0 512] by simp
  moreover have "media_bytes demo_media 0 0 512 ! 510 \<noteq> 0x55"
    by (simp add: media_bytes_def demo_media_def)
  ultimately show ?thesis
    using g(1) by (simp add: detect_partitions_def)
qed

theorem block_read_bytes_result_witness:
  "(\<exists>st'. block_read_bytes (\<lambda>_. 0) demo_drive 1 100 3 demo_blocks = Inr (3, [100, 101, 102], st'))
   \<and> block_read_bytes (\<lambda>_. 0) demo_drive 1 1000 100 demo_blocks = Inl OutOfBounds
   \<and> (\<exists>st'. detect_partitions (\<lambda>_. 0) (\<lambda>_. 0) demo_drive 0 demo_blocks = Inr st'
        \<and> block_read_bytes (\<lambda>_. 0) demo_drive 0 0 3 st' = Inl OutOfBounds
        \<and> (\<exists>st''. block_read_bytes (\<lambda>_. 0) demo_drive 0 1124 3 st' = Inr (3, [100, 101, 102], st'')))"
proof -
  have m: "media_bytes demo_media 0 100 3 = [100, 101, 102]" "media_bytes demo_media 0 1124 3 = [100, 101, 102]"
    by (simp_all add: media_bytes_def demo_media_def upt_rec)
  obtain st' where st': "detect_partitions (\<lambda>_. 0) (\<lambda>_. 0) demo_drive 0 demo_blocks = Inr st'"
    using demo_disk_searched by blast
  have disk: "dv_parent (bs_dev demo_blocks 0) = None" "0 < bs_next_dev demo_blocks"
    by (simp_all add: demo_blocks_def block_device_new_def)
  note freed = detect_partitions_frees [OF demo_disk_cache disk st']
  have "block_read_bytes (\<lambda>_. 0) demo_drive 0 0 3 st' = Inl OutOfBounds"
    using block_read_bytes_result [OF demo_blocks_ok(1) freed(1), of 0 3 "\<lambda>_. 0"] freed(2) by auto
  moreover have "\<exists>st''. block_read_bytes (\<lambda>_. 0) demo_drive 0 1124 3 st' = Inr (3, [100, 101, 102], st'')"
    using block_read_bytes_result [OF demo_blocks_ok(1) freed(1), of 1124 3 "\<lambda>_. 0"] m(2) by auto
  ultimately show ?thesis
    using block_read_bytes_result [OF demo_blocks_ok, of 100 3 "\<lambda>_. 0"] block_read_bytes_result [OF demo_blocks_ok, of 1000 100 "\<lambda>_. 0"]
      m(1) st' by auto
qed

end
