(* ===== verification/Ext2.thy ===== *)
theory Ext2
  imports Block_Device
begin

text \<open>
  The ext2 file system of \<^verbatim>\<open>ext2.cpp\<close>, which only reads.  A structure on the disk is decoded from its bytes at the
  offsets its C declaration gives.  The state is the file system object with the block devices
  below it; nodes are named by numbers.
\<close>

subsection \<open>Structures on the disk\<close>

definition le16 :: "u8 list \<Rightarrow> nat \<Rightarrow> u16" where
  "le16 d i = ucast (d ! i) OR push_bit 8 (ucast (d ! (i + 1)))"

definition cMagic :: u16 where "cMagic = 0xEF53"
definition eRootInode :: u32 where "eRootInode = 2"
definition NumDirectBlocks :: u32 where "NumDirectBlocks = 12"
definition eIndirectBlock :: nat where "eIndirectBlock = 12"
definition eDoubleIndirectBlock :: nat where "eDoubleIndirectBlock = 13"
definition eTripleIndirectBlock :: nat where "eTripleIndirectBlock = 14"
definition eIFDir :: u16 where "eIFDir = 0x4000"
definition eIFMask :: u16 where "eIFMask = 0xF000"

text \<open>The fields of \<^verbatim>\<open>SuperBlock\<close> that the code reads; the structure has 1024 bytes.\<close>

record super_block =
  sb_blocks_count :: u32
  sb_first_data_block :: u32
  sb_log_block_size :: u32
  sb_blocks_per_group :: u32
  sb_inodes_per_group :: u32
  sb_magic :: u16
  sb_inode_size :: u16

definition super_block_of :: "u8 list \<Rightarrow> super_block" where
  "super_block_of d = \<lparr>sb_blocks_count = le32 d 4, sb_first_data_block = le32 d 20, sb_log_block_size = le32 d 24,
     sb_blocks_per_group = le32 d 32, sb_inodes_per_group = le32 d 40, sb_magic = le16 d 56, sb_inode_size = le16 d 88\<rparr>"

definition validate :: "super_block \<Rightarrow> bool" where "validate sb \<longleftrightarrow> sb_magic sb = cMagic"

text \<open>An inode: \<open>i_blocks\<close> are the twelve direct block numbers and the three indirect ones that follow them.\<close>

record inode =
  i_mode :: u16
  i_uid :: u16
  i_size :: u32
  i_gid :: u16
  i_block_count :: u32
  i_blocks :: "u32 list"

definition inode_of :: "u8 list \<Rightarrow> inode" where
  "inode_of d = \<lparr>i_mode = le16 d 0, i_uid = le16 d 2, i_size = le32 d 4, i_gid = le16 d 24, i_block_count = le32 d 28,
     i_blocks = map (\<lambda>k. le32 d (40 + 4 * k)) [0..<15]\<rparr>"

definition directory_p :: "inode \<Rightarrow> bool" where
  "directory_p obj \<longleftrightarrow> (i_mode obj AND eIFMask) AND eIFDir = eIFDir"

text \<open>\<^verbatim>\<open>GroupDesc\<close> has 32 bytes; only its inode table is used.\<close>

definition group_inode_table :: "u8 list \<Rightarrow> nat \<Rightarrow> u32" where
  "group_inode_table d g = le32 d (32 * g + 8)"


subsection \<open>The file system object\<close>

record ext2_node =
  en_name :: cstr
  en_mask :: u32
  en_uid :: u32
  en_gid :: u32
  en_flags :: u32
  en_inode :: u32
  en_length :: u32

record ext2_fs =
  ex_device :: nat
  ex_super :: super_block
  ex_total_groups :: u32
  ex_groups :: "u8 list"
  ex_block_per_region :: u32
  ex_bytes_per_block :: u32
  ex_inode_per_block :: u32
  ex_ids_per_block :: u32
  ex_ids_per_second_level :: u32
  ex_in_use :: "(u32, nat) hash_table"
  ex_cache :: "(u32 \<times> u32, nat) hash_table"
  ex_nodes :: "nat \<Rightarrow> ext2_node"
  ex_next_node :: nat

text \<open>The constructor; \<open>raw\<close> is the memory of the object.\<close>

definition ext2_new :: "nat \<Rightarrow> ext2_fs \<Rightarrow> ext2_fs" where
  "ext2_new dev raw = raw\<lparr>ex_device := dev, ex_block_per_region := 1, ex_bytes_per_block := 1024, ex_ids_per_block := 256,
     ex_ids_per_second_level := 256 * 256, ex_in_use := ht_new, ex_cache := ht_new\<rparr>"

definition b2r :: "ext2_fs \<Rightarrow> u32 \<Rightarrow> u32" where
  "b2r fs block = block * ex_block_per_region fs"

definition find_in_use :: "u32 \<Rightarrow> ext2_fs \<Rightarrow> nat option" where
  "find_in_use ino fs = ht_fetch identity_hash identity_eq ino (ex_in_use fs)"

definition make_in_use :: "u32 \<Rightarrow> nat \<Rightarrow> ext2_fs \<Rightarrow> ext2_fs" where
  "make_in_use ino node fs = fs\<lparr>ex_in_use := ht_store identity_hash identity_eq ino node (ex_in_use fs)\<rparr>"

definition async_read_block :: "(nat \<Rightarrow> u8) \<Rightarrow> u32 \<Rightarrow> u32 \<Rightarrow> ext2_fs \<Rightarrow> block_state \<Rightarrow> nat \<times> block_state" where
  "async_read_block fresh block n fs st = request fresh (ex_device fs) (b2r fs block, b2r fs n) st"

definition read_block :: "(nat \<Rightarrow> u8) \<Rightarrow> (nat \<Rightarrow> region_range \<Rightarrow> u8 list) \<Rightarrow> u32 \<Rightarrow> u32 \<Rightarrow> ext2_fs \<Rightarrow> block_state \<Rightarrow> (nat \<times> block_state) result" where
  "read_block fresh io block n fs st = get_region fresh io (ex_device fs) (b2r fs block, b2r fs n) st"

text \<open>\<^verbatim>\<open>index<u32>\<close> of a buffer, and the block with the number read there: \<open>None\<close> for number 0.\<close>

definition buffer_index :: "block_buffer \<Rightarrow> u32 \<Rightarrow> u32 result" where
  "buffer_index b i = bind_result (buffer_read b (4 * unat i) 4) (\<lambda>d. Inr (le32 d 0))"

definition follow :: "(nat \<Rightarrow> u8) \<Rightarrow> (nat \<Rightarrow> region_range \<Rightarrow> u8 list) \<Rightarrow> ext2_fs \<Rightarrow> nat \<Rightarrow> u32 \<Rightarrow> block_state \<Rightarrow> (nat option \<times> block_state) result" where
  "follow fresh io fs b i st =
    bind_result (buffer_index (bs_buf st b) i) (\<lambda>blk.
      if blk = 0 then Inr (None, st)
      else bind_result (read_block fresh io blk 1 fs st) (\<lambda>(b, st). Inr (Some b, st)))"

definition follow_path :: "(nat \<Rightarrow> u8) \<Rightarrow> (nat \<Rightarrow> region_range \<Rightarrow> u8 list) \<Rightarrow> ext2_fs \<Rightarrow> u32 \<Rightarrow> u32 list \<Rightarrow> block_state \<Rightarrow> (nat option \<times> block_state) result" where
  "follow_path fresh io fs blk path st =
    bind_result (read_block fresh io blk 1 fs st) (\<lambda>(b, st).
      fold_result (\<lambda>i (b, st). case b of None \<Rightarrow> Inr (None, st) | Some b \<Rightarrow> follow fresh io fs b i st) path (Some b, st))"

text \<open>The indices in the tables on the way to a block, with the number of the first table in the inode.\<close>

definition block_path :: "ext2_fs \<Rightarrow> u32 \<Rightarrow> nat \<times> u32 list" where
  "block_path fs block =
    (if block < NumDirectBlocks then (unat block, [])
     else let block = block - NumDirectBlocks
          in if block < ex_ids_per_block fs then (eIndirectBlock, [block])
             else let block = block - ex_ids_per_block fs
                  in if block < ex_ids_per_second_level fs
                     then (eDoubleIndirectBlock, [block div ex_ids_per_block fs, block mod ex_ids_per_block fs])
                     else let block = block - ex_ids_per_second_level fs
                          in (eTripleIndirectBlock, [block div ex_ids_per_second_level fs, block div ex_ids_per_block fs,
                                                     block mod ex_ids_per_block fs]))"

definition read_inode_block :: "(nat \<Rightarrow> u8) \<Rightarrow> (nat \<Rightarrow> region_range \<Rightarrow> u8 list) \<Rightarrow> u32 \<Rightarrow> inode \<Rightarrow> u32 \<Rightarrow> ext2_fs \<times> block_state
    \<Rightarrow> (nat option \<times> ext2_fs \<times> block_state) result" where
  "read_inode_block fresh io ino obj block = (\<lambda>(fs, st).
    let key = (ino, block)
    in case ht_fetch oo_hash_pair pair_eq key (ex_cache fs) of
         Some b \<Rightarrow> Inr (Some b, fs, st)
       | None \<Rightarrow>
           let (k, path) = block_path fs block
           in bind_result (follow_path fresh io fs (i_blocks obj ! k) path st) (\<lambda>(b, st).
                case b of
                  None \<Rightarrow> Inr (None, fs, st)
                | Some b \<Rightarrow> Inr (Some b, fs\<lparr>ex_cache := ht_store oo_hash_pair pair_eq key b (ex_cache fs)\<rparr>, st)))"


subsection \<open>Mounting\<close>

text \<open>A division by zero stops the processor: there is no handler for that interrupt.\<close>

definition checked_div :: "u32 \<Rightarrow> u32 \<Rightarrow> u32 result" where
  "checked_div a b = (if b = 0 then Inl Diverges else Inr (a div b))"

definition read_block_groups :: "(nat \<Rightarrow> u8) \<Rightarrow> (nat \<Rightarrow> region_range \<Rightarrow> u8 list) \<Rightarrow> ext2_fs \<times> block_state \<Rightarrow> (ext2_fs \<times> block_state) result" where
  "read_block_groups fresh io = (\<lambda>(fs, st).
    let sb = ex_super fs
    in bind_result (checked_div (sb_blocks_count sb - sb_first_data_block sb + sb_blocks_per_group sb - 1) (sb_blocks_per_group sb)) (\<lambda>total.
       let table_size = 32 * total
       in bind_result (read_block fresh io 2 total fs st) (\<lambda>(b, st).
          bind_result (buffer_read (bs_buf st b) 0 (unat table_size)) (\<lambda>d.
            Inr (fs\<lparr>ex_total_groups := total, ex_groups := d\<rparr>, st)))))"

text \<open>
  \<^verbatim>\<open>read_superblock\<close>: the result says whether a superblock was found.  The machine takes the count of a shift modulo 32.
\<close>

definition read_superblock :: "(nat \<Rightarrow> u8) \<Rightarrow> (nat \<Rightarrow> region_range \<Rightarrow> u8 list) \<Rightarrow> ext2_fs \<times> block_state \<Rightarrow> (bool \<times> ext2_fs \<times> block_state) result" where
  "read_superblock fresh io = (\<lambda>(fs, st).
    bind_result (get_region fresh io (ex_device fs) (byte2region 1024, byte2region 1024) st) (\<lambda>(b, st).
    bind_result (buffer_read (bs_buf st b) 0 1024) (\<lambda>d.
      let sb = super_block_of d
      in if \<not> validate sb then Inr (False, fs, st)
         else let bpb = push_bit (unat (sb_log_block_size sb AND 31)) 1024;
                  fs = fs\<lparr>ex_super := sb, ex_bytes_per_block := bpb\<rparr>
              in bind_result (assert_that (bpb \<ge> cRegionSize)) (\<lambda>_.
                 bind_result (checked_div bpb (ucast (sb_inode_size sb))) (\<lambda>ipb.
                   let ids = bpb div 4;
                       fs = fs\<lparr>ex_block_per_region := bpb div cRegionSize, ex_inode_per_block := ipb,
                               ex_ids_per_block := ids, ex_ids_per_second_level := ids * ids\<rparr>
                   in bind_result (read_block_groups fresh io (fs, st)) (\<lambda>(fs, st). Inr (True, fs, st)))))))"

definition ext2_add_node :: "ext2_node \<Rightarrow> ext2_fs \<Rightarrow> nat \<times> ext2_fs" where
  "ext2_add_node node fs =
    (ex_next_node fs, fs\<lparr>ex_nodes := (ex_nodes fs)(ex_next_node fs := node), ex_next_node := Suc (ex_next_node fs)\<rparr>)"

definition ext2_root :: "cstr \<Rightarrow> ext2_fs \<Rightarrow> nat \<times> ext2_fs" where
  "ext2_root junk fs =
    ext2_add_node \<lparr>en_name = junk(0 := 0x2F, 1 := 0), en_mask = 0, en_uid = 0, en_gid = 0, en_flags = FS_DIRECTORY,
      en_inode = eRootInode, en_length = 0\<rparr> fs"

definition ext2_load :: "cstr \<Rightarrow> (nat \<Rightarrow> u8) \<Rightarrow> (nat \<Rightarrow> region_range \<Rightarrow> u8 list) \<Rightarrow> nat option \<Rightarrow> ext2_fs \<Rightarrow> block_state
    \<Rightarrow> ((nat \<times> ext2_fs) option \<times> block_state) result" where
  "ext2_load junk fresh io dev raw st =
    (case dev of
       None \<Rightarrow> Inr (None, st)
     | Some dev \<Rightarrow>
         bind_result (read_superblock fresh io (ext2_new dev raw, st)) (\<lambda>(ok, fs, st).
           if ok then Inr (Some (ext2_root junk fs), st) else Inr (None, st)))"

definition ext2_init :: "fixed_string \<Rightarrow> 'l \<Rightarrow> 'l registered_fs list \<Rightarrow> 'l registered_fs list" where
  "ext2_init junk load registry = add_fs (registered_fs_new junk (str_lit ''ext2'') load) registry"


subsection \<open>Inodes and files\<close>

definition find_inode :: "(nat \<Rightarrow> u8) \<Rightarrow> (nat \<Rightarrow> region_range \<Rightarrow> u8 list) \<Rightarrow> u32 \<Rightarrow> ext2_fs \<Rightarrow> block_state \<Rightarrow> (inode \<times> block_state) result" where
  "find_inode fresh io ino fs st =
    (let adj_inode = ino - 1; inode_size = ucast (sb_inode_size (ex_super fs)) :: u32
     in bind_result (checked_div adj_inode (sb_inodes_per_group (ex_super fs))) (\<lambda>bg.
        bind_result (assert_that (bg < ex_total_groups fs)) (\<lambda>_.
        bind_result (checked_div adj_inode (ex_inode_per_block fs)) (\<lambda>nth_block.
          let block = group_inode_table (ex_groups fs) (unat bg) + nth_block;
              block_offset = adj_inode mod ex_inode_per_block fs
          in bind_result (read_block fresh io block 1 fs st) (\<lambda>(b, st).
             bind_result (buffer_read (bs_buf st b) (unat (block_offset * inode_size)) (unat inode_size)) (\<lambda>d.
               if length d < 100 then Inl OutOfBounds else Inr (inode_of d, st)))))))"

function ext2_read_loop :: "(nat \<Rightarrow> u8) \<Rightarrow> (nat \<Rightarrow> region_range \<Rightarrow> u8 list) \<Rightarrow> u32 \<Rightarrow> inode \<Rightarrow> u32 \<Rightarrow> u32 \<Rightarrow> u32 \<Rightarrow> u8 list \<Rightarrow> ext2_fs \<times> block_state
    \<Rightarrow> (u8 list \<times> ext2_fs \<times> block_state) result" where
  "ext2_read_loop fresh io ino obj bpb cur_block left out s =
    (if left > 0
     then let read_size = (if left > bpb then bpb else left)
          in if read_size = 0 then Inl Diverges
             else case read_inode_block fresh io ino obj cur_block s of
               Inl e \<Rightarrow> Inl e
             | Inr (None, s) \<Rightarrow> Inl NullDeref
             | Inr (Some b, s) \<Rightarrow>
                 (case buffer_read (bs_buf (snd s) b) 0 (unat read_size) of
                    Inl e \<Rightarrow> Inl e
                  | Inr bytes \<Rightarrow> ext2_read_loop fresh io ino obj bpb (cur_block + 1) (left - read_size) (out @ bytes) s)
     else Inr (out, s))"
  by pat_completeness auto
termination
  by (relation "measure (\<lambda>(_, _, _, _, _, _, left, _, _). unat left)")
    (auto simp: unat_sub word_le_nat_alt word_less_nat_alt unat_gt_0)

declare ext2_read_loop.simps [simp del]

text \<open>\<^verbatim>\<open>Node::read\<close>: the count it returns and the bytes it puts at \<^verbatim>\<open>user\<close>.\<close>

definition ext2_read :: "(nat \<Rightarrow> u8) \<Rightarrow> (nat \<Rightarrow> region_range \<Rightarrow> u8 list) \<Rightarrow> u32 \<Rightarrow> u32 \<Rightarrow> u32 \<Rightarrow> ext2_fs \<times> block_state
    \<Rightarrow> (u32 \<times> u8 list \<times> ext2_fs \<times> block_state) result" where
  "ext2_read fresh io ino offset sz = (\<lambda>(fs, st).
    bind_result (find_inode fresh io ino fs st) (\<lambda>(obj, st).
      let bpb = ex_bytes_per_block fs
      in bind_result (checked_div offset bpb) (\<lambda>cur_block.
         let initial_offset = offset mod bpb;
             b1_size = (if bpb - initial_offset > sz then sz else bpb - initial_offset)
         in bind_result (read_inode_block fresh io ino obj cur_block (fs, st)) (\<lambda>(b, s).
              case b of
                None \<Rightarrow> Inl NullDeref
              | Some b \<Rightarrow>
                  bind_result (buffer_read (bs_buf (snd s) b) (unat initial_offset) (unat b1_size)) (\<lambda>out.
                    let left = sz - b1_size
                    in if left = 0 then Inr (sz, out, s)
                       else bind_result (ext2_read_loop fresh io ino obj bpb (cur_block + 1) left out s) (\<lambda>(out, s). Inr (sz, out, s)))))))"

text \<open>
  The loop of \<^verbatim>\<open>finddir\<close> over the first block of a directory; \<open>d\<close> are its bytes, and memory behind them is unknown.  An
  entry of length 0 is looked at for ever.
\<close>

definition entry_name :: "(nat \<Rightarrow> u8) \<Rightarrow> u8 list \<Rightarrow> nat \<Rightarrow> cstr" where
  "entry_name behind d pos = (\<lambda>i. if pos + 8 + i < length d then d ! (pos + 8 + i) else behind (pos + 8 + i - length d))"

function dir_search :: "(nat \<Rightarrow> u8) \<Rightarrow> u8 list \<Rightarrow> cstr \<Rightarrow> nat \<Rightarrow> nat \<Rightarrow> nat option result" where
  "dir_search behind d name len pos =
    (if pos < length d
     then if pos + 8 > length d then Inl OutOfBounds
          else if strncmp (entry_name behind d pos) name len = 0 then Inr (Some pos)
          else if le16 d (pos + 4) = 0 then Inl Diverges
          else dir_search behind d name len (pos + unat (le16 d (pos + 4)))
     else Inr None)"
  by pat_completeness auto
termination
  by (relation "measure (\<lambda>(_, d, _, _, pos). length d - pos)") (auto simp: unat_gt_0 intro!: diff_less_mono2)

declare dir_search.simps [simp del]

definition dir_node :: "cstr \<Rightarrow> (nat \<Rightarrow> u8) \<Rightarrow> u8 list \<Rightarrow> nat \<Rightarrow> inode \<Rightarrow> ext2_node" where
  "dir_node junk behind d pos target =
    (let n = unat (d ! (pos + 6)); name = entry_name behind d pos
     in \<lparr>en_name = (\<lambda>i. if i < n then name i else if i = n then 0 else junk i), en_mask = 0,
         en_uid = ucast (i_uid target), en_gid = ucast (i_gid target),
         en_flags = (if directory_p target then FS_DIRECTORY else FS_FILE), en_inode = le32 d pos, en_length = i_size target\<rparr>)"

definition ext2_finddir :: "cstr \<Rightarrow> (nat \<Rightarrow> u8) \<Rightarrow> (nat \<Rightarrow> region_range \<Rightarrow> u8 list) \<Rightarrow> (nat \<Rightarrow> u8) \<Rightarrow> u32 \<Rightarrow> cstr \<Rightarrow> nat \<Rightarrow> ext2_fs \<times> block_state
    \<Rightarrow> (nat option \<times> ext2_fs \<times> block_state) result" where
  "ext2_finddir junk fresh io behind ino name len = (\<lambda>(fs, st).
    bind_result (find_inode fresh io ino fs st) (\<lambda>(obj, st).
      if \<not> directory_p obj \<or> i_block_count obj = 0 then Inr (None, fs, st)
      else bind_result (read_block fresh io (i_blocks obj ! 0) 1 fs st) (\<lambda>(b, st).
           bind_result (buffer_read (bs_buf st b) 0 (unat (ex_bytes_per_block fs))) (\<lambda>d.
           bind_result (dir_search behind d name len 0) (\<lambda>found.
             case found of
               None \<Rightarrow> Inr (None, fs, st)
             | Some pos \<Rightarrow>
                 (case find_in_use (le32 d pos) fs of
                    Some node \<Rightarrow> Inr (Some node, fs, st)
                  | None \<Rightarrow>
                      bind_result (find_inode fresh io (le32 d pos) fs st) (\<lambda>(target, st).
                        let (node, fs) = ext2_add_node (dir_node junk behind d pos target) fs
                        in Inr (Some node, make_in_use (le32 d pos) node fs, st))))))))"


subsection \<open>Buffers stay as they are\<close>

definition keeps :: "block_state \<Rightarrow> block_state \<Rightarrow> bool" where
  "keeps st st' \<longleftrightarrow> bs_next_buf st \<le> bs_next_buf st' \<and> (\<forall>b < bs_next_buf st. full_p (bs_buf st b) \<longrightarrow> bs_buf st' b = bs_buf st b)"

lemma keeps_refl [simp]: "keeps st st"
  by (simp add: keeps_def)

lemma keeps_trans: "keeps st st' \<Longrightarrow> keeps st' st'' \<Longrightarrow> keeps st st''"
  by (auto simp: keeps_def)

lemma request_keeps: "request fresh dev rng st = (b, st') \<Longrightarrow> keeps st st'"
  by (auto simp: request_def for_size_def keeps_def Let_def split: option.splits)

lemma await_keeps: "await io b st = Inr st' \<Longrightarrow> keeps st st'"
  by (auto simp: await_def keeps_def split: if_splits option.splits)

text \<open>A region that was read: the buffer is full, is not freed and holds the bytes delivered.\<close>

definition holds :: "block_state \<Rightarrow> nat \<Rightarrow> u8 list \<Rightarrow> bool" where
  "holds st b d \<longleftrightarrow> b < bs_next_buf st \<and> full_p (bs_buf st b) \<and> \<not> bb_freed (bs_buf st b) \<and> bb_data (bs_buf st b) = d"

lemma holds_keeps: "holds st b d \<Longrightarrow> keeps st st' \<Longrightarrow> holds st' b d"
  by (auto simp: holds_def keeps_def)

lemma await_full: "await io b st = Inr st' \<Longrightarrow> full_p (bs_buf st' b)"
  by (auto simp: await_def split: if_splits option.splits)

lemma get_region_holds:
  assumes "cache_ok io dev src st"
  shows "\<exists>b st'. get_region fresh io dev rng st = Inr (b, st') \<and> cache_ok io dev src st' \<and> holds st' b (io src rng) \<and> keeps st st'"
proof -
  obtain b st1 where r: "request fresh dev rng st = (b, st1)"
    by (meson surj_pair)
  then have ok: "cache_ok io dev src st1" "cached_but {} io dev src st1 (rng, b)"
    using request_ok [OF assms] by blast+
  then obtain st' where a: "await io b st1 = Inr st'" "cache_ok io dev src st'" "bb_data (bs_buf st' b) = io src rng"
      "bb_freed (bs_buf st' b) \<longleftrightarrow> bb_freed (bs_buf st1 b)"
    using await_ok by blast
  moreover have "\<not> bb_freed (bs_buf st1 b)"
    using ok(2) by (simp add: cached_but_def)
  moreover have "keeps st1 st'" "keeps st st1"
    using await_keeps [OF a(1)] request_keeps [OF r] by simp_all
  moreover have "b < bs_next_buf st'"
    using ok(2) await_keeps [OF a(1)] by (auto simp: cached_but_def keeps_def)
  ultimately show ?thesis
    using r await_full [OF a(1)] by (auto simp: get_region_def holds_def intro: keeps_trans)
qed


subsection \<open>Blocks of the medium\<close>

definition block_bytes :: "(nat \<Rightarrow> nat \<Rightarrow> u8) \<Rightarrow> nat \<Rightarrow> nat \<Rightarrow> u32 \<Rightarrow> u8 list" where
  "block_bytes media src k blk = media_bytes media src (1024 * 2 ^ k * unat blk) (1024 * 2 ^ k)"

definition geometry :: "nat \<Rightarrow> ext2_fs \<Rightarrow> bool" where
  "geometry k fs \<longleftrightarrow> k \<le> 6 \<and> ex_bytes_per_block fs = 1024 * 2 ^ k \<and> ex_block_per_region fs = 2 ^ k
     \<and> ex_ids_per_block fs = 256 * 2 ^ k \<and> ex_ids_per_second_level fs = (256 * 2 ^ k) * (256 * 2 ^ k)"

definition on_disk :: "nat \<Rightarrow> u32 \<Rightarrow> bool" where
  "on_disk k blk \<longleftrightarrow> blk \<noteq> 0 \<and> unat blk * 2 ^ k < 2 ^ 32"

lemma small_k: "k \<le> 6 \<Longrightarrow> k = 0 \<or> k = 1 \<or> k = 2 \<or> k = 3 \<or> k = 4 \<or> k = 5 \<or> k = 6" for k :: nat
  by auto

lemma geometry_unat:
  assumes "geometry k fs"
  shows "unat (ex_bytes_per_block fs) = 1024 * 2 ^ k" "unat (ex_block_per_region fs) = 2 ^ k"
    "unat (ex_ids_per_block fs) = 256 * 2 ^ k" "unat (ex_ids_per_second_level fs) = (256 * 2 ^ k) * (256 * 2 ^ k)"
  using assms small_k [of k] by (auto simp: geometry_def)

lemma read_block_holds:
  assumes "delivers io media" "cache_ok io (ex_device fs) src st" "geometry k fs" "unat blk * 2 ^ k < 2 ^ 32"
  shows "\<exists>b st'. read_block fresh io blk 1 fs st = Inr (b, st') \<and> cache_ok io (ex_device fs) src st'
    \<and> holds st' b (block_bytes media src k blk) \<and> keeps st st'"
proof -
  have "unat (b2r fs blk) = unat blk * 2 ^ k"
    using assms(4) geometry_unat(2) [OF assms(3)] by (simp add: b2r_def unat_word_ariths)
  moreover have "unat (b2r fs 1) = 2 ^ k"
    using geometry_unat(2) [OF assms(3)] by (simp add: b2r_def)
  ultimately have "io src (b2r fs blk, b2r fs 1) = block_bytes media src k blk"
    using assms(1) by (simp add: delivers_def block_bytes_def mult.commute mult.left_commute mult.assoc)
  then show ?thesis
    using get_region_holds [OF assms(2), of fresh "(b2r fs blk, b2r fs 1)"] by (simp add: read_block_def)
qed

lemma length_block_bytes: "length (block_bytes media src k blk) = 1024 * 2 ^ k"
  by (simp add: block_bytes_def)

lemma buffer_read_holds:
  "holds st b d \<Longrightarrow> off + n \<le> length d \<Longrightarrow> buffer_read (bs_buf st b) off n = Inr (take n (drop off d))"
  by (simp add: holds_def buffer_read_def)

text \<open>The block number in entry \<open>i\<close> of the table in block \<open>t\<close>.\<close>

definition table_entry :: "(nat \<Rightarrow> nat \<Rightarrow> u8) \<Rightarrow> nat \<Rightarrow> nat \<Rightarrow> u32 \<Rightarrow> nat \<Rightarrow> u32" where
  "table_entry media src k t i = le32 (block_bytes media src k t) (4 * i)"

fun resolves :: "(nat \<Rightarrow> nat \<Rightarrow> u8) \<Rightarrow> nat \<Rightarrow> nat \<Rightarrow> u32 \<Rightarrow> nat list \<Rightarrow> u32 \<Rightarrow> bool" where
  "resolves media src k t [] blk \<longleftrightarrow> on_disk k t \<and> blk = t"
| "resolves media src k t (i # is) blk \<longleftrightarrow> on_disk k t \<and> i < 256 * 2 ^ k \<and> resolves media src k (table_entry media src k t i) is blk"

lemma le32_drop: "i + 4 \<le> length d \<Longrightarrow> le32 (take 4 (drop i d)) 0 = le32 d i"
  by (simp add: le32_def)

lemma follow_holds:
  assumes "delivers io media" "cache_ok io (ex_device fs) src st" "geometry k fs" "holds st b (block_bytes media src k t)"
    "unat i < 256 * 2 ^ k" "on_disk k (table_entry media src k t (unat i))"
  shows "\<exists>b' st'. follow fresh io fs b i st = Inr (Some b', st') \<and> cache_ok io (ex_device fs) src st'
    \<and> holds st' b' (block_bytes media src k (table_entry media src k t (unat i))) \<and> keeps st st'"
proof -
  have "4 * unat i + 4 \<le> length (block_bytes media src k t)"
    using assms(5) by (simp add: length_block_bytes)
  then have "buffer_index (bs_buf st b) i = Inr (table_entry media src k t (unat i))"
    using buffer_read_holds [OF assms(4)] by (simp add: buffer_index_def table_entry_def le32_drop)
  then show ?thesis
    using read_block_holds [OF assms(1-3), of "table_entry media src k t (unat i)" fresh] assms(6)
    by (auto simp: follow_def on_disk_def)
qed

lemma follow_fold:
  assumes "delivers io media" "geometry k fs"
  shows "cache_ok io (ex_device fs) src st \<Longrightarrow> holds st b (block_bytes media src k t) \<Longrightarrow> resolves media src k t (map unat path) blk
    \<Longrightarrow> \<exists>b' st'. fold_result (\<lambda>i (b, st). case b of None \<Rightarrow> Inr (None, st) | Some b \<Rightarrow> follow fresh io fs b i st) path (Some b, st) = Inr (Some b', st')
      \<and> cache_ok io (ex_device fs) src st' \<and> holds st' b' (block_bytes media src k blk) \<and> keeps st st'"
proof (induction path arbitrary: st b t)
  case (Cons i path)
  have next_ok: "on_disk k (table_entry media src k t (unat i))" "unat i < 256 * 2 ^ k"
    using Cons.prems(3) by (cases path; simp)+
  obtain b1 st1 where s1: "follow fresh io fs b i st = Inr (Some b1, st1)" "cache_ok io (ex_device fs) src st1"
      "holds st1 b1 (block_bytes media src k (table_entry media src k t (unat i)))" "keeps st st1"
    using follow_holds [OF assms(1) Cons.prems(1) assms(2) Cons.prems(2) next_ok(2,1)] by blast
  from Cons.IH [OF s1(2,3)] Cons.prems(3) s1 show ?case
    by (auto intro: keeps_trans)
qed auto

lemma follow_path_holds:
  assumes "delivers io media" "geometry k fs" "cache_ok io (ex_device fs) src st" "resolves media src k t (map unat path) blk"
  shows "\<exists>b st'. follow_path fresh io fs t path st = Inr (Some b, st') \<and> cache_ok io (ex_device fs) src st'
    \<and> holds st' b (block_bytes media src k blk) \<and> keeps st st'"
proof -
  have "unat t * 2 ^ k < 2 ^ 32"
    using assms(4) by (cases path) (simp_all add: on_disk_def)
  from read_block_holds [OF assms(1,3,2) this, of fresh] obtain b st1 where
    b: "read_block fresh io t 1 fs st = Inr (b, st1)" "cache_ok io (ex_device fs) src st1"
      "holds st1 b (block_bytes media src k t)" "keeps st st1"
    by blast
  from follow_fold [OF assms(1,2) b(2,3) assms(4), of fresh] b(1,4) show ?thesis
    by (auto simp: follow_path_def intro: keeps_trans)
qed

subsection \<open>The blocks of a file\<close>

text \<open>The ext2 mapping: twelve direct blocks, then one, two and three levels of tables.\<close>

definition std_path :: "nat \<Rightarrow> nat \<Rightarrow> nat \<times> nat list" where
  "std_path k n =
    (let ids = 256 * 2 ^ k
     in if n < 12 then (n, [])
        else if n < 12 + ids then (12, [n - 12])
        else if n < 12 + ids + ids * ids then (13, [(n - 12 - ids) div ids, (n - 12 - ids) mod ids])
        else let m = n - 12 - ids - ids * ids in (14, [m div (ids * ids), m div ids mod ids, m mod ids]))"

definition block_no :: "(nat \<Rightarrow> nat \<Rightarrow> u8) \<Rightarrow> nat \<Rightarrow> nat \<Rightarrow> inode \<Rightarrow> nat \<Rightarrow> u32" where
  "block_no media src k obj n =
    (let (j, path) = std_path k n in foldl (table_entry media src k) (i_blocks obj ! j) path)"

definition has_block :: "(nat \<Rightarrow> nat \<Rightarrow> u8) \<Rightarrow> nat \<Rightarrow> nat \<Rightarrow> inode \<Rightarrow> nat \<Rightarrow> bool" where
  "has_block media src k obj n \<longleftrightarrow> n < 12 + 256 * 2 ^ k + 2 * ((256 * 2 ^ k) * (256 * 2 ^ k))
     \<and> (let (j, path) = std_path k n in resolves media src k (i_blocks obj ! j) path (block_no media src k obj n))"

lemma tail_less: "n < a + b + 2 * c \<Longrightarrow> 0 < c \<Longrightarrow> n - a - b - c < c" for c :: nat
  by linarith

lemma block_path_std:
  assumes "geometry k fs" "unat n < 12 + 256 * 2 ^ k + 2 * ((256 * 2 ^ k) * (256 * 2 ^ k))"
  shows "\<exists>j path. block_path fs n = (j, path) \<and> std_path k (unat n) = (j, map unat path)"
proof -
  let ?I = "256 * 2 ^ k :: nat"
  note g = geometry_unat [OF assms(1)]
  have n12: "unat (n - 12) = unat n - 12" if "\<not> unat n < 12"
    using that by (simp add: unat_sub word_le_nat_alt)
  have n1: "unat (n - 12 - ex_ids_per_block fs) = unat n - 12 - ?I" if "\<not> unat n < 12 + ?I"
    using that n12 g by (simp add: unat_sub word_le_nat_alt)
  have n2: "unat (n - 12 - ex_ids_per_block fs - ex_ids_per_second_level fs) = unat n - 12 - ?I - ?I * ?I" if "\<not> unat n < 12 + ?I + ?I * ?I"
    using that n1 g by (simp add: unat_sub word_le_nat_alt)
  have third: "(unat n - 12 - ?I - ?I * ?I) div ?I mod ?I = (unat n - 12 - ?I - ?I * ?I) div ?I"
  proof -
    have "unat n - 12 - ?I - ?I * ?I < ?I * ?I"
      using assms(2) by (rule tail_less) simp
    then have "(unat n - 12 - ?I - ?I * ?I) div ?I < ?I"
      by (rule less_mult_imp_div_less)
    then show ?thesis
      by simp
  qed
  show ?thesis
    unfolding block_path_def std_path_def Let_def NumDirectBlocks_def eIndirectBlock_def eDoubleIndirectBlock_def eTripleIndirectBlock_def
    using n12 n1 n2 g third
    by (auto simp: word_less_nat_alt unat_div unat_mod)
qed

definition file_cache_ok :: "(nat \<Rightarrow> nat \<Rightarrow> u8) \<Rightarrow> nat \<Rightarrow> nat \<Rightarrow> (u32 \<Rightarrow> inode) \<Rightarrow> ext2_fs \<Rightarrow> block_state \<Rightarrow> bool" where
  "file_cache_ok media src k objs fs st \<longleftrightarrow>
    ht_all (\<lambda>((i, n), b). holds st b (block_bytes media src k (block_no media src k (objs i) (unat n)))) (ex_cache fs)"

text \<open>
  The file system is in order: the sizes belong to blocks of \<open>1024 * 2 ^ k\<close> bytes, and both caches hold what the medium has.
\<close>

definition ext2_ok :: "(nat \<Rightarrow> region_range \<Rightarrow> u8 list) \<Rightarrow> (nat \<Rightarrow> nat \<Rightarrow> u8) \<Rightarrow> nat \<Rightarrow> nat \<Rightarrow> (u32 \<Rightarrow> inode) \<Rightarrow> ext2_fs \<Rightarrow> block_state \<Rightarrow> bool" where
  "ext2_ok io media src k objs fs st \<longleftrightarrow> delivers io media \<and> geometry k fs \<and> cache_ok io (ex_device fs) src st
     \<and> file_cache_ok media src k objs fs st"

text \<open>Two states of a file system that differ in the block cache only.\<close>

definition same_fs :: "ext2_fs \<Rightarrow> ext2_fs \<Rightarrow> bool" where
  "same_fs fs fs' \<longleftrightarrow> fs' = fs\<lparr>ex_cache := ex_cache fs'\<rparr>"

lemma same_fs_refl [simp]: "same_fs fs fs"
  by (simp add: same_fs_def)

lemma same_fs_fields:
  assumes "same_fs fs fs'"
  shows "ex_device fs' = ex_device fs" "geometry k fs' = geometry k fs" "ex_bytes_per_block fs' = ex_bytes_per_block fs"
proof -
  obtain c where "fs' = fs\<lparr>ex_cache := c\<rparr>"
    using assms same_fs_def by blast
  then show "ex_device fs' = ex_device fs" "geometry k fs' = geometry k fs" "ex_bytes_per_block fs' = ex_bytes_per_block fs"
    by (simp_all add: geometry_def)
qed

lemma same_fs_trans: "same_fs fs fs' \<Longrightarrow> same_fs fs' fs'' \<Longrightarrow> same_fs fs fs''"
  unfolding same_fs_def by (metis ext2_fs.surjective ext2_fs.update_convs(11))

lemma pair_eq_iff: "pair_eq a b \<longleftrightarrow> a = b"
  by (auto simp: pair_eq_def prod_eq_iff)

lemma file_cache_keeps: "file_cache_ok media src k objs fs st \<Longrightarrow> keeps st st' \<Longrightarrow> file_cache_ok media src k objs fs st'"
  unfolding file_cache_ok_def by (erule ht_all_mono) (auto intro: holds_keeps)

lemma ext2_ok_keeps:
  "ext2_ok io media src k objs fs st \<Longrightarrow> keeps st st' \<Longrightarrow> cache_ok io (ex_device fs) src st' \<Longrightarrow> ext2_ok io media src k objs fs st'"
  by (auto simp: ext2_ok_def intro: file_cache_keeps)

lemma read_inode_block_holds:
  assumes "ext2_ok io media src k objs fs st" "has_block media src k (objs ino) (unat n)"
  shows "\<exists>b fs' st'. read_inode_block fresh io ino (objs ino) n (fs, st) = Inr (Some b, fs', st') \<and> ext2_ok io media src k objs fs' st'
    \<and> same_fs fs fs' \<and> holds st' b (block_bytes media src k (block_no media src k (objs ino) (unat n)))"
proof (cases "ht_fetch oo_hash_pair pair_eq (ino, n) (ex_cache fs)")
  case None
  let ?blk = "block_no media src k (objs ino) (unat n)"
  have ok: "delivers io media" "geometry k fs" "cache_ok io (ex_device fs) src st" "file_cache_ok media src k objs fs st"
    using assms(1) by (simp_all add: ext2_ok_def)
  obtain j path where p: "block_path fs n = (j, path)" "std_path k (unat n) = (j, map unat path)"
    using block_path_std [OF ok(2)] assms(2) unfolding has_block_def by blast
  then have "resolves media src k (i_blocks (objs ino) ! j) (map unat path) ?blk"
    using assms(2) by (simp add: has_block_def)
  from follow_path_holds [OF ok(1-3) this, of fresh] obtain b st' where
    b: "follow_path fresh io fs (i_blocks (objs ino) ! j) path st = Inr (Some b, st')" "cache_ok io (ex_device fs) src st'"
      "holds st' b (block_bytes media src k ?blk)" "keeps st st'"
    by blast
  let ?fs = "fs\<lparr>ex_cache := ht_store oo_hash_pair pair_eq (ino, n) b (ex_cache fs)\<rparr>"
  have "ht_all (\<lambda>((i, n), b). holds st' b (block_bytes media src k (block_no media src k (objs i) (unat n)))) (ex_cache fs)"
    using file_cache_keeps [OF ok(4) b(4)] by (simp add: file_cache_ok_def)
  then have "file_cache_ok media src k objs ?fs st'"
    unfolding file_cache_ok_def using b(3) by (simp, intro ht_all_store) (auto simp: pair_eq_iff)
  then have "ext2_ok io media src k objs ?fs st'"
    using ok(1,2) b(2) by (simp add: ext2_ok_def geometry_def)
  then show ?thesis
    using None p(1) b(1,3) by (auto simp: read_inode_block_def same_fs_def)
next
  case (Some b)
  have "ht_all (\<lambda>((i, n), b). holds st b (block_bytes media src k (block_no media src k (objs i) (unat n)))) (ex_cache fs)"
    using assms(1) by (simp add: ext2_ok_def file_cache_ok_def)
  from ht_all_fetch [OF this Some] have "holds st b (block_bytes media src k (block_no media src k (objs ino) (unat n)))"
    by (auto simp: pair_eq_iff)
  then show ?thesis
    using Some assms(1) by (auto simp: read_inode_block_def)
qed

definition file_bytes :: "(nat \<Rightarrow> nat \<Rightarrow> u8) \<Rightarrow> nat \<Rightarrow> nat \<Rightarrow> inode \<Rightarrow> nat \<Rightarrow> nat \<Rightarrow> u8 list" where
  "file_bytes media src k obj off n =
    map (\<lambda>p. media src (1024 * 2 ^ k * unat (block_no media src k obj (p div (1024 * 2 ^ k))) + p mod (1024 * 2 ^ k))) [off..<off + n]"

lemma file_bytes_append: "file_bytes media src k obj off n @ file_bytes media src k obj (off + n) j = file_bytes media src k obj off (n + j)"
  by (rule nth_equalityI) (auto simp: file_bytes_def nth_append)

lemma file_bytes_block:
  assumes "o' + n \<le> 1024 * 2 ^ k"
  shows "take n (drop o' (block_bytes media src k (block_no media src k obj q))) = file_bytes media src k obj (1024 * 2 ^ k * q + o') n"
proof (rule nth_equalityI)
  show "length (take n (drop o' (block_bytes media src k (block_no media src k obj q)))) = length (file_bytes media src k obj (1024 * 2 ^ k * q + o') n)"
    using assms by (simp add: block_bytes_def file_bytes_def)
  fix i
  assume "i < length (take n (drop o' (block_bytes media src k (block_no media src k obj q))))"
  then have i: "i < n" "o' + i < 1024 * 2 ^ k"
    using assms by (auto simp: block_bytes_def)
  have "(1024 * 2 ^ k * q + (o' + i)) div (1024 * 2 ^ k) = q" "(1024 * 2 ^ k * q + (o' + i)) mod (1024 * 2 ^ k) = o' + i"
    using i(2) by (simp_all add: div_mult_self4 mod_mult_self4)
  then show "take n (drop o' (block_bytes media src k (block_no media src k obj q))) ! i = file_bytes media src k obj (1024 * 2 ^ k * q + o') n ! i"
    using i assms by (simp add: block_bytes_def file_bytes_def media_bytes_def add.assoc)
qed

definition has_blocks :: "(nat \<Rightarrow> nat \<Rightarrow> u8) \<Rightarrow> nat \<Rightarrow> nat \<Rightarrow> inode \<Rightarrow> nat \<Rightarrow> nat \<Rightarrow> bool" where
  "has_blocks media src k obj off n \<longleftrightarrow> (\<forall>p. off \<le> p \<and> p < off + n \<longrightarrow> has_block media src k obj (p div (1024 * 2 ^ k)))"

lemma has_blocks_first: "has_blocks media src k obj off n \<Longrightarrow> 0 < n \<Longrightarrow> has_block media src k obj (off div (1024 * 2 ^ k))"
  by (simp add: has_blocks_def)

lemma buffer_read_block:
  assumes "holds st b (block_bytes media src k (block_no media src k obj q))" "o' + n \<le> 1024 * 2 ^ k"
  shows "buffer_read (bs_buf st b) o' n = Inr (file_bytes media src k obj (1024 * 2 ^ k * q + o') n)"
  using buffer_read_holds [OF assms(1), of o' n] assms(2) file_bytes_block [OF assms(2)] by (simp add: length_block_bytes)

lemma ext2_read_loop_ok:
  assumes "ext2_ok io media src k objs fs st" "bpb = ex_bytes_per_block fs" "1024 * 2 ^ k * unat cur + unat left \<le> 2 ^ 32"
    "has_blocks media src k (objs ino) (1024 * 2 ^ k * unat cur) (unat left)"
  shows "\<exists>fs' st'. ext2_read_loop fresh io ino (objs ino) bpb cur left out (fs, st)
      = Inr (out @ file_bytes media src k (objs ino) (1024 * 2 ^ k * unat cur) (unat left), fs', st')
    \<and> ext2_ok io media src k objs fs' st' \<and> same_fs fs fs'"
  using assms
proof (induction "unat left" arbitrary: left cur out fs st rule: less_induct)
  case less
  let ?B = "1024 * 2 ^ k :: nat"
  have bpb: "unat bpb = ?B"
    using less.prems(1,2) geometry_unat(1) by (simp add: ext2_ok_def)
  show ?case
  proof (cases "left = 0")
    case True
    then show ?thesis
      using less.prems(1) by (simp add: ext2_read_loop.simps file_bytes_def)
  next
    case False
    let ?r = "if left > bpb then bpb else left"
    have pos: "0 < unat left"
      using False by (simp add: unat_gt_0)
    have r: "unat ?r = min (unat left) ?B" "?r \<noteq> 0"
      using bpb False by (auto simp: word_less_nat_alt min_def unat_eq_0 [symmetric])
    have lpos: "left > 0"
      using False by (simp add: word_neq_0_conv)
    have rest: "unat (left - ?r) = unat left - unat ?r"
      by (rule unat_sub) (simp add: word_le_nat_alt r(1))
    have "has_block media src k (objs ino) (unat cur)"
      using has_blocks_first [OF less.prems(4) pos] by simp
    from read_inode_block_holds [OF less.prems(1) this, of fresh] obtain b fs1 st1 where
      b: "read_inode_block fresh io ino (objs ino) cur (fs, st) = Inr (Some b, fs1, st1)" "ext2_ok io media src k objs fs1 st1"
        "same_fs fs fs1" "holds st1 b (block_bytes media src k (block_no media src k (objs ino) (unat cur)))"
      by blast
    have rd: "buffer_read (bs_buf st1 b) 0 (unat ?r) = Inr (file_bytes media src k (objs ino) (?B * unat cur) (unat ?r))"
      using buffer_read_block [OF b(4), of 0 "unat ?r"] r(1) by simp
    have step: "ext2_read_loop fresh io ino (objs ino) bpb cur left out (fs, st)
        = ext2_read_loop fresh io ino (objs ino) bpb (cur + 1) (left - ?r) (out @ file_bytes media src k (objs ino) (?B * unat cur) (unat ?r)) (fs1, st1)"
      using lpos r(2) b(1) rd by (simp add: ext2_read_loop.simps [of fresh io ino "objs ino" bpb cur left] Let_def del: if_split word_neq_0_conv)
    show ?thesis
    proof (cases "left = ?r")
      case True
      then show ?thesis
        using step b(2,3) by (simp add: ext2_read_loop.simps)
    next
      case False
      then have big: "unat ?r = ?B" "?B < unat left"
        using r(1) by (auto simp: min_def word_less_nat_alt bpb split: if_splits)
      have "?B * unat cur + ?B < 2 ^ 32"
        using less.prems(3) big(2) by linarith
      moreover have "unat cur + 1 \<le> ?B * unat cur + ?B"
        using mult_le_mono1 [of 1 ?B "unat cur + 1"] by (simp add: add_mult_distrib2)
      ultimately have cur: "unat (cur + 1) = unat cur + 1"
        by (simp add: unat_word_ariths)
      have n1: "has_blocks media src k (objs ino) (?B * unat (cur + 1)) (unat (left - ?r))"
        using less.prems(4) big rest cur by (auto simp: has_blocks_def)
      have n2: "?B * unat (cur + 1) + unat (left - ?r) \<le> 2 ^ 32"
        using less.prems(3) big rest cur by simp
      have n3: "unat (left - ?r) < unat left"
        using rest big by simp
      have n4: "bpb = ex_bytes_per_block fs1"
        using less.prems(2) same_fs_fields(3) [OF b(3)] by simp
      obtain fs' st' where "ext2_read_loop fresh io ino (objs ino) bpb (cur + 1) (left - ?r) (out @ file_bytes media src k (objs ino) (?B * unat cur) (unat ?r)) (fs1, st1)
          = Inr ((out @ file_bytes media src k (objs ino) (?B * unat cur) (unat ?r)) @ file_bytes media src k (objs ino) (?B * unat (cur + 1)) (unat (left - ?r)), fs', st')"
          "ext2_ok io media src k objs fs' st'" "same_fs fs1 fs'"
        using less.hyps [OF n3 b(2) n4 n2 n1] by blast
      moreover have "file_bytes media src k (objs ino) (?B * unat cur) (unat ?r) @ file_bytes media src k (objs ino) (?B * unat (cur + 1)) (unat (left - ?r))
          = file_bytes media src k (objs ino) (?B * unat cur) (unat left)"
        using file_bytes_append [of media src k "objs ino" "?B * unat cur" ?B "unat left - ?B"] big rest cur by (simp add: add.commute)
      ultimately show ?thesis
        using step b(3) same_fs_trans by auto
    qed
  qed
qed

subsection \<open>Inodes\<close>

text \<open>What the code needs of an inode number: a group that exists, an inode table on the disk and whole inodes in its blocks.\<close>

definition inode_ok :: "nat \<Rightarrow> ext2_fs \<Rightarrow> u32 \<Rightarrow> bool" where
  "inode_ok k fs ino \<longleftrightarrow>
    (let adj = unat (ino - 1); isz = unat (sb_inode_size (ex_super fs)); ipg = unat (sb_inodes_per_group (ex_super fs));
         table = unat (group_inode_table (ex_groups fs) (adj div ipg))
     in 0 < ipg \<and> adj div ipg < unat (ex_total_groups fs) \<and> 100 \<le> isz \<and> isz * unat (ex_inode_per_block fs) = 1024 * 2 ^ k
        \<and> (table + adj div unat (ex_inode_per_block fs)) * 2 ^ k < 2 ^ 32)"

text \<open>Where the inode is: its place in the table of its group.\<close>

definition inode_pos :: "nat \<Rightarrow> ext2_fs \<Rightarrow> u32 \<Rightarrow> nat" where
  "inode_pos k fs ino =
    (let adj = unat (ino - 1); isz = unat (sb_inode_size (ex_super fs)); ipg = unat (sb_inodes_per_group (ex_super fs))
     in 1024 * 2 ^ k * unat (group_inode_table (ex_groups fs) (adj div ipg)) + adj mod ipg * isz)"

definition inode_group :: "ext2_fs \<Rightarrow> u32 \<Rightarrow> nat" where
  "inode_group fs ino = unat (ino - 1) div unat (sb_inodes_per_group (ex_super fs))"

text \<open>The inode at the place the code looks at.\<close>

definition inode_read :: "(nat \<Rightarrow> nat \<Rightarrow> u8) \<Rightarrow> nat \<Rightarrow> nat \<Rightarrow> ext2_fs \<Rightarrow> u32 \<Rightarrow> inode" where
  "inode_read media src k fs ino =
    inode_of (media_bytes media src (inode_pos k fs ino
      + inode_group fs ino * (unat (sb_inodes_per_group (ex_super fs)) * unat (sb_inode_size (ex_super fs))))
      (unat (sb_inode_size (ex_super fs))))"

lemma inode_place:
  fixes adj ipb isz ipg B table :: nat
  assumes "isz * ipb = B"
  shows "B * (table + adj div ipb) + adj mod ipb * isz = B * table + adj mod ipg * isz + adj div ipg * (ipg * isz)"
proof -
  have scale: "isz * i * q + r * isz = isz * (i * q + r)" for i q r :: nat
    by (simp add: algebra_simps)
  have "isz * ipb * (adj div ipb) + adj mod ipb * isz = isz * adj"
    unfolding scale by simp
  moreover have "isz * ipg * (adj div ipg) + adj mod ipg * isz = isz * adj"
    unfolding scale by simp
  ultimately show ?thesis
    unfolding assms [symmetric] by (simp add: algebra_simps)
qed

lemma find_inode_holds:
  assumes "delivers io media" "geometry k fs" "cache_ok io (ex_device fs) src st" "inode_ok k fs ino"
  shows "\<exists>st'. find_inode fresh io ino fs st = Inr (inode_read media src k fs ino, st') \<and> cache_ok io (ex_device fs) src st' \<and> keeps st st'"
proof -
  let ?adj = "unat (ino - 1)" and ?isz = "unat (sb_inode_size (ex_super fs))" and ?ipg = "unat (sb_inodes_per_group (ex_super fs))"
    and ?ipb = "unat (ex_inode_per_block fs)" and ?B = "1024 * 2 ^ k :: nat"
  let ?t = "group_inode_table (ex_groups fs) (?adj div ?ipg)"
  have h: "0 < ?ipg" "?adj div ?ipg < unat (ex_total_groups fs)" "100 \<le> ?isz" "?isz * ?ipb = ?B"
      "(unat ?t + ?adj div ?ipb) * 2 ^ k < 2 ^ 32"
    using assms(4) by (simp_all add: inode_ok_def Let_def)
  have ipb: "0 < ?ipb"
    using h(4) by (cases "?ipb = 0") simp_all
  have isz: "unat (ucast (sb_inode_size (ex_super fs)) :: u32) = ?isz" "?isz < 2 ^ 16"
    using unsigned_less [of "sb_inode_size (ex_super fs)", where ?'a = nat] by (simp_all add: unsigned_ucast_eq take_bit_nat_eq_self)
  let ?blk = "?t + (ino - 1) div ex_inode_per_block fs"
  have "unat ?t + ?adj div ?ipb < 2 ^ 32"
    using h(5) by (rule le_less_trans [rotated]) simp
  then have blk: "unat ?blk = unat ?t + ?adj div ?ipb"
    by (simp add: unat_word_ariths unat_div)
  have off: "?adj mod ?ipb * ?isz + ?isz \<le> ?B"
  proof -
    have "?adj mod ?ipb + 1 \<le> ?ipb"
      using ipb by (simp add: Suc_leI)
    then have "(?adj mod ?ipb + 1) * ?isz \<le> ?ipb * ?isz"
      by (rule mult_le_mono1)
    then show ?thesis
      using h(4) by (simp add: mult.commute)
  qed
  have "k \<le> 6"
    using assms(2) by (simp add: geometry_def)
  then have "?B \<le> 1024 * 2 ^ 6"
    by (intro mult_le_mono2 power_increasing) simp_all
  then have lim: "?adj mod ?ipb * ?isz < 2 ^ 32"
    using off by simp
  have mult: "unat (x * y) = unat x * unat y mod 2 ^ 32" for x y :: u32
    by (simp add: unat_word_ariths)
  have offw: "unat (((ino - 1) mod ex_inode_per_block fs) * (ucast (sb_inode_size (ex_super fs)) :: u32)) = ?adj mod ?ipb * ?isz"
    unfolding mult unat_mod isz(1) using lim by (rule mod_less)
  obtain b st' where b: "read_block fresh io ?blk 1 fs st = Inr (b, st')" "cache_ok io (ex_device fs) src st'"
      "holds st' b (block_bytes media src k ?blk)" "keeps st st'"
    using read_block_holds [OF assms(1,3,2), of ?blk fresh] h(5) blk by auto
  have "buffer_read (bs_buf st' b) (?adj mod ?ipb * ?isz) ?isz = Inr (media_bytes media src (?B * unat ?blk + ?adj mod ?ipb * ?isz) ?isz)"
    using buffer_read_holds [OF b(3)] off by (simp add: length_block_bytes block_bytes_def media_bytes_sub)
  moreover have "?B * unat ?blk + ?adj mod ?ipb * ?isz = inode_pos k fs ino + inode_group fs ino * (?ipg * ?isz)"
    using inode_place [OF h(4), of "unat ?t" ?adj ?ipg] blk by (simp add: inode_pos_def inode_group_def Let_def)
  ultimately have "find_inode fresh io ino fs st = Inr (inode_read media src k fs ino, st')"
    using h b(1) ipb isz offw
    by (simp add: find_inode_def Let_def checked_div_def unat_eq_0 [symmetric] word_less_nat_alt unat_div inode_read_def)
  then show ?thesis
    using b by blast
qed

lemma has_blocks_tail: "has_blocks media src k obj off n \<Longrightarrow> m < n \<Longrightarrow> has_blocks media src k obj (off + m) (n - m)"
  by (auto simp: has_blocks_def)

text \<open>The inode as the format has it, in the table of its group.\<close>

definition disk_inode :: "(nat \<Rightarrow> nat \<Rightarrow> u8) \<Rightarrow> nat \<Rightarrow> nat \<Rightarrow> ext2_fs \<Rightarrow> u32 \<Rightarrow> inode" where
  "disk_inode media src k fs ino = inode_of (media_bytes media src (inode_pos k fs ino) (unat (sb_inode_size (ex_super fs))))"

lemma inode_read_group_0: "inode_group fs ino = 0 \<Longrightarrow> inode_read media src k fs ino = disk_inode media src k fs ino"
  by (simp add: inode_read_def disk_inode_def)

lemma ext2_read_general:
  assumes "ext2_ok io media src k (inode_read media src k fs) fs st" and "inode_ok k fs ino"
    and "0 < unat sz" and "unat offset + unat sz \<le> 2 ^ 32"
    and "has_blocks media src k (inode_read media src k fs ino) (unat offset) (unat sz)"
  shows "\<exists>fs' st'. ext2_read fresh io ino offset sz (fs, st)
      = Inr (sz, file_bytes media src k (inode_read media src k fs ino) (unat offset) (unat sz), fs', st')
    \<and> ext2_ok io media src k (inode_read media src k fs) fs' st'"
proof -
  let ?objs = "inode_read media src k fs" and ?bpb = "ex_bytes_per_block fs" and ?B = "1024 * 2 ^ k :: nat"
  let ?cur = "offset div ?bpb" and ?off = "unat offset mod ?B"
  have ok: "delivers io media" "geometry k fs" "cache_ok io (ex_device fs) src st"
    using assms(1) by (simp_all add: ext2_ok_def)
  note bpb = geometry_unat(1) [OF ok(2)]
  have bpb0: "?bpb \<noteq> 0"
    using bpb by (simp add: unat_eq_0 [symmetric])
  have cur: "unat ?cur = unat offset div ?B" "unat (offset mod ?bpb) = ?off"
    by (simp_all add: unat_div unat_mod bpb)
  obtain st1 where f: "find_inode fresh io ino fs st = Inr (?objs ino, st1)" "cache_ok io (ex_device fs) src st1" "keeps st st1"
    using find_inode_holds [OF ok assms(2)] by blast
  have "has_block media src k (?objs ino) (unat ?cur)"
    using has_blocks_first [OF assms(5,3)] cur(1) by simp
  from read_inode_block_holds [OF ext2_ok_keeps [OF assms(1) f(3,2)] this, of fresh] obtain b fs2 st2 where
    b: "read_inode_block fresh io ino (?objs ino) ?cur (fs, st1) = Inr (Some b, fs2, st2)" "ext2_ok io media src k ?objs fs2 st2"
      "same_fs fs fs2" "holds st2 b (block_bytes media src k (block_no media src k (?objs ino) (unat ?cur)))"
    by blast
  let ?n = "if ?bpb - offset mod ?bpb > sz then sz else ?bpb - offset mod ?bpb"
  have "unat (?bpb - offset mod ?bpb) = ?B - ?off"
    using cur(2) bpb by (simp add: unat_sub word_le_nat_alt)
  then have n: "unat ?n = min (unat sz) (?B - ?off)"
    by (simp add: word_less_nat_alt min_def)
  have offB: "?off < ?B"
    by simp
  have pos: "?B * unat ?cur + ?off = unat offset"
    using cur(1) by simp
  have le: "?off + unat ?n \<le> ?B"
    using n offB min.cobounded2 [of "unat sz" "?B - ?off"] by linarith
  have rd: "buffer_read (bs_buf st2 b) ?off (unat ?n) = Inr (file_bytes media src k (?objs ino) (unat offset) (unat ?n))"
    using buffer_read_block [OF b(4) le] unfolding pos .
  have left: "unat (sz - ?n) = unat sz - unat ?n"
    by (rule unat_sub) (simp add: word_le_nat_alt n)
  show ?thesis
  proof (cases "sz - ?n = 0")
    case True
    then have "unat ?n = unat sz"
      using left n by simp
    then show ?thesis
      using f(1) b(1,2) rd True bpb0 cur(2) by (auto simp: ext2_read_def Let_def checked_div_def simp del: if_split)
  next
    case False
    then have big: "unat ?n = ?B - ?off" "?B - ?off < unat sz"
      using left n by (auto simp: unat_eq_0 [symmetric] simp del: if_split)
    have "unat ?cur + 1 \<le> ?B * unat ?cur + ?B"
      using mult_le_mono1 [of 1 ?B "unat ?cur + 1"] by (simp add: add_mult_distrib2)
    then have "unat ?cur + 1 < 2 ^ 32"
      using assms(4) big(2) pos offB by linarith
    then have cur1: "unat (?cur + 1) = unat ?cur + 1"
      by (simp add: unat_word_ariths)
    have start: "?B * unat (?cur + 1) = unat offset + (?B - ?off)"
      using cur1 pos offB by (simp add: add_mult_distrib2)
    have "has_blocks media src k (?objs ino) (?B * unat (?cur + 1)) (unat (sz - ?n))"
      unfolding start left big(1) by (rule has_blocks_tail [OF assms(5) big(2)])
    moreover have "?B * unat (?cur + 1) + unat (sz - ?n) \<le> 2 ^ 32"
      unfolding start left big(1) using assms(4) big(2) by linarith
    moreover have "?bpb = ex_bytes_per_block fs2"
      using same_fs_fields(3) [OF b(3)] by simp
    ultimately obtain fs3 st3 where l: "ext2_read_loop fresh io ino (?objs ino) ?bpb (?cur + 1) (sz - ?n) (file_bytes media src k (?objs ino) (unat offset) (unat ?n)) (fs2, st2)
        = Inr (file_bytes media src k (?objs ino) (unat offset) (unat ?n) @ file_bytes media src k (?objs ino) (?B * unat (?cur + 1)) (unat (sz - ?n)), fs3, st3)"
        "ext2_ok io media src k ?objs fs3 st3"
      using ext2_read_loop_ok [OF b(2)] by blast
    have "file_bytes media src k (?objs ino) (unat offset) (unat ?n) @ file_bytes media src k (?objs ino) (?B * unat (?cur + 1)) (unat (sz - ?n))
        = file_bytes media src k (?objs ino) (unat offset) (unat sz)"
      using file_bytes_append [of media src k "?objs ino" "unat offset" "?B - ?off" "unat sz - (?B - ?off)"] start left big by (simp del: if_split)
    then show ?thesis
      using f(1) b(1) rd l False bpb0 cur(2) by (auto simp: ext2_read_def Let_def checked_div_def simp del: if_split)
  qed
qed

text \<open>
  C5: Reading an ext2 file refines the file format: for an inode of the first block group, and every range whose blocks
  are all allocated and lie within the direct, indirect and double indirect blocks or the first table below the triple
  indirect one, \<^verbatim>\<open>Node::read\<close> returns exactly the bytes of these blocks, whether they come from the disk or
  from the caches, and leaves the caches correct.
\<close>

theorem ext2_read_bytes:
  assumes "ext2_ok io media src k (inode_read media src k fs) fs st" and "inode_ok k fs ino" and "inode_group fs ino = 0"
    and "0 < unat sz" and "unat offset + unat sz \<le> 2 ^ 32"
    and "has_blocks media src k (disk_inode media src k fs ino) (unat offset) (unat sz)"
  shows "\<exists>fs' st'. ext2_read fresh io ino offset sz (fs, st)
      = Inr (sz, file_bytes media src k (disk_inode media src k fs ino) (unat offset) (unat sz), fs', st')
    \<and> ext2_ok io media src k (inode_read media src k fs) fs' st'"
  using ext2_read_general [OF assms(1,2,4,5), of fresh] assms(6) unfolding inode_read_group_0 [OF assms(3)] by blast

text \<open>
  C39: \<^verbatim>\<open>find_inode\<close> finds the inodes of group 0 only: it reads the inode from the right place in the table of its group plus
  the size of one inode table for every group before it, because the number of the inode is not reduced to its place
  in the group.
\<close>

theorem find_inode_place:
  assumes "delivers io media" and "geometry k fs" and "cache_ok io (ex_device fs) src st" and "inode_ok k fs ino"
  shows "\<exists>st'. find_inode fresh io ino fs st = Inr (inode_of (media_bytes media src (inode_pos k fs ino
      + inode_group fs ino * (unat (sb_inodes_per_group (ex_super fs)) * unat (sb_inode_size (ex_super fs))))
      (unat (sb_inode_size (ex_super fs)))), st')"
  using find_inode_holds [OF assms] by (auto simp: inode_read_def)

text \<open>
  A small file system: blocks of 1024 bytes, two groups of sixteen inodes of 128 bytes with their tables in blocks 5 and 20.  The
  first block of inode 2 is block 9, which has a 7 at byte 3.
\<close>

definition ext2_demo_media :: "nat \<Rightarrow> nat \<Rightarrow> u8" where
  "ext2_demo_media d p = (if p = 5288 then 9 else if p = 9219 then 7 else if p = 20608 then 1 else if p = 22656 then 2 else 0)"

definition ext2_demo_drive :: "nat \<Rightarrow> region_range \<Rightarrow> u8 list" where
  "ext2_demo_drive d r = media_bytes ext2_demo_media d (1024 * unat (fst r)) (1024 * unat (snd r))"

definition ext2_demo :: ext2_fs where
  "ext2_demo = \<lparr>ex_device = 1, ex_super = \<lparr>sb_blocks_count = 64, sb_first_data_block = 1, sb_log_block_size = 0, sb_blocks_per_group = 32,
       sb_inodes_per_group = 16, sb_magic = cMagic, sb_inode_size = 128\<rparr>, ex_total_groups = 2,
     ex_groups = replicate 8 0 @ [5] @ replicate 31 0 @ [20] @ replicate 23 0, ex_block_per_region = 1, ex_bytes_per_block = 1024,
     ex_inode_per_block = 8, ex_ids_per_block = 256, ex_ids_per_second_level = 256 * 256, ex_in_use = ht_new, ex_cache = ht_new,
     ex_nodes = (\<lambda>_. \<lparr>en_name = (\<lambda>_. 0), en_mask = 0, en_uid = 0, en_gid = 0, en_flags = 0, en_inode = 0, en_length = 0\<rparr>), ex_next_node = 0\<rparr>"

lemma ext2_demo_ok: "delivers ext2_demo_drive ext2_demo_media" "geometry 0 ext2_demo" "cache_ok ext2_demo_drive (ex_device ext2_demo) 0 demo_blocks"
  using demo_blocks_cache [of ext2_demo_drive] by (simp_all add: delivers_def ext2_demo_drive_def geometry_def ext2_demo_def)

lemma ext2_demo_inodes: "inode_ok 0 ext2_demo 2" "inode_ok 0 ext2_demo 18" "inode_group ext2_demo 2 = 0" "inode_group ext2_demo 18 = 1"
    "inode_pos 0 ext2_demo 2 = 5248" "inode_pos 0 ext2_demo 18 = 20608"
  by (simp_all add: inode_ok_def inode_group_def inode_pos_def ext2_demo_def group_inode_table_def le32_def Let_def nth_append)

lemma ext2_demo_sizes: "sb_inodes_per_group (ex_super ext2_demo) = 16" "sb_inode_size (ex_super ext2_demo) = 128"
  by (simp_all add: ext2_demo_def)

lemma ext2_demo_block: "block_no ext2_demo_media 0 0 (disk_inode ext2_demo_media 0 0 ext2_demo 2) 0 = 9"
    "has_blocks ext2_demo_media 0 0 (disk_inode ext2_demo_media 0 0 ext2_demo 2) 2 3"
proof -
  have b: "i_blocks (disk_inode ext2_demo_media 0 0 ext2_demo 2) ! 0 = 9"
    unfolding disk_inode_def ext2_demo_inodes
    by (simp add: inode_of_def le32_def media_bytes_def ext2_demo_media_def ext2_demo_sizes)
  then show n: "block_no ext2_demo_media 0 0 (disk_inode ext2_demo_media 0 0 ext2_demo 2) 0 = 9"
    by (simp add: block_no_def std_path_def)
  show "has_blocks ext2_demo_media 0 0 (disk_inode ext2_demo_media 0 0 ext2_demo 2) 2 3"
    using b n by (auto simp: has_blocks_def has_block_def std_path_def on_disk_def)
qed

theorem ext2_read_bytes_witness:
  "\<exists>fs' st'. ext2_read (\<lambda>_. 0) ext2_demo_drive 2 2 3 (ext2_demo, demo_blocks) = Inr (3, [0, 7, 0], fs', st')"
proof -
  have "ext2_ok ext2_demo_drive ext2_demo_media 0 0 (inode_read ext2_demo_media 0 0 ext2_demo) ext2_demo demo_blocks"
    using ext2_demo_ok by (simp add: ext2_ok_def file_cache_ok_def) (simp add: ext2_demo_def)
  moreover have "file_bytes ext2_demo_media 0 0 (disk_inode ext2_demo_media 0 0 ext2_demo 2) 2 3 = [0, 7, 0]"
    using ext2_demo_block(1) by (simp add: file_bytes_def upt_rec ext2_demo_media_def)
  ultimately show ?thesis
    using ext2_read_bytes [of ext2_demo_drive ext2_demo_media 0 0 ext2_demo demo_blocks 2 3 2 "\<lambda>_. 0"] ext2_demo_inodes ext2_demo_block(2) by auto
qed

theorem find_inode_place_witness:
  "\<exists>obj st'. find_inode (\<lambda>_. 0) ext2_demo_drive 18 ext2_demo demo_blocks = Inr (obj, st') \<and> i_mode obj = 2
     \<and> i_mode (disk_inode ext2_demo_media 0 0 ext2_demo 18) = 1"
  using find_inode_place [OF ext2_demo_ok ext2_demo_inodes(2), of "\<lambda>_. 0"] unfolding disk_inode_def ext2_demo_inodes
  by (auto simp: inode_of_def le16_def media_bytes_def ext2_demo_media_def ext2_demo_sizes)


subsection \<open>Loading\<close>

definition group_count :: "super_block \<Rightarrow> u32" where
  "group_count sb = (sb_blocks_count sb - sb_first_data_block sb + sb_blocks_per_group sb - 1) div sb_blocks_per_group sb"

lemma read_block_groups_ok:
  assumes "delivers io media" "cache_ok io (ex_device fs) src st" "geometry k fs" "sb_blocks_per_group (ex_super fs) \<noteq> 0"
    "unat (group_count (ex_super fs)) * 2 ^ k < 2 ^ 22"
  shows "\<exists>st'. read_block_groups fresh io (fs, st) = Inr (fs\<lparr>ex_total_groups := group_count (ex_super fs),
      ex_groups := media_bytes media src (2048 * 2 ^ k) (32 * unat (group_count (ex_super fs)))\<rparr>, st')
    \<and> cache_ok io (ex_device fs) src st'"
proof -
  let ?g = "group_count (ex_super fs)"
  have "unat ?g * 1 \<le> unat ?g * 2 ^ k"
    by (rule mult_le_mono2) simp
  then have "unat ?g < 2 ^ 22"
    using assms(5) by linarith
  then have size: "unat (32 * ?g) = 32 * unat ?g"
    by (simp add: unat_word_ariths)
  have k: "2 ^ k \<le> (64::nat)"
    using assms(3) small_k [of k] by (auto simp: geometry_def)
  have "unat (b2r fs ?g) = unat ?g * 2 ^ k" "unat (b2r fs 2) = 2 * 2 ^ k"
    using assms(5) k geometry_unat(2) [OF assms(3)] by (simp_all add: b2r_def unat_word_ariths)
  then have rd: "io src (b2r fs 2, b2r fs ?g) = media_bytes media src (2048 * 2 ^ k) (1024 * (unat ?g * 2 ^ k))"
    using assms(1) by (simp add: delivers_def)
  obtain b st' where b: "read_block fresh io 2 ?g fs st = Inr (b, st')" "cache_ok io (ex_device fs) src st'"
      "holds st' b (media_bytes media src (2048 * 2 ^ k) (1024 * (unat ?g * 2 ^ k)))"
    using get_region_holds [OF assms(2), of fresh "(b2r fs 2, b2r fs ?g)"] rd by (auto simp: read_block_def)
  have "32 * unat ?g \<le> 1024 * (unat ?g * 2 ^ k)"
    by (simp add: mult_le_mono)
  then have "buffer_read (bs_buf st' b) 0 (32 * unat ?g) = Inr (media_bytes media src (2048 * 2 ^ k) (32 * unat ?g))"
    using buffer_read_holds [OF b(3), of 0 "32 * unat ?g"] media_bytes_sub [of 0 "32 * unat ?g"] by simp
  then show ?thesis
    using b(1,2) size assms(4) by (simp add: read_block_groups_def checked_div_def group_count_def Let_def)
qed

text \<open>The sizes for blocks of \<open>1024 * 2 ^ k\<close> bytes, as \<^verbatim>\<open>read_superblock\<close> computes them.\<close>

lemma block_sizes:
  assumes "k \<le> 6"
  shows "push_bit (unat (of_nat k AND 31 :: u32)) 1024 = (1024 * 2 ^ k :: u32)" "(1024 * 2 ^ k :: u32) div cRegionSize = 2 ^ k"
    "(1024 * 2 ^ k :: u32) div 4 = 256 * 2 ^ k" "cRegionSize \<le> (1024 * 2 ^ k :: u32)"
  using small_k [OF assms] by (auto simp: cRegionSize_def push_bit_eq_mult)

lemma ucast_u16_0: "(ucast x :: u32) = 0 \<longleftrightarrow> x = 0" for x :: u16
  by transfer (simp add: take_bit_eq_mod)

text \<open>
  C40: Loading an ext2 file system with blocks of 1 to 64 kilobytes succeeds: the sizes are those of the superblock at byte 1024, the
  group descriptors are those in block 2, the caches are empty and correct, and the node returned is the directory
  with the root inode.
\<close>

theorem ext2_load_ready:
  assumes "delivers io media" and "cache_ok io dev src st" and "k \<le> 6"
    and "sb = super_block_of (media_bytes media src 1024 1024)" and "validate sb" and "sb_log_block_size sb = of_nat k"
    and "sb_inode_size sb \<noteq> 0" and "sb_blocks_per_group sb \<noteq> 0" and "unat (group_count sb) * 2 ^ k < 2 ^ 22"
  shows "\<exists>node fs st'. ext2_load junk fresh io (Some dev) raw st = Inr (Some (node, fs), st')
    \<and> (\<forall>objs. ext2_ok io media src k objs fs st') \<and> ex_super fs = sb \<and> ex_total_groups fs = group_count sb
    \<and> ex_groups fs = media_bytes media src (2048 * 2 ^ k) (32 * unat (group_count sb))
    \<and> ex_inode_per_block fs = 1024 * 2 ^ k div ucast (sb_inode_size sb)
    \<and> en_inode (ex_nodes fs node) = eRootInode \<and> en_flags (ex_nodes fs node) = FS_DIRECTORY"
proof -
  let ?rng = "(byte2region 1024, byte2region 1024)"
  let ?fs = "(ext2_new dev raw)\<lparr>ex_super := sb, ex_bytes_per_block := 1024 * 2 ^ k, ex_block_per_region := 2 ^ k,
    ex_inode_per_block := 1024 * 2 ^ k div ucast (sb_inode_size sb), ex_ids_per_block := 256 * 2 ^ k,
    ex_ids_per_second_level := (256 * 2 ^ k) * (256 * 2 ^ k)\<rparr>"
  have "io src ?rng = media_bytes media src 1024 1024"
    using assms(1) by (simp add: delivers_def byte2region_def cRegionSize_def)
  then obtain b st1 where b: "get_region fresh io dev ?rng st = Inr (b, st1)" "cache_ok io dev src st1"
      "holds st1 b (media_bytes media src 1024 1024)"
    using get_region_holds [OF assms(2), of fresh ?rng] by auto
  then have rd: "buffer_read (bs_buf st1 b) 0 1024 = Inr (media_bytes media src 1024 1024)"
    using buffer_read_holds [OF b(3), of 0 1024] by simp
  have isz: "ucast (sb_inode_size sb) \<noteq> (0 :: u32)"
    using assms(7) ucast_u16_0 by simp
  have geo: "geometry k ?fs"
    using assms(3) by (simp add: geometry_def)
  obtain st2 where g: "read_block_groups fresh io (?fs, st1) = Inr (?fs\<lparr>ex_total_groups := group_count sb,
      ex_groups := media_bytes media src (2048 * 2 ^ k) (32 * unat (group_count sb))\<rparr>, st2)" "cache_ok io dev src st2"
    using read_block_groups_ok [OF assms(1) _ geo, of src st1 fresh] b(2) assms(8,9) by (auto simp: ext2_new_def)
  have "read_superblock fresh io (ext2_new dev raw, st) = Inr (True, ?fs\<lparr>ex_total_groups := group_count sb,
      ex_groups := media_bytes media src (2048 * 2 ^ k) (32 * unat (group_count sb))\<rparr>, st2)"
    using b(1) rd g(1) isz assms(4-6) block_sizes [OF assms(3)]
    by (simp add: read_superblock_def Let_def checked_div_def assert_that_def ext2_new_def)
  then show ?thesis
    using assms(1,3) g(2) by (simp add: ext2_load_def ext2_root_def ext2_add_node_def ext2_ok_def geometry_def file_cache_ok_def ext2_new_def)
qed

definition ext2_disk :: "nat \<Rightarrow> nat \<Rightarrow> u8" where
  "ext2_disk d p = (case map_of [(1028, 64), (1044, 1), (1056, 32), (1064, 16), (1080, 0x53), (1081, 0xEF), (1112, 128), (2056, 5), (2088, 20)] p of
     None \<Rightarrow> 0 | Some x \<Rightarrow> x)"

definition ext2_disk_drive :: "nat \<Rightarrow> region_range \<Rightarrow> u8 list" where
  "ext2_disk_drive d r = media_bytes ext2_disk d (1024 * unat (fst r)) (1024 * unat (snd r))"

lemma ext2_disk_super:
  "super_block_of (media_bytes ext2_disk 0 1024 1024) = \<lparr>sb_blocks_count = 64, sb_first_data_block = 1, sb_log_block_size = 0,
     sb_blocks_per_group = 32, sb_inodes_per_group = 16, sb_magic = cMagic, sb_inode_size = 128\<rparr>"
  by (simp add: super_block_of_def le32_def le16_def media_bytes_def ext2_disk_def cMagic_def)

theorem ext2_load_ready_witness:
  "\<exists>node fs st'. ext2_load (\<lambda>_. 0) (\<lambda>_. 0) ext2_disk_drive (Some 1) ext2_demo demo_blocks = Inr (Some (node, fs), st')
     \<and> ex_total_groups fs = 2 \<and> ex_inode_per_block fs = 8 \<and> group_inode_table (ex_groups fs) 1 = 20"
proof -
  let ?sb = "super_block_of (media_bytes ext2_disk 0 1024 1024)"
  have "delivers ext2_disk_drive ext2_disk"
    by (simp add: delivers_def ext2_disk_drive_def)
  moreover have n: "group_count ?sb = 2" "sb_inode_size ?sb = 128"
    by (simp_all add: ext2_disk_super group_count_def)
  moreover have "group_inode_table (media_bytes ext2_disk 0 2048 64) 1 = 20"
    by (simp add: group_inode_table_def le32_def media_bytes_def ext2_disk_def)
  ultimately show ?thesis
    using ext2_load_ready [of ext2_disk_drive ext2_disk 1 0 demo_blocks 0 ?sb "\<lambda>_. 0" "\<lambda>_. 0" ext2_demo] demo_blocks_cache
    by (auto simp: ext2_disk_super validate_def)
qed

end
