(* ===== verification/Tar.thy ===== *)
theory Tar
  imports Tmpfs
begin

text \<open>
  The archive the kernel boots from, \<^verbatim>\<open>tar.cpp\<close>: a compressed tar archive whose files become
  the files of the root directory of a \<^verbatim>\<open>tmpfs\<close>.  The decompressor is a parameter: \<open>inflate z n\<close> is the result of
  \<^verbatim>\<open>inflate\<close> on a stream in state \<open>z\<close> with \<open>n\<close> bytes of room, that is, the return code, the bytes put out and the new
  state of the stream.
\<close>

subsection \<open>Entries\<close>

definition Z_OK :: int where "Z_OK = 0"
definition Z_STREAM_END :: int where "Z_STREAM_END = 1"

type_synonym 'z inflater = "'z \<Rightarrow> u32 \<Rightarrow> int \<times> u8 list \<times> 'z"

text \<open>
  \<^verbatim>\<open>ato8\<close>.  The loop over the leading zeros has no bound; \<open>None\<close> when it does not end.  A \<^verbatim>\<open>char\<close> is signed.
\<close>

partial_function (option) skip_zeros :: "cstr \<Rightarrow> nat \<Rightarrow> nat option" where
  "skip_zeros buf i = (if buf i = 0x30 then skip_zeros buf (Suc i) else Some i)"

function ato8_digits :: "cstr \<Rightarrow> nat \<Rightarrow> nat \<Rightarrow> u32 \<Rightarrow> u32" where
  "ato8_digits buf sz i out =
    (if i < sz \<and> buf i \<noteq> 0
     then let out = out + (scast (buf i) - 0x30);
              out = (if i < sz - 1 then out * 8 else out)
          in ato8_digits buf sz (Suc i) out
     else out)"
  by pat_completeness auto
termination
  by (relation "measure (\<lambda>(_, sz, i, _). sz - i)") auto

declare ato8_digits.simps [simp del]

definition ato8 :: "cstr \<Rightarrow> nat \<Rightarrow> u32 option" where
  "ato8 buf sz = (case skip_zeros buf 0 of None \<Rightarrow> None | Some i \<Rightarrow> Some (ato8_digits buf sz i 0))"

text \<open>
  An entry is the buffer \<^verbatim>\<open>out\<close> it was read into: the name is at offset 0, the size at 124 and the type at 156.
\<close>

definition entry_directory_p :: "cstr \<Rightarrow> bool" where "entry_directory_p ent \<longleftrightarrow> ent 156 = 0x35"
definition entry_file_p :: "cstr \<Rightarrow> bool" where "entry_file_p ent \<longleftrightarrow> ent 156 = 0x30"

definition byte_size :: "cstr \<Rightarrow> u32 option" where
  "byte_size ent = ato8 (\<lambda>i. ent (124 + i)) 11"

definition entry_empty_p :: "cstr \<Rightarrow> bool" where
  "entry_empty_p ent \<longleftrightarrow> (\<forall>i \<in> set [0..<512]. ent i = 0)"


subsection \<open>Loading\<close>

text \<open>A file node of the directory: the fields of the node that are set, and the file.\<close>

record tar_node =
  tn_name :: cstr
  tn_length :: u32
  tn_file :: tmp_file

record 'z tar_state =
  ts_stream :: 'z
  ts_out :: cstr
  ts_dir :: tmp_dir
  ts_nodes :: "nat \<Rightarrow> tar_node"
  ts_next :: nat
  ts_count :: int

text \<open>Bytes put at an offset of a buffer.\<close>

definition put_bytes :: "nat \<Rightarrow> u8 list \<Rightarrow> cstr \<Rightarrow> cstr" where
  "put_bytes off bs buf = (\<lambda>i. if off \<le> i \<and> i < off + length bs then bs ! (i - off) else buf i)"

text \<open>\<^verbatim>\<open>strcpy\<close> to the name of a node, which has 128 bytes.\<close>

function node_strcpy :: "cstr \<Rightarrow> nat \<Rightarrow> cstr \<Rightarrow> cstr result" where
  "node_strcpy src i dest =
    (if 128 \<le> i then Inl OutOfBounds
     else let dest = dest(i := src i)
          in if src (Suc i) \<noteq> 0 then node_strcpy src (Suc i) dest else Inr dest)"
  by pat_completeness auto
termination
  by (relation "measure (\<lambda>(_, i, _). 128 - i)") auto

declare node_strcpy.simps [simp del]

text \<open>
  The loop that reads the data of a file: \<open>pos\<close> is how far \<^verbatim>\<open>file\<close> has moved into the chunk.
\<close>

function tar_data :: "'z inflater \<Rightarrow> u32 \<Rightarrow> nat \<Rightarrow> cstr \<Rightarrow> 'z \<Rightarrow> (cstr \<times> 'z) result" where
  "tar_data inflate left pos chunk z =
    (if left > 0
     then let req = (if left \<ge> 1024 then 1024 else left);
              (ret, bs, z) = inflate z req;
              avail_out = req - of_nat (length bs);
              read = req - avail_out;
              chunk = put_bytes pos bs chunk
          in if ret = Z_STREAM_END then Inr (chunk, z)
             else if ret \<noteq> Z_OK then Inl AssertFailed
             else if avail_out \<noteq> 0 then Inr (chunk, z)
             else tar_data inflate (left - read) (pos + unat read) chunk z
     else Inr (chunk, z))"
  by pat_completeness auto
termination
  by (relation "measure (\<lambda>(_, left, _). unat left)")
    (auto simp: unat_sub word_le_nat_alt word_less_nat_alt unat_gt_0 split: if_splits)

declare tar_data.simps [simp del]

definition tar_create :: "cstr \<Rightarrow> cstr \<Rightarrow> u32 \<Rightarrow> 'z inflater \<Rightarrow> 'z tar_state \<Rightarrow> 'z tar_state result" where
  "tar_create junk ent bytes inflate s =
    (case strlen ent of
       None \<Rightarrow> Inl Diverges
     | Some n \<Rightarrow>
        (case string_set junk (Some ent) n True (string_blank junk) of
           None \<Rightarrow> Inl Diverges
         | Some name \<Rightarrow>
             let dir = tmp_create_file junk name (ts_next s) (ts_dir s)
             in bind_result (node_strcpy ent 0 (junk(0 := 0))) (\<lambda>node_name.
                let file = tmp_resize junk bytes (tmp_file_new junk)
                in bind_result (tar_data inflate bytes 0 (tf_chunk file) (ts_stream s)) (\<lambda>(chunk, z).
                     Inr (s\<lparr>ts_stream := z, ts_dir := dir, ts_next := Suc (ts_next s),
                       ts_nodes := (ts_nodes s)(ts_next s := \<lparr>tn_name = node_name, tn_length = bytes,
                         tn_file = file\<lparr>tf_chunk := chunk\<rparr>\<rparr>)\<rparr>)))))"

text \<open>One turn of the main loop; the first component says whether it goes on.\<close>

definition tar_entry :: "cstr \<Rightarrow> 'z inflater \<Rightarrow> 'z tar_state \<Rightarrow> (bool \<times> 'z tar_state) result" where
  "tar_entry junk inflate s =
    (let (ret, bs, z) = inflate (ts_stream s) 512;
         out = put_bytes 0 bs (ts_out s);
         s = s\<lparr>ts_stream := z, ts_out := out\<rparr>
     in bind_result (assert_that (ret = Z_OK)) (\<lambda>_.
        if entry_empty_p out then Inr (False, s)
        else let s = s\<lparr>ts_count := ts_count s + 1\<rparr>
             in case byte_size out of
                  None \<Rightarrow> Inl Diverges
                | Some bytes \<Rightarrow>
                    bind_result (tar_create junk out bytes inflate s) (\<lambda>s.
                      let extra = align bytes 512 - bytes
                      in if extra > 0
                         then let (ret, bs, z) = inflate (ts_stream s) extra
                              in bind_result (assert_that (ret = Z_OK)) (\<lambda>_.
                                   Inr (True, s\<lparr>ts_stream := z, ts_out := put_bytes 0 bs (ts_out s)\<rparr>))
                         else Inr (True, s))))"

text \<open>The main loop may not end; then the result is \<open>None\<close>.\<close>

partial_function (option) tar_loop :: "cstr \<Rightarrow> 'z inflater \<Rightarrow> 'z tar_state \<Rightarrow> 'z tar_state result option" where
  "tar_loop junk inflate s =
    (case tar_entry junk inflate s of
       Inl e \<Rightarrow> Some (Inl e)
     | Inr r \<Rightarrow> if fst r then tar_loop junk inflate (snd r) else Some (Inr (snd r)))"

text \<open>
  \<^verbatim>\<open>load_into\<close>: \<open>inflate_init\<close> is the result of \<^verbatim>\<open>inflateInit2\<close> on the archive, with the stream.
\<close>

definition tar_load_into :: "cstr \<Rightarrow> 'z inflater \<Rightarrow> int \<times> 'z \<Rightarrow> tmp_dir \<Rightarrow> (nat \<Rightarrow> tar_node) \<Rightarrow> nat
    \<Rightarrow> (int \<times> tmp_dir \<times> (nat \<Rightarrow> tar_node)) result option" where
  "tar_load_into junk inflate inflate_init dir nodes next_node =
    (if fst inflate_init \<noteq> Z_OK then Some (Inl AssertFailed)
     else map_option (\<lambda>r. bind_result r (\<lambda>s. Inr (ts_count s, ts_dir s, ts_nodes s)))
       (tar_loop junk inflate \<lparr>ts_stream = snd inflate_init, ts_out = junk, ts_dir = dir, ts_nodes = nodes, ts_next = next_node,
          ts_count = 0\<rparr>))"


subsection \<open>The size field\<close>

text \<open>A number as \<open>w\<close> octal digits.\<close>

fun octal :: "nat \<Rightarrow> nat \<Rightarrow> nat list" where
  "octal 0 n = []"
| "octal (Suc w) n = octal w (n div 8) @ [n mod 8]"

lemma octal_length [simp]: "length (octal w n) = w"
  by (induction w arbitrary: n) auto

lemma octal_digit: "d \<in> set (octal w n) \<Longrightarrow> d < 8"
  by (induction w arbitrary: n) auto

lemma octal_value: "foldl (\<lambda>a d. 8 * a + d) 0 (octal w n) = n mod 8 ^ w"
proof (induction w arbitrary: n)
  case (Suc w)
  then show ?case
    by (simp add: mod_mult2_eq add.commute)
qed simp

lemma ato8_char: "d < 8 \<Longrightarrow> (scast (of_nat (48 + d) :: u8) :: u32) - 0x30 = of_nat d" "d < 8 \<Longrightarrow> (of_nat (48 + d) :: u8) \<noteq> 0"
  "d < 8 \<Longrightarrow> (of_nat (48 + d) :: u8) = 0x30 \<longleftrightarrow> d = 0"
proof -
  have "d < 8 \<Longrightarrow> d = 0 \<or> d = 1 \<or> d = 2 \<or> d = 3 \<or> d = 4 \<or> d = 5 \<or> d = 6 \<or> d = 7"
    by auto
  then show "d < 8 \<Longrightarrow> (scast (of_nat (48 + d) :: u8) :: u32) - 0x30 = of_nat d" "d < 8 \<Longrightarrow> (of_nat (48 + d) :: u8) \<noteq> 0"
    "d < 8 \<Longrightarrow> (of_nat (48 + d) :: u8) = 0x30 \<longleftrightarrow> d = 0"
    by auto
qed

lemma ato8_digits_value:
  assumes "\<forall>j < length ds. buf j = of_nat (48 + ds ! j)" "\<forall>d \<in> set ds. d < 8" "i < length ds"
  shows "ato8_digits buf (length ds) i (8 * of_nat acc) = of_nat (foldl (\<lambda>a d. 8 * a + d) acc (drop i ds))"
  using assms(3)
proof (induction "length ds - i" arbitrary: i acc)
  case (Suc k)
  have d: "ds ! i < 8"
    using Suc.prems assms(2) by simp
  then have b: "buf i \<noteq> 0" "scast (buf i) - 0x30 = (of_nat (ds ! i) :: u32)"
    using assms(1) Suc.prems ato8_char by simp_all
  have lt: "i < length ds - 1 \<longleftrightarrow> Suc i < length ds"
    by auto
  have one: "ato8_digits buf (length ds) i (8 * of_nat acc) = ato8_digits buf (length ds) (Suc i)
      (if Suc i < length ds then 8 * of_nat (8 * acc + ds ! i) else of_nat (8 * acc + ds ! i))"
    using b(1) Suc.prems unfolding ato8_digits.simps [of buf "length ds" i] b(2) lt by (simp add: Let_def algebra_simps)
  have drop: "drop i ds = ds ! i # drop (Suc i) ds"
    using Suc.prems by (simp add: Cons_nth_drop_Suc)
  show ?case
  proof (cases "Suc i < length ds")
    case True
    then have "ato8_digits buf (length ds) (Suc i) (8 * of_nat (8 * acc + ds ! i))
        = of_nat (foldl (\<lambda>a d. 8 * a + d) (8 * acc + ds ! i) (drop (Suc i) ds))"
      using Suc.hyps(2) by (intro Suc.hyps(1)) auto
    then show ?thesis
      unfolding one drop using True by (simp del: of_nat_add of_nat_mult)
  next
    case False
    then show ?thesis
      unfolding one drop by (simp add: ato8_digits.simps)
  qed
qed simp

lemma skip_zeros_stop: "\<forall>j < n. buf (i + j) = 0x30 \<Longrightarrow> buf (i + n) \<noteq> 0x30 \<Longrightarrow> skip_zeros buf i = Some (i + n)"
proof (induction n arbitrary: i)
  case 0
  then show ?case
    by (subst skip_zeros.simps) simp
next
  case (Suc n)
  have "skip_zeros buf (Suc i) = Some (Suc i + n)"
    using Suc by (intro Suc.IH) (auto dest: spec [of _ "Suc _"])
  then show ?case
    using Suc.prems(1) by (subst skip_zeros.simps) (auto dest: spec [of _ 0])
qed

lemma foldl_zeros: "\<forall>d \<in> set ds. d = 0 \<Longrightarrow> foldl (\<lambda>a d. 8 * a + d) 0 ds = (0::nat)"
  by (induction ds) auto

lemma ato8_value:
  assumes "\<forall>j < length ds. buf j = of_nat (48 + ds ! j)" "\<forall>d \<in> set ds. d < 8" "buf (length ds) \<noteq> 0x30"
  shows "ato8 buf (length ds) = Some (of_nat (foldl (\<lambda>a d. 8 * a + d) 0 ds))"
proof -
  define n where "n = length (takeWhile (\<lambda>d. d = 0) ds)"
  have n: "n \<le> length ds"
    by (simp add: n_def length_takeWhile_le)
  have zeros: "\<forall>d \<in> set (take n ds). d = 0"
    unfolding n_def by (metis set_takeWhileD takeWhile_eq_take)
  have "\<forall>j < n. buf (0 + j) = 0x30"
  proof (intro allI impI)
    fix j
    assume j: "j < n"
    then have "ds ! j \<in> set (take n ds)"
      using n by (auto simp: in_set_conv_nth intro!: exI [of _ j])
    then have "ds ! j = 0"
      using zeros by blast
    then show "buf (0 + j) = 0x30"
      using assms(1) j n by simp
  qed
  moreover have "buf (0 + n) \<noteq> 0x30"
  proof (cases "n < length ds")
    case True
    then have "ds ! n \<noteq> 0"
      using nth_length_takeWhile [of "\<lambda>d. d = 0" ds] by (simp add: n_def)
    then show ?thesis
      using True assms(1,2) ato8_char(3) [of "ds ! n"] by simp
  qed (use n assms(3) in auto)
  ultimately have "skip_zeros buf 0 = Some n"
    using skip_zeros_stop [of n buf 0] by simp
  moreover have "foldl (\<lambda>a d. 8 * a + d) 0 ds = foldl (\<lambda>a d. 8 * a + d) 0 (drop n ds)"
    using foldl_zeros [OF zeros] by (metis append_take_drop_id foldl_append)
  moreover have "ato8_digits buf (length ds) n 0 = of_nat (foldl (\<lambda>a d. 8 * a + d) 0 (drop n ds))"
    using ato8_digits_value [OF assms(1,2), of n 0] n by (cases "n < length ds") (auto simp: ato8_digits.simps)
  ultimately show ?thesis
    by (simp add: ato8_def)
qed


subsection \<open>The decompressed stream\<close>

text \<open>
  What \<^verbatim>\<open>inflate\<close> is documented to do: while there is room for output and more bytes are left in the stream than the room holds, it fills the room
  with the next bytes and returns \<^verbatim>\<open>Z_OK\<close>.  \<open>left z\<close> are the bytes that a stream in state \<open>z\<close> still has to give.
\<close>

definition inflates :: "'z inflater \<Rightarrow> ('z \<Rightarrow> u8 list) \<Rightarrow> bool" where
  "inflates inflate left \<longleftrightarrow> (\<forall>z n. 0 < unat n \<and> unat n < length (left z) \<longrightarrow>
     (\<exists>z'. inflate z n = (Z_OK, take (unat n) (left z), z') \<and> left z' = drop (unat n) (left z)))"

lemma inflatesE:
  assumes "inflates inflate left" "0 < unat n" "unat n < length (left z)"
  obtains z' where "inflate z n = (Z_OK, take (unat n) (left z), z')" "left z' = drop (unat n) (left z)"
  using assms by (auto simp: inflates_def)

lemma put_bytes_append: "put_bytes (off + length a) b (put_bytes off a buf) = put_bytes off (a @ b) buf"
  by (auto simp: put_bytes_def nth_append fun_eq_iff diff_diff_eq)

lemma tar_data_reads:
  assumes "inflates inflate src"
  shows "unat left < length (src z) \<Longrightarrow> \<exists>z'. tar_data inflate left pos chunk z = Inr (put_bytes pos (take (unat left) (src z)) chunk, z')
    \<and> src z' = drop (unat left) (src z)"
proof (induction "unat left" arbitrary: left pos chunk z rule: less_induct)
  case less
  show ?case
  proof (cases "left = 0")
    case True
    then show ?thesis
      by (subst tar_data.simps) (auto simp: put_bytes_def fun_eq_iff)
  next
    case False
    define req :: u32 where "req = (if left \<ge> 1024 then 1024 else left)"
    have req: "0 < unat req" "unat req \<le> unat left"
      using False by (auto simp: req_def word_le_nat_alt unat_gt_0)
    obtain z1 where z1: "inflate z req = (Z_OK, take (unat req) (src z), z1)" "src z1 = drop (unat req) (src z)"
      using inflatesE [OF assms req(1), of z] less.prems req(2) by auto
    have len: "length (take (unat req) (src z)) = unat req"
      using less.prems req(2) by simp
    have left: "unat (left - req) = unat left - unat req"
      by (rule unat_sub) (use req(2) in \<open>simp add: word_le_nat_alt\<close>)
    have lt: "unat (left - req) < unat left" and room: "unat (left - req) < length (src z1)"
      unfolding z1(2) left length_drop using req less.prems by linarith+
    obtain z' where z': "tar_data inflate (left - req) (pos + unat req) (put_bytes pos (take (unat req) (src z)) chunk) z1
        = Inr (put_bytes (pos + unat req) (take (unat (left - req)) (src z1)) (put_bytes pos (take (unat req) (src z)) chunk), z')"
        "src z' = drop (unat (left - req)) (src z1)"
      using less.hyps [OF lt, of z1 "pos + unat req" "put_bytes pos (take (unat req) (src z)) chunk"] room by blast
    have "take (unat left) (src z) = take (unat req) (src z) @ take (unat (left - req)) (src z1)"
      unfolding z1(2) left using take_add [of "unat req" "unat left - unat req" "src z"] req(2) by simp
    then have "put_bytes (pos + unat req) (take (unat (left - req)) (src z1)) (put_bytes pos (take (unat req) (src z)) chunk)
        = put_bytes pos (take (unat left) (src z)) chunk"
      using put_bytes_append [of pos "take (unat req) (src z)"] len by simp
    moreover have "src z' = drop (unat left) (src z)"
      using z'(2) z1(2) left req(2) by simp
    moreover have "tar_data inflate left pos chunk z
        = tar_data inflate (left - req) (pos + unat req) (put_bytes pos (take (unat req) (src z)) chunk) z1"
      using False z1(1) len by (subst tar_data.simps) (simp add: Let_def Z_OK_def Z_STREAM_END_def word_gt_0 req_def [symmetric])
    ultimately show ?thesis
      using z'(1) by simp
  qed
qed

lemma node_strcpy_copies:
  assumes "is_cstr src bs" "0 < length bs" "length bs \<le> 128"
  shows "i < length bs \<Longrightarrow> node_strcpy src i dest = Inr (\<lambda>j. if i \<le> j \<and> j < length bs then bs ! j else dest j)"
proof (induction "length bs - i" arbitrary: i dest)
  case (Suc k)
  let ?d = "dest(i := src i)"
  show ?case
  proof (cases "Suc i < length bs")
    case True
    have "k = length bs - Suc i"
      using Suc.hyps(2) by simp
    then have "node_strcpy src (Suc i) ?d = Inr (\<lambda>j. if Suc i \<le> j \<and> j < length bs then bs ! j else ?d j)"
      using Suc.hyps(1) [of "Suc i" ?d] True by blast
    moreover have "(\<lambda>j. if Suc i \<le> j \<and> j < length bs then bs ! j else ?d j) = (\<lambda>j. if i \<le> j \<and> j < length bs then bs ! j else dest j)"
      using is_cstr_nth [OF assms(1) Suc.prems] Suc.prems by (auto simp: fun_eq_iff)
    moreover have "src (Suc i) \<noteq> 0"
      using True is_cstr_zero [OF assms(1), of "Suc i"] by simp
    ultimately show ?thesis
      using Suc.prems assms(3) by (subst node_strcpy.simps) simp
  next
    case False
    then have n: "Suc i = length bs"
      using Suc.prems by simp
    then have "node_strcpy src i dest = Inr ?d"
      using is_cstr_end [OF assms(1)] assms(3) Suc.prems by (subst node_strcpy.simps) simp
    moreover have "?d = (\<lambda>j. if i \<le> j \<and> j < length bs then bs ! j else dest j)"
      using is_cstr_nth [OF assms(1) Suc.prems] n by (auto simp: fun_eq_iff)
    ultimately show ?thesis
      by simp
  qed
qed simp

subsection \<open>Archives\<close>

definition padding :: "nat \<Rightarrow> nat" where
  "padding n = (512 - n mod 512) mod 512"

text \<open>The header of a file: its name, and its size as eleven octal digits.\<close>

definition tar_header :: "u8 list \<Rightarrow> u8 list \<Rightarrow> nat \<Rightarrow> bool" where
  "tar_header h name n \<longleftrightarrow> length h = 512 \<and> is_cstr ((!) h) name \<and> 0 < length name \<and> length name < 100
     \<and> (\<forall>j < 11. h ! (124 + j) = of_nat (48 + octal 11 n ! j)) \<and> h ! 135 \<noteq> 0x30"

text \<open>The bytes of an archive of the files, given by name and contents: it ends in an empty entry, with more bytes behind it.\<close>

fun is_archive :: "(u8 list \<times> u8 list) list \<Rightarrow> u8 list \<Rightarrow> bool" where
  "is_archive [] bs \<longleftrightarrow> (\<exists>rest. rest \<noteq> [] \<and> bs = replicate 512 0 @ rest)"
| "is_archive ((name, d) # es) bs \<longleftrightarrow> (\<exists>h p rest. bs = h @ d @ p @ rest \<and> tar_header h name (length d)
     \<and> length p = padding (length d) \<and> length d + 512 \<le> 2 ^ 32 \<and> is_archive es rest)"

lemma is_archive_more: "is_archive es bs \<Longrightarrow> bs \<noteq> []"
  by (cases es) (auto simp: tar_header_def)

text \<open>
  The node of a file: \<^verbatim>\<open>strcpy\<close> writes the bytes of the name into the new node, whose memory held \<open>junk\<close>, and no
  terminator after them; the length and the contents are those of the file.
\<close>

definition node_holds :: "cstr \<Rightarrow> tar_node \<Rightarrow> u8 list \<Rightarrow> u8 list \<Rightarrow> bool" where
  "node_holds junk node name d \<longleftrightarrow> (\<forall>j. tn_name node j = (if j < length name then name ! j else junk j)) \<and> tn_length node = of_nat (length d)
     \<and> length d \<le> unat (tf_size (tn_file node)) \<and> (\<forall>j < length d. tf_chunk (tn_file node) j = d ! j)"

lemma byte_size_header:
  assumes "tar_header h name n" "\<And>i. i < 512 \<Longrightarrow> out i = h ! i" "n < 2 ^ 32"
  shows "byte_size out = Some (of_nat n)"
proof -
  have "ato8 (\<lambda>i. out (124 + i)) (length (octal 11 n)) = Some (of_nat (foldl (\<lambda>a d. 8 * a + d) 0 (octal 11 n)))"
    by (rule ato8_value) (use assms octal_digit in \<open>auto simp: tar_header_def\<close>)
  moreover have "n mod 8 ^ 11 = n"
    using assms(3) by simp
  ultimately show ?thesis
    unfolding byte_size_def octal_value octal_length by simp
qed

lemma tar_create_ok:
  assumes "inflates inflate src" "is_cstr ent name" "0 < length name" "length name < 100" "length d < 2 ^ 32"
    "src (ts_stream s) = d @ rest" "rest \<noteq> []"
  shows "\<exists>key node z. tar_create junk ent (of_nat (length d)) inflate s
      = Inr (s\<lparr>ts_stream := z, ts_dir := ht_store oo_hash_string string_eq key (ts_next s) (ts_dir s), ts_next := Suc (ts_next s),
          ts_nodes := (ts_nodes s)(ts_next s := node)\<rparr>)
    \<and> string_bytes key = name \<and> node_holds junk node name d \<and> src z = rest"
proof -
  let ?bytes = "of_nat (length d) :: u32"
  have b: "unat ?bytes = length d"
    using assms(5) by (simp add: unat_of_nat_u32)
  have "string_set junk (Some ent) (length name) True (string_blank junk) \<noteq> None"
    using assms(3) by (simp add: string_set_def Let_def)
  then obtain key where key: "string_set junk (Some ent) (length name) True (string_blank junk) = Some key"
    by blast
  then have "string_bytes key = map ent [0..<length name]"
    using string_bytes_set(1) assms(3) by blast
  also have "\<dots> = name"
    by (rule nth_equalityI) (use assms(2) in \<open>auto simp: is_cstr_nth\<close>)
  finally have bytes: "string_bytes (string_copy junk key (string_blank junk)) = name"
    by (simp add: string_bytes_copy)
  define nm where "nm = (\<lambda>j. if j < length name then name ! j else (junk(0 := 0)) j)"
  have nm: "node_strcpy ent 0 (junk(0 := 0)) = Inr nm" "\<forall>j. nm j = (if j < length name then name ! j else junk j)"
    using node_strcpy_copies [OF assms(2,3), of 0 "junk(0 := 0)"] assms(3,4) by (simp_all add: nm_def)
  let ?file = "tmp_resize junk ?bytes (tmp_file_new junk)"
  have size: "length d \<le> unat (tf_size ?file)"
    using b by (auto simp: tmp_resize_def tmp_grow_def tmp_file_new_def word_less_nat_alt not_less)
  obtain z where z: "tar_data inflate ?bytes 0 (tf_chunk ?file) (ts_stream s) = Inr (put_bytes 0 d (tf_chunk ?file), z)" "src z = rest"
    using tar_data_reads [OF assms(1), of ?bytes "ts_stream s" 0 "tf_chunk ?file"] b assms(6,7) by auto
  have "node_holds junk \<lparr>tn_name = nm, tn_length = ?bytes, tn_file = ?file\<lparr>tf_chunk := put_bytes 0 d (tf_chunk ?file)\<rparr>\<rparr> name d"
    using nm(2) size by (simp add: node_holds_def put_bytes_def)
  moreover have "tar_create junk ent ?bytes inflate s = Inr (s\<lparr>ts_stream := z,
      ts_dir := ht_store oo_hash_string string_eq (string_copy junk key (string_blank junk)) (ts_next s) (ts_dir s), ts_next := Suc (ts_next s),
      ts_nodes := (ts_nodes s)(ts_next s := \<lparr>tn_name = nm, tn_length = ?bytes, tn_file = ?file\<lparr>tf_chunk := put_bytes 0 d (tf_chunk ?file)\<rparr>\<rparr>)\<rparr>)"
    using strlen_correct [OF assms(2)] key nm(1) z(1) by (simp add: tar_create_def tmp_create_file_def Let_def)
  ultimately show ?thesis
    using bytes z(2) by blast
qed

lemma extra_padding:
  assumes "n + 512 \<le> 2 ^ 32"
  shows "unat (align (of_nat n) 512 - of_nat n :: u32) = padding n"
proof -
  have n: "unat (of_nat n :: u32) = n"
    using assms by (simp add: unat_of_nat_u32)
  obtain q r where qr: "n = 512 * q + r" "r < 512"
    using that [of "n div 512" "n mod 512"] by simp
  have up: "(n + 511) div 512 * 512 = (if r = 0 then n else 512 * q + 512)"
  proof (cases "r = 0")
    case False
    then have "(n + 511) div 512 = Suc q"
      using qr by (intro div_nat_eqI) simp_all
    then show ?thesis
      using False by simp
  qed (simp add: qr)
  then have "unat (align (of_nat n) 512) = (if r = 0 then n else 512 * q + 512)"
    using align_spec [of 9 "of_nat n"] assms n by simp
  then have "unat (align (of_nat n) 512 - of_nat n :: u32) = (if r = 0 then n else 512 * q + 512) - n"
    using n qr by (subst unat_sub) (auto simp: word_le_nat_alt)
  then show ?thesis
    using qr by (simp add: padding_def)
qed

lemma tar_entry_file:
  assumes "inflates inflate src" "src (ts_stream s) = h @ d @ p @ rest" "rest \<noteq> []" "tar_header h name (length d)"
    "length p = padding (length d)" "length d + 512 \<le> 2 ^ 32"
  shows "\<exists>s' key node. tar_entry junk inflate s = Inr (True, s') \<and> src (ts_stream s') = rest \<and> ts_count s' = ts_count s + 1
    \<and> ts_next s' = Suc (ts_next s) \<and> ts_dir s' = ht_store oo_hash_string string_eq key (ts_next s) (ts_dir s)
    \<and> ts_nodes s' = (ts_nodes s)(ts_next s := node) \<and> string_bytes key = name \<and> node_holds junk node name d"
proof -
  have h: "length h = 512" "is_cstr ((!) h) name" "0 < length name" "length name < 100"
    using assms(4) by (auto simp: tar_header_def)
  obtain z1 where z1: "inflate (ts_stream s) 512 = (Z_OK, h, z1)" "src z1 = d @ p @ rest"
    using inflatesE [OF assms(1), of 512 "ts_stream s"] assms(2,3) h(1) by auto
  define out where "out = put_bytes 0 h (ts_out s)"
  have out: "i < 512 \<Longrightarrow> out i = h ! i" for i
    using h(1) by (simp add: out_def put_bytes_def)
  then have cstr: "is_cstr out name"
    using h by (auto simp: is_cstr_def)
  have "out 0 \<noteq> 0"
    using is_cstr_zero [OF cstr, of 0] h(3) by simp
  then have ne: "\<not> entry_empty_p out"
    unfolding entry_empty_p_def by (metis atLeastLessThan_iff set_upt zero_le zero_less_numeral)
  have size: "byte_size out = Some (of_nat (length d))"
    by (rule byte_size_header [OF assms(4) out]) (use assms(6) in auto)
  let ?s = "s\<lparr>ts_stream := z1, ts_out := out, ts_count := ts_count s + 1\<rparr>"
  obtain key node z2 where c: "tar_create junk out (of_nat (length d)) inflate ?s
      = Inr (?s\<lparr>ts_stream := z2, ts_dir := ht_store oo_hash_string string_eq key (ts_next s) (ts_dir s), ts_next := Suc (ts_next s),
          ts_nodes := (ts_nodes s)(ts_next s := node)\<rparr>)" "string_bytes key = name" "node_holds junk node name d" "src z2 = p @ rest"
    using tar_create_ok [OF assms(1) cstr h(3,4), of d ?s "p @ rest" junk] z1(2) assms(3,6) by auto
  let ?extra = "align (of_nat (length d)) 512 - of_nat (length d) :: u32"
  have extra: "unat ?extra = length p"
    using extra_padding [OF assms(6)] assms(5) by simp
  show ?thesis
  proof (cases "?extra > 0")
    case True
    obtain z3 where z3: "inflate z2 ?extra = (Z_OK, p, z3)" "src z3 = rest"
      using inflatesE [OF assms(1), of ?extra z2] True c(4) extra assms(3) by (auto simp: word_less_nat_alt)
    then show ?thesis
      using True z1(1) ne size c by (simp add: tar_entry_def Let_def out_def [symmetric] Z_OK_def) blast
  next
    case False
    then have "p = []"
      using extra by (simp add: word_gt_0)
    then show ?thesis
      using False z1(1) ne size c by (simp add: tar_entry_def Let_def out_def [symmetric] Z_OK_def) blast
  qed
qed

lemma tar_entry_end:
  assumes "inflates inflate src" "src (ts_stream s) = replicate 512 0 @ rest" "rest \<noteq> []"
  shows "\<exists>z out. tar_entry junk inflate s = Inr (False, s\<lparr>ts_stream := z, ts_out := out\<rparr>)"
proof -
  obtain z where "inflate (ts_stream s) 512 = (Z_OK, replicate 512 0, z)"
    using inflatesE [OF assms(1), of 512 "ts_stream s"] assms(2,3) by auto
  moreover have "entry_empty_p (put_bytes 0 (replicate 512 0) (ts_out s))"
    unfolding entry_empty_p_def put_bytes_def by simp
  ultimately show ?thesis
    by (auto simp: tar_entry_def Let_def Z_OK_def)
qed

text \<open>Storing in a table that is not yet dense.\<close>

lemma string_store_sparse:
  assumes "ht_inv oo_hash_string string_eq string_ok t" "string_ok k" "ht_bins t = 16" "unat (ht_entries t) < 12"
  shows "ht_inv oo_hash_string string_eq string_ok (ht_store oo_hash_string string_eq k v t)"
    "string_bytes k' = string_bytes k \<Longrightarrow> ht_fetch oo_hash_string string_eq k' (ht_store oo_hash_string string_eq k v t) = Some v"
    "string_ok k' \<Longrightarrow> string_bytes k' \<noteq> string_bytes k
      \<Longrightarrow> ht_fetch oo_hash_string string_eq k' (ht_store oo_hash_string string_eq k v t) = ht_fetch oo_hash_string string_eq k' t"
    "ht_bins (ht_store oo_hash_string string_eq k v t) = 16"
    "unat (ht_entries (ht_store oo_hash_string string_eq k v t)) \<le> Suc (unat (ht_entries t))"
proof -
  let ?t = "ht_store oo_hash_string string_eq k v t"
  have nd: "\<not> max_density_p t"
    using assms(3,4) by (simp add: max_density_p_def not_le word_less_nat_alt)
  have s: "ht_inv oo_hash_string string_eq string_ok ?t" "ht_fetch oo_hash_string string_eq k ?t = Some v"
    "\<And>k'. string_ok k' \<Longrightarrow> \<not> string_eq k k' \<Longrightarrow> ht_fetch oo_hash_string string_eq k' ?t = ht_fetch oo_hash_string string_eq k' t"
    using string_keys.store_spec [OF assms(1,2), of v] assms(3) nd by simp_all
  show "ht_inv oo_hash_string string_eq string_ok ?t"
    by (fact s)
  show "ht_fetch oo_hash_string string_eq k' ?t = Some v" if "string_bytes k' = string_bytes k"
  proof -
    have "string_ok k'" "string_eq k k'"
      using that assms(2) by (simp_all add: string_ok_def string_eq_bytes)
    then show ?thesis
      using s(2) string_keys.fetch_key [OF s(1) assms(2)] by simp
  qed
  show "ht_fetch oo_hash_string string_eq k' ?t = ht_fetch oo_hash_string string_eq k' t" if "string_ok k'" "string_bytes k' \<noteq> string_bytes k"
    by (rule s(3)) (use that assms(2) in \<open>auto simp: string_eq_bytes\<close>)
  show "ht_bins ?t = 16"
    using nd assms(3) by (simp add: ht_store_def Let_def split: prod.split)
  have "unat (ht_entries t + 1) = Suc (unat (ht_entries t))"
    using assms(4) by (simp add: unat_word_ariths)
  then show "unat (ht_entries ?t) \<le> Suc (unat (ht_entries t))"
    using nd by (auto simp: ht_store_def Let_def split: prod.split)
qed


subsection \<open>The files of an archive\<close>

text \<open>What loading the files \<open>es\<close> makes of a state: a node for each of them, in order, and its name in the directory.\<close>

definition tar_loaded :: "cstr \<Rightarrow> (u8 list \<times> u8 list) list \<Rightarrow> 'z tar_state \<Rightarrow> 'z tar_state \<Rightarrow> bool" where
  "tar_loaded junk es s s' \<longleftrightarrow> ts_count s' = ts_count s + int (length es)
     \<and> (\<forall>i < length es. node_holds junk (ts_nodes s' (ts_next s + i)) (fst (es ! i)) (snd (es ! i)))
     \<and> (\<forall>j < ts_next s. ts_nodes s' j = ts_nodes s j)
     \<and> (\<forall>k. string_ok k \<and> string_bytes k \<notin> fst ` set es
          \<longrightarrow> ht_fetch oo_hash_string string_eq k (ts_dir s') = ht_fetch oo_hash_string string_eq k (ts_dir s))
     \<and> (\<forall>i < length es. \<forall>k. string_bytes k = fst (es ! i) \<longrightarrow> ht_fetch oo_hash_string string_eq k (ts_dir s') = Some (ts_next s + i))"

lemma tar_loaded_Cons:
  assumes "tar_loaded junk es s1 s'" "ts_count s1 = ts_count s + 1" "ts_next s1 = Suc (ts_next s)" "node_holds junk node name d"
    "ts_nodes s1 = (ts_nodes s)(ts_next s := node)" "name \<notin> fst ` set es" "0 \<notin> set name"
    "\<And>k. string_bytes k = name \<Longrightarrow> ht_fetch oo_hash_string string_eq k (ts_dir s1) = Some (ts_next s)"
    "\<And>k. string_ok k \<Longrightarrow> string_bytes k \<noteq> name
      \<Longrightarrow> ht_fetch oo_hash_string string_eq k (ts_dir s1) = ht_fetch oo_hash_string string_eq k (ts_dir s)"
  shows "tar_loaded junk ((name, d) # es) s s'"
  unfolding tar_loaded_def
proof (intro conjI allI impI)
  show "ts_count s' = ts_count s + int (length ((name, d) # es))"
    using assms(1,2) by (simp add: tar_loaded_def)
  show "ts_nodes s' j = ts_nodes s j" if "j < ts_next s" for j
    using assms(1,3,5) that by (simp add: tar_loaded_def)
  have "ts_nodes s' (ts_next s) = node"
    using assms(1,3,5) by (simp add: tar_loaded_def)
  then show "node_holds junk (ts_nodes s' (ts_next s + i)) (fst (((name, d) # es) ! i)) (snd (((name, d) # es) ! i))"
    if "i < length ((name, d) # es)" for i
    using assms(1,3,4) that by (cases i) (auto simp: tar_loaded_def)
  show "ht_fetch oo_hash_string string_eq k (ts_dir s') = ht_fetch oo_hash_string string_eq k (ts_dir s)"
    if "string_ok k \<and> string_bytes k \<notin> fst ` set ((name, d) # es)" for k
    using assms(1,9) that by (simp add: tar_loaded_def)
  show "ht_fetch oo_hash_string string_eq k (ts_dir s') = Some (ts_next s + i)"
    if "i < length ((name, d) # es)" "string_bytes k = fst (((name, d) # es) ! i)" for i k
  proof (cases i)
    case 0
    then have "string_bytes k = name" "string_ok k"
      using that(2) assms(7) by (simp_all add: string_ok_def)
    then show ?thesis
      using assms(1,6,8) 0 by (simp add: tar_loaded_def)
  next
    case (Suc j)
    then show ?thesis
      using assms(1,3) that by (simp add: tar_loaded_def)
  qed
qed

lemma tar_loop_loads:
  assumes "inflates inflate src"
  shows "is_archive es (src (ts_stream s)) \<Longrightarrow> ht_inv oo_hash_string string_eq string_ok (ts_dir s) \<Longrightarrow> ht_bins (ts_dir s) = 16
    \<Longrightarrow> unat (ht_entries (ts_dir s)) + length es \<le> 12 \<Longrightarrow> distinct (map fst es)
    \<Longrightarrow> \<exists>s'. tar_loop junk inflate s = Some (Inr s') \<and> tar_loaded junk es s s'"
proof (induction es arbitrary: s)
  case Nil
  then obtain z out where "tar_entry junk inflate s = Inr (False, s\<lparr>ts_stream := z, ts_out := out\<rparr>)"
    using tar_entry_end [OF assms, of s _ junk] unfolding is_archive.simps by blast
  then show ?case
    by (subst tar_loop.simps) (simp add: tar_loaded_def)
next
  case (Cons e es)
  obtain name d where e: "e = (name, d)"
    by fastforce
  obtain h p rest where a: "src (ts_stream s) = h @ d @ p @ rest" "tar_header h name (length d)" "length p = padding (length d)"
      "length d + 512 \<le> 2 ^ 32" "is_archive es rest"
    using Cons.prems(1) by (auto simp: e)
  obtain s1 key node where s1: "tar_entry junk inflate s = Inr (True, s1)" "src (ts_stream s1) = rest" "ts_count s1 = ts_count s + 1"
      "ts_next s1 = Suc (ts_next s)" "ts_dir s1 = ht_store oo_hash_string string_eq key (ts_next s) (ts_dir s)"
      "ts_nodes s1 = (ts_nodes s)(ts_next s := node)" "string_bytes key = name" "node_holds junk node name d"
    using tar_entry_file [OF assms a(1) is_archive_more [OF a(5)] a(2-4), of junk] by blast
  have nz: "0 \<notin> set name"
    using a(2) by (simp add: tar_header_def is_cstr_def)
  then have ok: "string_ok key"
    by (simp add: string_ok_def s1(7))
  note st = string_store_sparse [OF Cons.prems(2) ok Cons.prems(3), where v = "ts_next s", folded s1(5), unfolded s1(7)]
  have few: "unat (ht_entries (ts_dir s)) < 12"
    using Cons.prems(4) by simp
  obtain s' where s': "tar_loop junk inflate s1 = Some (Inr s')" "tar_loaded junk es s1 s'"
    using Cons.IH [of s1] a(5) st(1,4,5) [OF few] s1(2) Cons.prems(4,5) by auto
  have "tar_loaded junk (e # es) s s'"
    unfolding e
    by (rule tar_loaded_Cons [OF s'(2) s1(3,4,8,6) _ nz st(2,3) [OF few]]) (use Cons.prems(5) in \<open>auto simp: e\<close>)
  moreover have "tar_loop junk inflate s = Some (Inr s')"
    using s1(1) s'(1) by (subst tar_loop.simps) simp
  ultimately show ?case
    by blast
qed

lemma is_archive_name: "is_archive es bs \<Longrightarrow> i < length es \<Longrightarrow> 0 < length (fst (es ! i)) \<and> length (fst (es ! i)) < 100"
  by (induction es bs arbitrary: i rule: is_archive.induct) (auto simp: less_Suc_eq_0_disj tar_header_def)

lemma tmp_finddir_fetch:
  assumes "\<forall>j < length bs. p j = bs ! j" "0 < length bs" "length bs < 2 ^ 31"
  shows "\<exists>k. tmp_finddir junk dir p (int (length bs)) = Some (ht_fetch oo_hash_string string_eq k dir) \<and> string_bytes k = bs"
proof -
  have n: "unat (word_of_int (int (length bs)) :: u32) = length bs"
    using assms(3) unat_of_nat_u32 [of "length bs"] by simp
  obtain str where str: "string_set junk (Some p) (length bs) False (string_blank junk) = Some str"
    using assms(2) by (simp add: string_set_def Let_def)
  have "map p [0..<length bs] = bs"
    by (rule nth_equalityI) (use assms(1) in auto)
  then have "string_bytes (string_copy junk str (string_blank junk)) = bs"
    using string_bytes_set(1) [OF str assms(2)] by (simp add: string_bytes_copy)
  then show ?thesis
    using str n by (auto simp: tmp_finddir_def)
qed

text \<open>
  C6: The kernel boots with the files of its archive: loading a compressed tar archive of up to twelve files with different names into
  an empty \<^verbatim>\<open>tmpfs\<close> directory ends, counts the files, and afterwards a lookup of the name of a
  file gives its own node, which has the length and exactly the contents of the file; a lookup of any other
  name finds nothing.  The name field of the node starts with the bytes of the name and keeps the old contents of the
  memory after them, since \<^verbatim>\<open>strcpy\<close> writes no terminator.
\<close>

theorem tar_load_files:
  assumes "inflates inflate left" and "is_archive es (left z)" and "distinct (map fst es)" and "length es \<le> 12"
  shows "\<exists>dir nodes'. tar_load_into junk inflate (Z_OK, z) ht_new nodes next_node = Some (Inr (int (length es), dir, nodes'))
    \<and> (\<forall>i p. i < length es \<and> (\<forall>j < length (fst (es ! i)). p j = fst (es ! i) ! j)
         \<longrightarrow> tmp_finddir junk dir p (int (length (fst (es ! i)))) = Some (Some (next_node + i))
           \<and> node_holds junk (nodes' (next_node + i)) (fst (es ! i)) (snd (es ! i)))
    \<and> (\<forall>bs p. bs \<notin> fst ` set es \<and> 0 < length bs \<and> length bs < 2 ^ 31 \<and> 0 \<notin> set bs \<and> (\<forall>j < length bs. p j = bs ! j)
         \<longrightarrow> tmp_finddir junk dir p (int (length bs)) = Some None)"
proof -
  let ?s = "\<lparr>ts_stream = z, ts_out = junk, ts_dir = ht_new, ts_nodes = nodes, ts_next = next_node, ts_count = 0\<rparr>"
  obtain s' where l: "tar_loop junk inflate ?s = Some (Inr s')" "tar_loaded junk es ?s s'"
    using tar_loop_loads [OF assms(1), of es ?s junk] assms(2-4) string_keys.inv_new by (auto simp: ht_new_def ht_MinSize_def)
  have found: "tmp_finddir junk (ts_dir s') p (int (length (fst (es ! i)))) = Some (Some (next_node + i))"
    if i: "i < length es" and p: "\<forall>j < length (fst (es ! i)). p j = fst (es ! i) ! j" for i p
  proof -
    obtain k where "tmp_finddir junk (ts_dir s') p (int (length (fst (es ! i)))) = Some (ht_fetch oo_hash_string string_eq k (ts_dir s'))"
        "string_bytes k = fst (es ! i)"
      using tmp_finddir_fetch [OF p, of junk "ts_dir s'"] is_archive_name [OF assms(2) i] by auto
    then show ?thesis
      using l(2) i by (simp add: tar_loaded_def)
  qed
  have absent: "tmp_finddir junk (ts_dir s') p (int (length bs)) = Some None"
    if bs: "bs \<notin> fst ` set es" "0 < length bs" "length bs < 2 ^ 31" "0 \<notin> set bs" and p: "\<forall>j < length bs. p j = bs ! j" for bs p
  proof -
    obtain k where k: "tmp_finddir junk (ts_dir s') p (int (length bs)) = Some (ht_fetch oo_hash_string string_eq k (ts_dir s'))"
        "string_bytes k = bs"
      using tmp_finddir_fetch [OF p bs(2,3)] by blast
    have "ht_fetch oo_hash_string string_eq k (ht_new :: tmp_dir) = None"
      by (simp add: ht_fetch_def ht_new_def)
    then show ?thesis
      using l(2) k bs(1,4) by (simp add: tar_loaded_def string_ok_def)
  qed
  show ?thesis
    using l found absent by (auto simp: tar_load_into_def tar_loaded_def)
qed

text \<open>A stream that is the list of its bytes, and the archive of a file \<^verbatim>\<open>a\<close> with one byte.\<close>

definition list_inflate :: "u8 list inflater" where
  "list_inflate z n = (if unat n < length z then (Z_OK, take (unat n) z, drop (unat n) z) else (Z_STREAM_END, z, []))"

definition demo_nodes :: "nat \<Rightarrow> tar_node" where
  "demo_nodes = (\<lambda>_. \<lparr>tn_name = (\<lambda>_. 0), tn_length = 0, tn_file = tmp_file_new (\<lambda>_. 0)\<rparr>)"

definition demo_header :: "u8 list" where
  "demo_header = 97 # replicate 123 0 @ map (\<lambda>d. of_nat (48 + d)) (octal 11 1) @ replicate 377 0"

lemma demo_header_ok: "tar_header demo_header [97] 1"
proof -
  have "demo_header ! (124 + j) = of_nat (48 + octal 11 1 ! j)" if "j < 11" for j
    using that by (simp add: demo_header_def nth_append)
  then show ?thesis
    by (simp add: tar_header_def is_cstr_def) (simp add: demo_header_def nth_append)
qed

theorem tar_load_files_witness:
  "\<exists>dir nodes'. tar_load_into (\<lambda>_. 0) list_inflate (Z_OK, demo_header @ [7] @ replicate 511 0 @ replicate 512 0 @ [0]) ht_new demo_nodes 5
       = Some (Inr (1, dir, nodes'))
     \<and> tmp_finddir (\<lambda>_. 0) dir (\<lambda>i. 97) 1 = Some (Some 5) \<and> tf_chunk (tn_file (nodes' 5)) 0 = 7
     \<and> tmp_finddir (\<lambda>_. 0) dir (\<lambda>i. 98) 1 = Some None"
proof -
  have "inflates list_inflate (\<lambda>z. z)"
    by (simp add: inflates_def list_inflate_def)
  moreover have "is_archive [([97], [7])] (demo_header @ [7] @ replicate 511 0 @ replicate 512 0 @ [0])"
    using demo_header_ok unfolding is_archive.simps
    by (intro exI [of _ demo_header] exI [of _ "replicate 511 0"] exI [of _ "replicate 512 0 @ [0]"]) (auto simp: padding_def)
  ultimately obtain dir nodes' where l: "tar_load_into (\<lambda>_. 0) list_inflate (Z_OK, demo_header @ [7] @ replicate 511 0 @ replicate 512 0 @ [0])
        ht_new demo_nodes 5 = Some (Inr (1, dir, nodes'))"
      "\<And>p. p 0 = 97 \<Longrightarrow> tmp_finddir (\<lambda>_. 0) dir p 1 = Some (Some 5) \<and> node_holds (\<lambda>_. 0) (nodes' 5) [97] [7]"
      "\<And>p. p 0 = 98 \<Longrightarrow> tmp_finddir (\<lambda>_. 0) dir p 1 = Some None"
    using tar_load_files [of list_inflate "\<lambda>z. z" "[([97], [7])]" "demo_header @ [7] @ replicate 511 0 @ replicate 512 0 @ [0]" "\<lambda>_. 0" demo_nodes 5]
    by (force dest: spec [of _ "[98]"])
  then show ?thesis
    by (auto simp: node_holds_def)
qed

end
