(* ===== verification/Elf.thy ===== *)
theory Elf
  imports Scheduler
begin

text \<open>
  Program loading: \<^verbatim>\<open>elf.hpp\<close>, \<^verbatim>\<open>elf.cpp\<close> and the system call \<^verbatim>\<open>exec\<close>.  The virtual methods of file nodes that the loader calls
  are an argument.  The tables of argument strings are in the same memory as
  the stack they are copied to.
\<close>

subsection \<open>The file format\<close>

text \<open>Little-endian fields of a buffer.\<close>

definition buf_u16 :: "(nat \<Rightarrow> u8) \<Rightarrow> nat \<Rightarrow> u16" where
  "buf_u16 b i = ucast (b i) OR push_bit 8 (ucast (b (i + 1)))"

definition buf_u32 :: "(nat \<Rightarrow> u8) \<Rightarrow> nat \<Rightarrow> u32" where
  "buf_u32 b i = ucast (b i) OR push_bit 8 (ucast (b (i + 1))) OR push_bit 16 (ucast (b (i + 2))) OR push_bit 24 (ucast (b (i + 3)))"

definition ET_EXEC :: u16 where "ET_EXEC = 2"
definition ET_DYN :: u16 where "ET_DYN = 3"
definition PT_LOAD :: u32 where "PT_LOAD = 1"
definition PT_INTERP :: u32 where "PT_INTERP = 3"
definition PF_R :: u32 where "PF_R = 4"
definition PF_W :: u32 where "PF_W = 2"
definition PF_X :: u32 where "PF_X = 1"
definition MT_X86 :: u16 where "MT_X86 = 3"

record program_header =
  p_type :: u32
  p_offset :: u32
  p_vaddr :: u32
  p_filesz :: u32
  p_memsz :: u32
  p_flags :: u32

definition program_header_of :: "(nat \<Rightarrow> u8) \<Rightarrow> nat \<Rightarrow> program_header" where
  "program_header_of b i = \<lparr>p_type = buf_u32 b i, p_offset = buf_u32 b (i + 4), p_vaddr = buf_u32 b (i + 8), p_filesz = buf_u32 b (i + 16),
     p_memsz = buf_u32 b (i + 20), p_flags = buf_u32 b (i + 24)\<rparr>"

definition load_p :: "program_header \<Rightarrow> bool" where "load_p ph \<longleftrightarrow> p_type ph = PT_LOAD"
definition interp_p :: "program_header \<Rightarrow> bool" where "interp_p ph \<longleftrightarrow> p_type ph = PT_INTERP"

definition mmap_flags :: "program_header \<Rightarrow> u32" where
  "mmap_flags ph =
    (let flags = 0;
         flags = (if p_flags ph AND PF_R = PF_R then flags OR eReadable else flags);
         flags = (if p_flags ph AND PF_W = PF_W then flags OR eWritable else flags)
     in if p_flags ph AND PF_X = PF_X then flags OR eExecutable else flags)"

record elf_header =
  e_ident :: "nat \<Rightarrow> u8"
  e_type :: u16
  e_machine :: u16
  e_version :: u32
  e_entry :: u32
  e_phoff :: u32
  e_shoff :: u32
  e_phentsize :: u16
  e_phnum :: u16
  e_shentsize :: u16
  e_shnum :: u16
  e_shstrndx :: u16

definition HEADER_SIZE :: u32 where "HEADER_SIZE = 52"
definition PROGRAM_HEADER_SIZE :: nat where "PROGRAM_HEADER_SIZE = 32"
definition SECTION_SIZE :: nat where "SECTION_SIZE = 40"

definition elf_header_of :: "(nat \<Rightarrow> u8) \<Rightarrow> elf_header" where
  "elf_header_of b = \<lparr>e_ident = b, e_type = buf_u16 b 16, e_machine = buf_u16 b 18, e_version = buf_u32 b 20, e_entry = buf_u32 b 24,
     e_phoff = buf_u32 b 28, e_shoff = buf_u32 b 32, e_phentsize = buf_u16 b 42, e_phnum = buf_u16 b 44, e_shentsize = buf_u16 b 46,
     e_shnum = buf_u16 b 48, e_shstrndx = buf_u16 b 50\<rparr>"

definition elf_validate :: "elf_header \<Rightarrow> bool" where
  "elf_validate hdr \<longleftrightarrow>
    \<not> (e_ident hdr 0 \<noteq> 0x7f \<or> e_ident hdr 1 \<noteq> 0x45 \<or> e_ident hdr 2 \<noteq> 0x4c \<or> e_ident hdr 3 \<noteq> 0x46)
    \<and> e_ident hdr 4 = 1 \<and> e_ident hdr 5 = 1 \<and> e_ident hdr 6 = 1
    \<and> (e_type hdr = ET_EXEC \<or> e_type hdr = ET_DYN) \<and> e_machine hdr = MT_X86 \<and> e_version hdr = 1"

definition ph_size :: "elf_header \<Rightarrow> u32" where
  "ph_size hdr = ucast (e_phentsize hdr) * ucast (e_phnum hdr)"

text \<open>
  \<^verbatim>\<open>find_section\<close> over a whole file in memory; a section is its offset in the file, and every turn of the loop looks at the first one.
\<close>

definition find_section :: "(nat \<Rightarrow> u8) \<Rightarrow> cstr \<Rightarrow> elf_header \<Rightarrow> nat option result" where
  "find_section buffer name hdr =
    bind_result (assert_that (unat (e_shentsize hdr) = SECTION_SIZE)) (\<lambda>_.
      let sections = unat (e_shoff hdr);
          strings = unat (buf_u32 buffer (sections + SECTION_SIZE * unat (e_shstrndx hdr) + 16))
      in fold_result (\<lambda>_ found. case found of
             Some sec \<Rightarrow> Inr (Some sec)
           | None \<Rightarrow>
               (case strcmp (\<lambda>i. buffer (strings + unat (buf_u32 buffer sections) + i)) name of
                  None \<Rightarrow> Inl Diverges
                | Some c \<Rightarrow> Inr (if c = 0 then Some sections else None)))
           [0..<unat (e_shnum hdr)] None)"

text \<open>A symbol: where it is and how long, and its kind.\<close>

record elf_symbol =
  sy_value :: u32
  sy_size :: u32
  sy_info :: u8

definition func_p :: "elf_symbol \<Rightarrow> bool" where "func_p sy \<longleftrightarrow> sy_info sy AND 0xf = 2"

definition symbol_contains_p :: "u32 \<Rightarrow> elf_symbol \<Rightarrow> u32 option" where
  "symbol_contains_p addr sy =
    (if addr \<ge> sy_value sy \<and> addr < sy_value sy + sy_size sy then Some (sy_value sy - addr) else None)"


subsection \<open>Headers and segments\<close>

text \<open>
  What the loader uses of file nodes: the length of a file, the contents of a buffer of the given
  size after \<^verbatim>\<open>read(offset, size, buffer)\<close>, and \<^verbatim>\<open>finddir\<close> of the root directory.
\<close>

record elf_nodes =
  nop_length :: "nat \<Rightarrow> u32"
  nop_read :: "nat \<Rightarrow> u32 \<Rightarrow> u32 \<Rightarrow> (nat \<Rightarrow> u8) result"
  nop_finddir :: "cstr \<Rightarrow> nat \<Rightarrow> nat option"

definition load_file :: "elf_nodes \<Rightarrow> cstr \<Rightarrow> nat option result" where
  "load_file nd path = (case strlen path of None \<Rightarrow> Inl Diverges | Some n \<Rightarrow> Inr (nop_finddir nd path n))"

definition load_ph :: "elf_nodes \<Rightarrow> nat \<Rightarrow> elf_header \<Rightarrow> (nat \<Rightarrow> u8) result" where
  "load_ph nd node hdr = nop_read nd node (e_phoff hdr) (ph_size hdr)"

text \<open>The header a pointer into the buffer of \<^verbatim>\<open>load_ph\<close> reaches after \<open>i\<close> steps.\<close>

definition ph_at :: "elf_header \<Rightarrow> (nat \<Rightarrow> u8) \<Rightarrow> nat \<Rightarrow> program_header result" where
  "ph_at hdr b i =
    (if PROGRAM_HEADER_SIZE * (i + 1) > unat (ph_size hdr) then Inl OutOfBounds else Inr (program_header_of b (PROGRAM_HEADER_SIZE * i)))"

record loader =
  ld_node :: nat
  ld_argv :: u32
  ld_env :: u32
  ld_interp :: "nat option"
  ld_new_esp :: u32
  ld_target_ip :: u32
  ld_base_address :: u32
  ld_interp_base :: u32

text \<open>The constructor does not set \<^verbatim>\<open>interp_base_address_\<close>, which is \<open>raw\<close>.\<close>

definition loader_new :: "nat \<Rightarrow> u32 \<Rightarrow> u32 \<Rightarrow> u32 \<Rightarrow> loader" where
  "loader_new node argv env raw = \<lparr>ld_node = node, ld_argv = argv, ld_env = env, ld_interp = None, ld_new_esp = 0, ld_target_ip = 0,
     ld_base_address = 0, ld_interp_base = raw\<rparr>"

definition load_header :: "elf_nodes \<Rightarrow> nat \<Rightarrow> elf_header option result" where
  "load_header nd node =
    (if nop_length nd node < HEADER_SIZE then Inr None
     else bind_result (nop_read nd node 0 HEADER_SIZE) (\<lambda>b.
       let hdr = elf_header_of b in Inr (if elf_validate hdr then Some hdr else None)))"

definition setup_interp :: "elf_nodes \<Rightarrow> elf_header \<Rightarrow> loader \<Rightarrow> (bool \<times> loader) result" where
  "setup_interp nd hdr ld =
    bind_result (load_ph nd (ld_node ld) hdr) (\<lambda>b.
      fold_result (\<lambda>i (ok, ld).
        if \<not> ok then Inr (False, ld)
        else bind_result (ph_at hdr b i) (\<lambda>ph.
          if interp_p ph
          then bind_result (nop_read nd (ld_node ld) (p_offset ph) (p_filesz ph)) (\<lambda>path.
               bind_result (load_file nd path) (\<lambda>node.
                 Inr (case node of None \<Rightarrow> (False, ld) | Some n \<Rightarrow> (True, ld\<lparr>ld_interp := Some n\<rparr>))))
          else Inr (True, ld)))
        [0..<unat (e_phnum hdr)] (True, ld))"

text \<open>The loop of \<^verbatim>\<open>map_memory\<close> for one header; \<open>brk\<close> is the highest end so far.\<close>

definition map_segment :: "program_header \<Rightarrow> loader \<times> u32 \<times> process \<Rightarrow> loader \<times> u32 \<times> process" where
  "map_segment ph = (\<lambda>(ld, brk, p).
    if load_p ph
    then let p = add_mmap (Some (ld_node ld)) (p_offset ph) (p_filesz ph) (p_vaddr ph) (p_memsz ph) (mmap_flags ph) p;
             ld = (if ld_base_address ld = 0 then ld\<lparr>ld_base_address := p_vaddr ph - p_offset ph\<rparr> else ld);
             addr = p_vaddr ph + p_memsz ph
         in (ld, if addr > brk then addr else brk, p)
    else (ld, brk, p))"

definition map_memory :: "elf_nodes \<Rightarrow> elf_header \<Rightarrow> loader \<times> process \<Rightarrow> (loader \<times> process) result" where
  "map_memory nd hdr = (\<lambda>(ld, p).
    bind_result (load_ph nd (ld_node ld) hdr) (\<lambda>b.
    bind_result (fold_result (\<lambda>i s. bind_result (ph_at hdr b i) (\<lambda>ph. Inr (map_segment ph s))) [0..<unat (e_phnum hdr)] (ld, 0, p)) (\<lambda>(ld, brk, p).
      Inr (ld, position_brk brk p))))"

definition map_lib_segment :: "elf_header \<Rightarrow> program_header \<Rightarrow> loader \<times> u32 \<times> process \<Rightarrow> loader \<times> u32 \<times> process" where
  "map_lib_segment hdr ph = (\<lambda>(ld, entry, p).
    if load_p ph
    then let (req_addr, ld, p) =
               (if ld_base_address ld = 0
                then let (base, p) = new_mmap_region (p_memsz ph) p in (base, ld\<lparr>ld_base_address := base\<rparr>, p)
                else (ld_base_address ld + p_vaddr ph, ld, p));
             entry = (if e_entry hdr \<ge> p_vaddr ph \<and> e_entry hdr < p_vaddr ph + p_filesz ph
                      then ld_base_address ld + (e_entry hdr - p_vaddr ph) else entry)
         in (ld, entry, add_mmap (Some (ld_node ld)) (p_offset ph) (p_filesz ph) req_addr (p_memsz ph) (mmap_flags ph) p)
    else (ld, entry, p))"

definition map_lib_memory :: "elf_nodes \<Rightarrow> elf_header \<Rightarrow> loader \<times> process \<Rightarrow> (u32 \<times> loader \<times> process) result" where
  "map_lib_memory nd hdr = (\<lambda>(ld, p).
    bind_result (load_ph nd (ld_node ld) hdr) (\<lambda>b.
    bind_result (fold_result (\<lambda>i s. bind_result (ph_at hdr b i) (\<lambda>ph. Inr (map_lib_segment hdr ph s))) [0..<unat (e_phnum hdr)] (ld, 0, p))
      (\<lambda>(ld, entry, p). Inr (entry, ld, p))))"

definition load_as_lib :: "elf_nodes \<Rightarrow> loader \<times> process \<Rightarrow> (bool \<times> loader \<times> process) result" where
  "load_as_lib nd = (\<lambda>(ld, p).
    bind_result (load_header nd (ld_node ld)) (\<lambda>hdr.
      case hdr of
        None \<Rightarrow> Inr (False, ld, p)
      | Some hdr \<Rightarrow>
          if e_phnum hdr = 0 then Inr (False, ld, p)
          else bind_result (map_lib_memory nd hdr (ld, p)) (\<lambda>(entry, ld, p). Inr (True, ld\<lparr>ld_target_ip := entry\<rparr>, p))))"

text \<open>The interpreter gets a loader of its own; \<open>raw\<close> is its uninitialised field.\<close>

definition load_interp :: "elf_nodes \<Rightarrow> u32 \<Rightarrow> loader \<times> process \<Rightarrow> (bool \<times> loader \<times> process) result" where
  "load_interp nd raw = (\<lambda>(ld, p).
    case ld_interp ld of
      None \<Rightarrow> Inr (True, ld, p)
    | Some node \<Rightarrow>
        bind_result (load_as_lib nd (loader_new node 0 0 raw, p)) (\<lambda>(ok, lib, p).
          if ok then Inr (True, ld\<lparr>ld_target_ip := ld_target_ip lib, ld_interp_base := ld_base_address lib\<rparr>, p)
          else Inr (False, ld, p)))"


subsection \<open>Arguments\<close>

definition mem_str :: "mem \<Rightarrow> u32 \<Rightarrow> cstr" where
  "mem_str m a = (\<lambda>i. m (a + adr i))"

record table_info =
  ti_table :: u32
  ti_table_size :: u32
  ti_bytes :: u32
  ti_entries :: u32

partial_function (option) table_scan :: "mem \<Rightarrow> u32 \<Rightarrow> u32 \<Rightarrow> u32 \<Rightarrow> (u32 \<times> u32) option" where
  "table_scan m tbl i bytes =
    (let str = load_u32 m (tbl + 4 * i)
     in if str = 0 then Some (i, bytes)
        else case strlen (mem_str m str) of
               None \<Rightarrow> None
             | Some n \<Rightarrow> table_scan m tbl (i + 1) (bytes + (adr n + 1)))"

definition table_info_new :: "mem \<Rightarrow> u32 \<Rightarrow> table_info option" where
  "table_info_new m tbl =
    map_option (\<lambda>(entries, bytes). \<lparr>ti_table = tbl, ti_table_size = 4 * (entries + 1), ti_bytes = bytes, ti_entries = entries\<rparr>) (table_scan m tbl 0 0)"

definition ti_total_size :: "table_info \<Rightarrow> u32" where
  "ti_total_size ti = ti_table_size ti + ti_bytes ti"

definition stack_top :: u32 where "stack_top = KERNEL_VIRTUAL_BASE"
definition auxv_records :: u32 where "auxv_records = 8"
definition USER_STACK_SIZE :: u32 where "USER_STACK_SIZE = 0x800000"

definition allocate_pages_for_header :: "u32 \<Rightarrow> vmem \<Rightarrow> vmem result" where
  "allocate_pages_for_header bytes vm =
    (let pages = page_align bytes div cPageSize
     in fold_result (\<lambda>i vm. bind_result (get_current_page (stack_top - adr i * cPageSize) True vm) (\<lambda>(p, vm).
          case p of None \<Rightarrow> Inl NullDeref | Some (t, j) \<Rightarrow> vm_alloc_frame t j False True vm)) [1..<Suc (unat pages)] vm)"

text \<open>The loop of \<^verbatim>\<open>copy_string_table\<close>, with \<open>n\<close> strings left; the strings are read from the memory as it is then.\<close>

fun copy_strings :: "u32 \<Rightarrow> u32 \<Rightarrow> nat \<Rightarrow> u32 \<Rightarrow> u32 \<Rightarrow> mem \<Rightarrow> mem option" where
  "copy_strings tbl table_addr 0 i pos m = Some m"
| "copy_strings tbl table_addr (Suc n) i pos m =
    (let str = load_u32 m (tbl + 4 * i)
     in case strlen (mem_str m str) of
          None \<Rightarrow> None
        | Some k \<Rightarrow>
            let m = memcpy pos str (k + 1) m;
                m = store_u32 m (table_addr + 4 * i) pos
            in copy_strings tbl table_addr n (i + 1) (pos + adr (k + 1)) m)"

definition copy_string_table :: "u32 \<Rightarrow> u32 \<Rightarrow> table_info \<Rightarrow> mem \<Rightarrow> mem option" where
  "copy_string_table data_addr table_addr ti m =
    map_option (\<lambda>m. store_u32 m (table_addr + 4 * ti_entries ti) 0) (copy_strings (ti_table ti) table_addr (unat (ti_entries ti)) 0 data_addr m)"

fun store_words :: "u32 \<Rightarrow> u32 list \<Rightarrow> mem \<Rightarrow> mem" where
  "store_words a [] m = m"
| "store_words a (v # vs) m = store_words (a + 4) vs (store_u32 m a v)"

text \<open>The sixteen words of \<^verbatim>\<open>write_auxv_table\<close>: AT\_PHDR, AT\_PHENT, AT\_PHNUM, AT\_PAGESZ, AT\_BASE, AT\_FLAGS, AT\_ENTRY and the end.\<close>

definition auxv_words :: "elf_header \<Rightarrow> loader \<Rightarrow> u32 list" where
  "auxv_words hdr ld = [3, ld_base_address ld + e_phoff hdr, 4, adr PROGRAM_HEADER_SIZE, 5, ucast (e_phnum hdr), 6, cPageSize,
     7, ld_interp_base ld, 8, 0, 9, e_entry hdr, 0, 0]"

definition write_auxv_table :: "elf_header \<Rightarrow> loader \<Rightarrow> u32 \<Rightarrow> mem \<Rightarrow> mem" where
  "write_auxv_table hdr ld table m = store_words table (auxv_words hdr ld) m"

definition setup_args :: "elf_header \<Rightarrow> loader \<times> vmem \<times> mem \<Rightarrow> (loader \<times> vmem \<times> mem) result" where
  "setup_args hdr = (\<lambda>(ld, vm, m).
    case (table_info_new m (ld_env ld), table_info_new m (ld_argv ld)) of
      (Some env, Some argv) \<Rightarrow>
        let auxv_size = 4 * (auxv_records * 2);
            total_bytes = ti_total_size env + ti_total_size argv + auxv_size + 4;
            header_bytes = align total_bytes 16
        in bind_result (allocate_pages_for_header header_bytes vm) (\<lambda>vm.
             let new_esp = stack_top - header_bytes;
                 ld = ld\<lparr>ld_new_esp := new_esp\<rparr>;
                 argc_addr = new_esp;
                 argv_table = argc_addr + 4;
                 env_table = argv_table + ti_table_size argv;
                 auxv_table = env_table + ti_table_size env;
                 argv_data = auxv_table + auxv_size;
                 env_data = argv_data + ti_bytes argv
             in case copy_string_table env_data env_table env m of
                  None \<Rightarrow> Inl Diverges
                | Some m \<Rightarrow>
                    (case copy_string_table argv_data argv_table argv m of
                       None \<Rightarrow> Inl Diverges
                     | Some m \<Rightarrow> Inr (ld, vm, store_u32 (write_auxv_table hdr ld auxv_table m) argc_addr (ti_entries argv))))
    | _ \<Rightarrow> Inl Diverges)"


subsection \<open>Loading a program\<close>

definition load_into :: "elf_nodes \<Rightarrow> u32 \<Rightarrow> loader \<times> process \<times> vmem \<times> mem \<Rightarrow> (bool \<times> loader \<times> process \<times> vmem \<times> mem) result" where
  "load_into nd raw = (\<lambda>(ld, p, vm, m).
    bind_result (load_header nd (ld_node ld)) (\<lambda>hdr.
      case hdr of
        None \<Rightarrow> Inr (False, ld, p, vm, m)
      | Some hdr \<Rightarrow>
          bind_result (setup_interp nd hdr (ld\<lparr>ld_target_ip := e_entry hdr\<rparr>)) (\<lambda>(ok, ld).
            if \<not> ok then Inr (False, ld, p, vm, m)
            else bind_result (map_memory nd hdr (ld, p)) (\<lambda>(ld, p).
                 bind_result (load_interp nd raw (ld, p)) (\<lambda>(_, ld, p).
                 bind_result (setup_args hdr (ld, vm, m)) (\<lambda>(ld, vm, m).
                   let stack_fin = stack_top - USER_STACK_SIZE
                   in Inr (True, ld, add_mmap None 0 0 stack_fin USER_STACK_SIZE eAll p, vm, m)))))))"

record exec_registers = registers +
  rg_ds :: u32
  rg_ss :: u32
  rg_cs :: u32

definition cUserCS :: u32 where "cUserCS = 0x1b"
definition cUserDS :: u32 where "cUserDS = 0x23"

definition sys_exec :: "elf_nodes \<Rightarrow> u32 \<Rightarrow> u32 \<Rightarrow> exec_registers \<times> process \<times> vmem \<times> mem \<Rightarrow> (exec_registers \<times> process \<times> vmem \<times> mem) result" where
  "sys_exec nd raw raw' = (\<lambda>(regs, p, vm, m).
    bind_result (load_file nd (mem_str m (rg_ebx regs))) (\<lambda>node.
      case node of
        None \<Rightarrow> Inr (regs\<lparr>rg_eax := - 1\<rparr>, p, vm, m)
      | Some node \<Rightarrow>
          bind_result (load_into nd raw' (loader_new node (rg_ecx regs) (rg_edx regs) raw, p, vm, m)) (\<lambda>(ok, ld, p, vm, m).
            Inr (if ok then regs\<lparr>rg_eax := 0, rg_edx := 0, rg_eip := ld_target_ip ld, rg_ds := cUserDS, rg_ss := cUserDS, rg_cs := cUserCS,
                               rg_useresp := ld_new_esp ld\<rparr>
                 else regs\<lparr>rg_eax := - 1\<rparr>, p, vm, m))))"


subsection \<open>Tables of strings in memory\<close>

fun string_table :: "mem \<Rightarrow> u32 \<Rightarrow> u8 list list \<Rightarrow> bool" where
  "string_table m tbl [] \<longleftrightarrow> load_u32 m tbl = 0"
| "string_table m tbl (s # ss) \<longleftrightarrow> load_u32 m tbl \<noteq> 0 \<and> is_cstr (mem_str m (load_u32 m tbl)) s \<and> string_table m (tbl + 4) ss"

text \<open>The bytes of the table and of its strings.\<close>

definition block_set :: "u32 \<Rightarrow> nat \<Rightarrow> u32 set" where
  "block_set a n = (\<lambda>i. a + adr i) ` {..<n}"

fun table_bytes :: "mem \<Rightarrow> u32 \<Rightarrow> u8 list list \<Rightarrow> u32 set" where
  "table_bytes m tbl [] = block_set tbl 4"
| "table_bytes m tbl (s # ss) = block_set tbl 4 \<union> block_set (load_u32 m tbl) (length s + 1) \<union> table_bytes m (tbl + 4) ss"

text \<open>The memories differ at most at addresses in \<open>S\<close>.\<close>

definition only_in :: "nat set \<Rightarrow> mem \<Rightarrow> mem \<Rightarrow> bool" where
  "only_in S m m' \<longleftrightarrow> (\<forall>x. unat x \<notin> S \<longrightarrow> m' x = m x)"

lemma only_in_refl [simp]: "only_in S m m"
  by (simp add: only_in_def)

lemma only_in_trans: "only_in A m m' \<Longrightarrow> only_in B m' m'' \<Longrightarrow> only_in (A \<union> B) m m''"
  by (simp add: only_in_def)

lemma only_in_mono: "only_in A m m' \<Longrightarrow> A \<subseteq> B \<Longrightarrow> only_in B m m'"
  by (auto simp: only_in_def)

definition clear_of :: "nat set \<Rightarrow> u32 set \<Rightarrow> bool" where
  "clear_of S X \<longleftrightarrow> (\<forall>x \<in> X. unat x \<notin> S)"

lemma clear_of_Un [simp]: "clear_of S (X \<union> Y) \<longleftrightarrow> clear_of S X \<and> clear_of S Y"
  by (auto simp: clear_of_def)

lemma clear_of_mono: "clear_of S X \<Longrightarrow> T \<subseteq> S \<Longrightarrow> clear_of T X"
  by (auto simp: clear_of_def)

lemma only_in_at: "only_in S m m' \<Longrightarrow> clear_of S (block_set a n) \<Longrightarrow> i < n \<Longrightarrow> m' (a + adr i) = m (a + adr i)"
  by (auto simp: only_in_def clear_of_def block_set_def)

lemma only_in_load:
  assumes "only_in S m m'" "clear_of S (block_set a 4)"
  shows "load_u32 m' a = load_u32 m a"
proof -
  have at: "m' (a + adr i) = m (a + adr i)" if "i < 4" for i
    using assms that by (rule only_in_at)
  have "adr 0 = 0" "adr 1 = 1" "adr 2 = 2" "adr 3 = 3"
    by (simp_all add: adr_def)
  then show ?thesis
    using at [of 0] at [of 1] at [of 2] at [of 3] by (simp add: load_u32_def)
qed

lemma only_in_cstr:
  assumes "only_in S m m'" "clear_of S (block_set a (length s + 1))"
  shows "is_cstr (mem_str m' a) s \<longleftrightarrow> is_cstr (mem_str m a) s"
proof -
  have "mem_str m' a i = mem_str m a i" if "i \<le> length s" for i
    using only_in_at [OF assms] that by (simp add: mem_str_def)
  then show ?thesis
    by (auto simp: is_cstr_def)
qed

lemma string_table_kept:
  "only_in S m m' \<Longrightarrow> clear_of S (table_bytes m tbl ss) \<Longrightarrow> string_table m tbl ss
    \<Longrightarrow> string_table m' tbl ss \<and> table_bytes m' tbl ss = table_bytes m tbl ss"
proof (induction ss arbitrary: tbl)
  case Nil
  then show ?case
    by (simp add: only_in_load)
next
  case (Cons s ss)
  then show ?case
    by (simp add: only_in_load only_in_cstr)
qed

lemma clear_of_block:
  assumes "a + n \<le> 2 ^ 32" "S \<inter> {a..<a + n} = {}"
  shows "clear_of S (block_set (adr a) n)"
  unfolding clear_of_def block_set_def
proof (clarsimp simp: addr_plus)
  fix i
  assume "i < n" "unat (adr (a + i)) \<in> S"
  then have "a + i \<in> S \<inter> {a..<a + n}"
    using assms(1) by simp
  then show False
    using assms(2) by simp
qed

lemma only_in_store: "a + 4 \<le> 2 ^ 32 \<Longrightarrow> only_in {a..<a + 4} m (store_u32 m (adr a) v)"
  unfolding only_in_def
proof (intro allI impI)
  fix x :: u32
  assume a: "a + 4 \<le> 2 ^ 32" "unat x \<notin> {a..<a + 4}"
  then have "store_u32 m (adr a) v (adr (unat x)) = m (adr (unat x))"
    using unat_u32_lt [of x] by (intro upd_store_disjoint) auto
  then show "store_u32 m (adr a) v x = m x"
    by simp
qed

lemma only_in_memcpy: "a + n \<le> 2 ^ 32 \<Longrightarrow> only_in {a..<a + n} m (memcpy (adr a) src n m)"
  unfolding only_in_def
proof (intro allI impI)
  fix x :: u32
  assume a: "a + n \<le> 2 ^ 32" "unat x \<notin> {a..<a + n}"
  show "memcpy (adr a) src n m x = m x"
  proof (cases "n = 0")
    case False
    then have "unat (x - adr a) = (if a \<le> unat x then unat x - a else 2 ^ 32 + unat x - a)"
      using unat_addr_sub [of "unat x" a] a(1) unat_u32_lt [of x] by simp
    then show ?thesis
      using a by (intro memcpy_other) (auto split: if_splits)
  qed simp
qed

definition strings_size :: "u8 list list \<Rightarrow> nat" where
  "strings_size ss = sum_list (map (\<lambda>s. length s + 1) ss)"

lemma strings_size_simps [simp]: "strings_size [] = 0" "strings_size (s # ss) = length s + 1 + strings_size ss"
  by (simp_all add: strings_size_def)

lemma next_pointer: "tbl + 4 * adr i + 4 = tbl + 4 * adr (Suc i)"
  by (simp add: adr_def)

lemma table_scan_counts:
  "string_table m (tbl + 4 * adr i) ss \<Longrightarrow> table_scan m tbl (adr i) (adr b) = Some (adr (i + length ss), adr (b + strings_size ss))"
proof (induction ss arbitrary: i b)
  case Nil
  then show ?case
    by (subst table_scan.simps) simp
next
  case (Cons s ss)
  have t: "string_table m (tbl + 4 * adr (Suc i)) ss"
    using Cons.prems unfolding string_table.simps next_pointer by blast
  have "adr i + 1 = adr (Suc i)" "adr b + (adr (length s) + 1) = adr (b + (length s + 1))"
    by (simp_all add: adr_def)
  then show ?case
    using Cons.prems strlen_correct [of "mem_str m (load_u32 m (tbl + 4 * adr i))" s] Cons.IH [OF t, of "b + (length s + 1)"]
    by (subst table_scan.simps) (simp add: Let_def add.assoc)
qed

lemma table_info_counts:
  assumes "string_table m tbl ss"
  shows "table_info_new m tbl = Some \<lparr>ti_table = tbl, ti_table_size = adr (4 * (length ss + 1)), ti_bytes = adr (strings_size ss), ti_entries = adr (length ss)\<rparr>"
  using table_scan_counts [of m tbl 0 ss 0] assms by (simp add: table_info_new_def adr_def)

text \<open>The pointers from \<open>T\<close> on point to the strings, which lie one after the other from \<open>D\<close> on.\<close>

fun laid_out :: "mem \<Rightarrow> nat \<Rightarrow> nat \<Rightarrow> u8 list list \<Rightarrow> bool" where
  "laid_out m T D [] \<longleftrightarrow> True"
| "laid_out m T D (s # ss) \<longleftrightarrow> load_u32 m (adr T) = adr D \<and> is_cstr (mem_str m (adr D)) s \<and> laid_out m (T + 4) (D + (length s + 1)) ss"

lemma laid_out_table:
  "laid_out m T D ss \<Longrightarrow> load_u32 m (adr (T + 4 * length ss)) = 0 \<Longrightarrow> 0 < D \<Longrightarrow> D + strings_size ss \<le> 2 ^ 32 \<Longrightarrow> string_table m (adr T) ss"
proof (induction ss arbitrary: T D)
  case (Cons s ss)
  have "unat (adr D) = D"
    using Cons.prems(4) by simp
  then have "adr D \<noteq> 0"
    using Cons.prems(3) by (metis less_irrefl unat_0)
  moreover have "string_table m (adr (T + 4)) ss"
    using Cons.prems by (intro Cons.IH [of "T + 4" "D + (length s + 1)"]) (simp_all add: algebra_simps)
  ultimately show ?case
    using Cons.prems(1) by (simp add: addr_plus)
qed simp

lemma laid_out_kept:
  "only_in S m m' \<Longrightarrow> T + 4 * length ss \<le> 2 ^ 32 \<Longrightarrow> D + strings_size ss \<le> 2 ^ 32 \<Longrightarrow> S \<inter> {T..<T + 4 * length ss} = {}
    \<Longrightarrow> S \<inter> {D..<D + strings_size ss} = {} \<Longrightarrow> laid_out m T D ss \<Longrightarrow> laid_out m' T D ss"
proof (induction ss arbitrary: T D)
  case (Cons s ss)
  have "clear_of S (block_set (adr T) 4)" "clear_of S (block_set (adr D) (length s + 1))"
    by (rule clear_of_block, use Cons.prems(2-5) in auto)+
  then have "load_u32 m' (adr T) = adr D" "is_cstr (mem_str m' (adr D)) s"
    using only_in_load [OF Cons.prems(1)] only_in_cstr [OF Cons.prems(1)] Cons.prems(6) by simp_all
  moreover have "laid_out m' (T + 4) (D + (length s + 1)) ss"
    by (rule Cons.IH [OF Cons.prems(1)]) (use Cons.prems(2-6) in auto)
  ultimately show ?case
    by simp
qed simp

text \<open>One string copied to \<open>D\<close> and its pointer put at \<open>T\<close>.\<close>

lemma copy_one:
  assumes "is_cstr (mem_str m str) s" "clear_of {D..<D + (length s + 1)} (block_set str (length s + 1))" "T + 4 \<le> 2 ^ 32" "D + (length s + 1) \<le> 2 ^ 32"
    "{T..<T + 4} \<inter> {D..<D + (length s + 1)} = {}"
  defines "m1 \<equiv> store_u32 (memcpy (adr D) str (length s + 1) m) (adr T) (adr D)"
  shows "only_in ({D..<D + (length s + 1)} \<union> {T..<T + 4}) m m1" "load_u32 m1 (adr T) = adr D" "is_cstr (mem_str m1 (adr D)) s"
proof -
  let ?n = "length s + 1" and ?m = "memcpy (adr D) str (length s + 1) m"
  show "only_in ({D..<D + ?n} \<union> {T..<T + 4}) m m1"
    unfolding m1_def by (rule only_in_trans [OF only_in_memcpy [OF assms(4)] only_in_store [OF assms(3)]])
  show "load_u32 m1 (adr T) = adr D"
    by (simp add: m1_def)
  have "?n \<le> unat (adr D - str)"
  proof (rule ccontr)
    assume "\<not> ?n \<le> unat (adr D - str)"
    then have "str + adr (unat (adr D - str)) \<in> block_set str ?n"
      unfolding block_set_def by (intro imageI) simp
    then have "unat (adr D) \<notin> {D..<D + ?n}"
      using assms(2) by (auto simp: clear_of_def)
    then show False
      using assms(4) by simp
  qed
  then have "mem_str ?m (adr D) i = mem_str m str i" if "i \<le> length s" for i
    using that assms(4) memcpy_copies [of i ?n "adr D" str m] by (simp add: mem_str_def adr_def)
  then have "is_cstr (mem_str ?m (adr D)) s"
    using assms(1) by (simp add: is_cstr_def)
  then show "is_cstr (mem_str m1 (adr D)) s"
    unfolding m1_def using assms(3-5) by (subst only_in_cstr [OF only_in_store]) (auto intro!: clear_of_block)
qed

lemma disjoint_parts: "A \<inter> B = {} \<Longrightarrow> A' \<subseteq> A \<Longrightarrow> B' \<subseteq> B \<Longrightarrow> A' \<inter> B' = {}"
  by blast

lemma copy_strings_lays_out:
  "string_table m (tbl + 4 * adr i) ss \<Longrightarrow> clear_of ({T + 4 * i..<T + 4 * (i + length ss)} \<union> {D..<D + strings_size ss}) (table_bytes m (tbl + 4 * adr i) ss)
    \<Longrightarrow> T + 4 * (i + length ss) \<le> 2 ^ 32 \<Longrightarrow> D + strings_size ss \<le> 2 ^ 32
    \<Longrightarrow> {T + 4 * i..<T + 4 * (i + length ss)} \<inter> {D..<D + strings_size ss} = {}
    \<Longrightarrow> \<exists>m'. copy_strings tbl (adr T) (length ss) (adr i) (adr D) m = Some m'
      \<and> only_in ({T + 4 * i..<T + 4 * (i + length ss)} \<union> {D..<D + strings_size ss}) m m' \<and> laid_out m' (T + 4 * i) D ss"
proof (induction ss arbitrary: i D m)
  case (Cons s ss)
  let ?str = "load_u32 m (tbl + 4 * adr i)" and ?T = "T + 4 * i" and ?n = "length s + 1"
  define m1 where "m1 = store_u32 (memcpy (adr D) ?str ?n m) (adr ?T) (adr D)"
  have sub: "{D..<D + ?n} \<union> {?T..<?T + 4} \<subseteq> {?T..<T + 4 * (i + length (s # ss))} \<union> {D..<D + strings_size (s # ss)}"
    by auto
  have rest: "{T + 4 * (Suc i)..<T + 4 * (Suc i + length ss)} \<union> {D + ?n..<D + ?n + strings_size ss}
      \<subseteq> {?T..<T + 4 * (i + length (s # ss))} \<union> {D..<D + strings_size (s # ss)}"
    by auto
  have "is_cstr (mem_str m ?str) s" and tail: "string_table m (tbl + 4 * adr (Suc i)) ss"
    using Cons.prems(1) unfolding string_table.simps next_pointer by blast+
  moreover have "clear_of {D..<D + ?n} (table_bytes m (tbl + 4 * adr i) (s # ss))"
    by (rule clear_of_mono [OF Cons.prems(2)]) auto
  then have "clear_of {D..<D + ?n} (block_set ?str ?n)"
    by simp
  moreover have "?T + 4 \<le> 2 ^ 32" "D + ?n \<le> 2 ^ 32"
    using Cons.prems(3,4) by simp_all
  moreover have "{?T..<?T + 4} \<inter> {D..<D + ?n} = {}"
    by (rule disjoint_parts [OF Cons.prems(5)]) auto
  ultimately have "is_cstr (mem_str m ?str) s" "clear_of {D..<D + ?n} (block_set ?str ?n)" "?T + 4 \<le> 2 ^ 32" "D + ?n \<le> 2 ^ 32"
      "{?T..<?T + 4} \<inter> {D..<D + ?n} = {}"
    by blast+
  note one = copy_one [OF this, folded m1_def]
  have away: "clear_of ({?T..<T + 4 * (i + length (s # ss))} \<union> {D..<D + strings_size (s # ss)}) (table_bytes m (tbl + 4 * adr (Suc i)) ss)"
    using Cons.prems(2) unfolding table_bytes.simps next_pointer clear_of_Un by blast
  have src: "string_table m1 (tbl + 4 * adr (Suc i)) ss" "table_bytes m1 (tbl + 4 * adr (Suc i)) ss = table_bytes m (tbl + 4 * adr (Suc i)) ss"
    using string_table_kept [OF one(1) clear_of_mono [OF away sub] tail] by blast+
  obtain m' where m': "copy_strings tbl (adr T) (length ss) (adr (Suc i)) (adr (D + ?n)) m1 = Some m'"
      "only_in ({T + 4 * (Suc i)..<T + 4 * (Suc i + length ss)} \<union> {D + ?n..<D + ?n + strings_size ss}) m1 m'"
      "laid_out m' (T + 4 * (Suc i)) (D + ?n) ss"
    using Cons.IH [OF src(1), of "D + ?n"] clear_of_mono [OF away rest] Cons.prems(3,4) src(2)
      disjoint_parts [OF Cons.prems(5), of "{T + 4 * (Suc i)..<T + 4 * (Suc i + length ss)}" "{D + ?n..<D + ?n + strings_size ss}"] by auto
  have "only_in ({?T..<T + 4 * (i + length (s # ss))} \<union> {D..<D + strings_size (s # ss)}) m m'"
    by (rule only_in_mono [OF only_in_trans [OF one(1) m'(2)] Un_least [OF sub rest]])
  moreover have "clear_of ({T + 4 * (Suc i)..<T + 4 * (Suc i + length ss)} \<union> {D + ?n..<D + ?n + strings_size ss}) (block_set (adr ?T) 4)"
      "clear_of ({T + 4 * (Suc i)..<T + 4 * (Suc i + length ss)} \<union> {D + ?n..<D + ?n + strings_size ss}) (block_set (adr D) ?n)"
    by (rule clear_of_block, use Cons.prems(3,4) in simp,
        use disjoint_parts [OF Cons.prems(5), of "{?T..<?T + 4}" "{D + ?n..<D + ?n + strings_size ss}"]
          disjoint_parts [OF Cons.prems(5), of "{T + 4 * (Suc i)..<T + 4 * (Suc i + length ss)}" "{D..<D + ?n}"] in auto)+
  then have "load_u32 m' (adr ?T) = adr D" "is_cstr (mem_str m' (adr D)) s"
    using one(2,3) only_in_load [OF m'(2)] only_in_cstr [OF m'(2)] by auto
  moreover have "copy_strings tbl (adr T) (length (s # ss)) (adr i) (adr D) m = Some m'"
    using m'(1) Cons.prems(1) strlen_correct [of "mem_str m ?str" s] by (simp add: Let_def m1_def adr_def algebra_simps)
  ultimately show ?case
    using m'(3) by (intro exI [of _ m']) (simp add: algebra_simps)
qed simp

text \<open>A complete table of strings: the pointers, the null pointer after them, and the strings.\<close>

definition placed :: "mem \<Rightarrow> nat \<Rightarrow> nat \<Rightarrow> u8 list list \<Rightarrow> bool" where
  "placed m T D ss \<longleftrightarrow> laid_out m T D ss \<and> load_u32 m (adr (T + 4 * length ss)) = 0"

definition place :: "nat \<Rightarrow> nat \<Rightarrow> u8 list list \<Rightarrow> nat set" where
  "place T D ss = {T..<T + 4 * (length ss + 1)} \<union> {D..<D + strings_size ss}"

definition place_ok :: "nat \<Rightarrow> nat \<Rightarrow> u8 list list \<Rightarrow> bool" where
  "place_ok T D ss \<longleftrightarrow> T + 4 * (length ss + 1) \<le> 2 ^ 32 \<and> 0 < D \<and> D + strings_size ss \<le> 2 ^ 32
     \<and> {T..<T + 4 * (length ss + 1)} \<inter> {D..<D + strings_size ss} = {}"

lemma placed_table: "placed m T D ss \<Longrightarrow> place_ok T D ss \<Longrightarrow> string_table m (adr T) ss"
  by (auto simp: placed_def place_ok_def intro: laid_out_table)

lemma placed_kept:
  assumes "only_in S m m'" "placed m T D ss" "place_ok T D ss" "S \<inter> place T D ss = {}"
  shows "placed m' T D ss"
proof -
  have d: "S \<inter> {T..<T + 4 * length ss} = {}" "S \<inter> {D..<D + strings_size ss} = {}" "S \<inter> {T + 4 * length ss..<T + 4 * length ss + 4} = {}"
    by (rule disjoint_parts [OF assms(4)], simp, force simp: place_def)+
  have "load_u32 m' (adr (T + 4 * length ss)) = load_u32 m (adr (T + 4 * length ss))"
    by (rule only_in_load [OF assms(1) clear_of_block]) (use assms(3) d(3) in \<open>simp_all add: place_ok_def\<close>)
  moreover have "laid_out m' T D ss"
    by (rule laid_out_kept [OF assms(1) _ _ d(1,2)]) (use assms(2,3) in \<open>auto simp: placed_def place_ok_def\<close>)
  ultimately show ?thesis
    using assms(2) by (simp add: placed_def)
qed

lemma copy_string_table_places:
  assumes "string_table m tbl ss" "clear_of (place T D ss) (table_bytes m tbl ss)" "place_ok T D ss" "ti_table ti = tbl" "ti_entries ti = adr (length ss)"
  shows "\<exists>m'. copy_string_table (adr D) (adr T) ti m = Some m' \<and> only_in (place T D ss) m m' \<and> placed m' T D ss"
proof -
  let ?n = "length ss"
  have b: "T + 4 * ?n + 4 \<le> 2 ^ 32" "T + 4 * (0 + ?n) \<le> 2 ^ 32" "D + strings_size ss \<le> 2 ^ 32" "unat (adr ?n) = ?n"
    using assms(3) by (simp_all add: place_ok_def)
  have dis: "{T..<T + 4 * (?n + 1)} \<inter> {D..<D + strings_size ss} = {}"
    using assms(3) by (simp add: place_ok_def)
  have sub: "{T + 4 * 0..<T + 4 * (0 + ?n)} \<union> {D..<D + strings_size ss} \<subseteq> place T D ss"
    by (auto simp: place_def)
  have "string_table m (tbl + 4 * adr 0) ss" "clear_of ({T + 4 * 0..<T + 4 * (0 + ?n)} \<union> {D..<D + strings_size ss}) (table_bytes m (tbl + 4 * adr 0) ss)"
    using assms(1) clear_of_mono [OF assms(2) sub] by (simp_all add: adr_def)
  moreover have "{T + 4 * 0..<T + 4 * (0 + ?n)} \<inter> {D..<D + strings_size ss} = {}"
    by (rule disjoint_parts [OF dis]) auto
  ultimately obtain m1 where m1: "copy_strings tbl (adr T) ?n (adr 0) (adr D) m = Some m1"
      "only_in ({T + 4 * 0..<T + 4 * (0 + ?n)} \<union> {D..<D + strings_size ss}) m m1" "laid_out m1 (T + 4 * 0) D ss"
    using copy_strings_lays_out [of m tbl 0 ss T D] b(2,3) by blast
  let ?m = "store_u32 m1 (adr (T + 4 * ?n)) 0"
  have st: "only_in {T + 4 * ?n..<T + 4 * ?n + 4} m1 ?m"
    by (rule only_in_store [OF b(1)])
  have "only_in (place T D ss) m ?m"
    by (rule only_in_mono [OF only_in_trans [OF m1(2) st]]) (auto simp: place_def)
  moreover have "laid_out ?m T D ss"
    by (rule laid_out_kept [OF st]) (use m1(3) b disjoint_parts [OF dis, of "{T + 4 * ?n..<T + 4 * ?n + 4}" "{D..<D + strings_size ss}"] in auto)
  moreover have "copy_string_table (adr D) (adr T) ti m = Some ?m"
    using m1(1) b(4) assms(4,5) by (simp add: copy_string_table_def adr_def)
  ultimately show ?thesis
    by (simp add: placed_def)
qed

lemma only_in_store_words: "a + 4 * length vs \<le> 2 ^ 32 \<Longrightarrow> only_in {a..<a + 4 * length vs} m (store_words (adr a) vs m)"
proof (induction vs arbitrary: a m)
  case (Cons v vs)
  have "only_in ({a..<a + 4} \<union> {a + 4..<a + 4 + 4 * length vs}) m (store_words (adr (a + 4)) vs (store_u32 m (adr a) v))"
    by (rule only_in_trans [OF only_in_store Cons.IH]) (use Cons.prems in auto)
  moreover have "{a..<a + 4} \<union> {a + 4..<a + 4 + 4 * length vs} \<subseteq> {a..<a + 4 * length (v # vs)}"
    by auto
  ultimately show ?case
    using only_in_mono by (fastforce simp: addr_plus)
qed simp

lemma store_words_at: "a + 4 * length vs \<le> 2 ^ 32 \<Longrightarrow> i < length vs \<Longrightarrow> load_u32 (store_words (adr a) vs m) (adr (a + 4 * i)) = vs ! i"
proof (induction vs arbitrary: a m i)
  case (Cons v vs)
  have w: "store_words (adr a) (v # vs) m = store_words (adr (a + 4)) vs (store_u32 m (adr a) v)"
    by (simp add: addr_plus)
  have keep: "only_in {a + 4..<a + 4 + 4 * length vs} (store_u32 m (adr a) v) (store_words (adr a) (v # vs) m)"
    unfolding w by (rule only_in_store_words) (use Cons.prems in simp)
  show ?case
  proof (cases i)
    case 0
    have "clear_of {a + 4..<a + 4 + 4 * length vs} (block_set (adr a) 4)"
      by (rule clear_of_block) (use Cons.prems in auto)
    then show ?thesis
      using only_in_load [OF keep] 0 by simp
  next
    case (Suc j)
    then show ?thesis
      unfolding w using Cons.IH [of "a + 4" j "store_u32 m (adr a) v"] Cons.prems by (simp add: algebra_simps)
  qed
qed simp


subsection \<open>The stack of a new program\<close>

definition args_size :: "u8 list list \<Rightarrow> u8 list list \<Rightarrow> nat" where
  "args_size argv env = 4 + 4 * (length argv + 1) + 4 * (length env + 1) + 64 + strings_size argv + strings_size env"

definition header_size :: "u8 list list \<Rightarrow> u8 list list \<Rightarrow> nat" where
  "header_size argv env = (args_size argv env + 15) div 16 * 16"

text \<open>
  What a program finds at its stack pointer: the number of arguments, the table of arguments, the table of environment strings and
  the auxiliary vector.
\<close>

definition program_stack :: "mem \<Rightarrow> nat \<Rightarrow> u8 list list \<Rightarrow> u8 list list \<Rightarrow> u32 list \<Rightarrow> bool" where
  "program_stack m esp argv env auxv \<longleftrightarrow>
    (let argv_table = esp + 4; env_table = argv_table + 4 * (length argv + 1); auxv_table = env_table + 4 * (length env + 1)
     in load_u32 m (adr esp) = adr (length argv) \<and> string_table m (adr argv_table) argv \<and> string_table m (adr env_table) env
        \<and> (\<forall>i < length auxv. load_u32 m (adr (auxv_table + 4 * i)) = auxv ! i))"

text \<open>Writing the four parts in the order of \<^verbatim>\<open>setup_args\<close>, with \<open>lo\<close> the new stack pointer.\<close>

lemma stack_parts:
  fixes lo :: nat and argv env :: "u8 list list"
  defines "AT \<equiv> lo + 4"
  defines "ET \<equiv> AT + 4 * (length argv + 1)"
  defines "XT \<equiv> ET + 4 * (length env + 1)"
  defines "AD \<equiv> XT + 64"
  defines "ED \<equiv> AD + strings_size argv"
  assumes "ED + strings_size env \<le> hi" "hi \<le> 2 ^ 32" "length aux = 16" "clear_of {lo..<hi} (table_bytes m a argv \<union> table_bytes m e env)"
    "string_table m a argv" "string_table m e env" "ti_table ta = a" "ti_entries ta = adr (length argv)" "ti_table te = e" "ti_entries te = adr (length env)"
  shows "\<exists>m1 m2. copy_string_table (adr ED) (adr ET) te m = Some m1 \<and> copy_string_table (adr AD) (adr AT) ta m1 = Some m2
    \<and> program_stack (store_u32 (store_words (adr XT) aux m2) (adr lo) (adr (length argv))) lo argv env aux
    \<and> only_in {lo..<hi} m (store_u32 (store_words (adr XT) aux m2) (adr lo) (adr (length argv)))"
proof -
  have in_range: "place ET ED env \<subseteq> {lo..<hi}" "place AT AD argv \<subseteq> {lo..<hi}" "{XT..<XT + 4 * length aux} \<subseteq> {lo..<hi}" "{lo..<lo + 4} \<subseteq> {lo..<hi}"
    using assms(6,8) by (auto simp: place_def AT_def ET_def XT_def AD_def ED_def)
  have ok: "place_ok ET ED env" "place_ok AT AD argv" "XT + 4 * length aux \<le> 2 ^ 32" "lo + 4 \<le> 2 ^ 32"
    using assms(6-8) by (auto simp: place_ok_def AT_def ET_def XT_def AD_def ED_def)
  have dis: "place AT AD argv \<inter> place ET ED env = {}" "{XT..<XT + 4 * length aux} \<inter> place ET ED env = {}" "{XT..<XT + 4 * length aux} \<inter> place AT AD argv = {}"
      "{lo..<lo + 4} \<inter> place ET ED env = {}" "{lo..<lo + 4} \<inter> place AT AD argv = {}" "{lo..<lo + 4} \<inter> {XT..<XT + 4 * length aux} = {}"
    using assms(8) by (auto simp: place_def AT_def ET_def XT_def AD_def ED_def)
  have aw: "clear_of {lo..<hi} (table_bytes m a argv)" "clear_of {lo..<hi} (table_bytes m e env)"
    using assms(9) by simp_all
  obtain m1 where m1: "copy_string_table (adr ED) (adr ET) te m = Some m1" "only_in (place ET ED env) m m1" "placed m1 ET ED env"
    using copy_string_table_places [OF assms(11) clear_of_mono [OF aw(2) in_range(1)] ok(1) assms(14,15)] by blast
  have k: "string_table m1 a argv" "table_bytes m1 a argv = table_bytes m a argv"
    using string_table_kept [OF m1(2) clear_of_mono [OF aw(1) in_range(1)] assms(10)] by blast+
  obtain m2 where m2: "copy_string_table (adr AD) (adr AT) ta m1 = Some m2" "only_in (place AT AD argv) m1 m2" "placed m2 AT AD argv"
    using copy_string_table_places [OF k(1) _ ok(2) assms(12,13)] clear_of_mono [OF aw(1) in_range(2)] k(2) by auto
  let ?m3 = "store_words (adr XT) aux m2" and ?m4 = "store_u32 (store_words (adr XT) aux m2) (adr lo) (adr (length argv))"
  have m3: "only_in {XT..<XT + 4 * length aux} m2 ?m3" and m4: "only_in {lo..<lo + 4} ?m3 ?m4"
    by (rule only_in_store_words [OF ok(3)], rule only_in_store [OF ok(4)])
  have "placed ?m4 ET ED env"
    by (intro placed_kept [OF m4] placed_kept [OF m3] placed_kept [OF m2(2)] m1(3) ok(1) dis)
  moreover have "placed ?m4 AT AD argv"
    by (intro placed_kept [OF m4] placed_kept [OF m3] m2(3) ok(2) dis)
  moreover have "load_u32 ?m4 (adr (XT + 4 * i)) = aux ! i" if "i < length aux" for i
  proof -
    have "load_u32 ?m4 (adr (XT + 4 * i)) = load_u32 ?m3 (adr (XT + 4 * i))"
      by (rule only_in_load [OF m4 clear_of_block]) (use that ok(3) disjoint_parts [OF dis(6), of "{lo..<lo + 4}" "{XT + 4 * i..<XT + 4 * i + 4}"] in auto)
    then show ?thesis
      using store_words_at [OF ok(3) that] by simp
  qed
  ultimately have "program_stack ?m4 lo argv env aux"
    using placed_table ok(1,2) by (simp add: program_stack_def Let_def AT_def ET_def XT_def)
  moreover have "only_in {lo..<hi} m ?m4"
    by (rule only_in_mono [OF only_in_trans [OF only_in_trans [OF only_in_trans [OF m1(2) m2(2)] m3] m4]]) (use in_range in auto)
  ultimately show ?thesis
    using m1(1) m2(1) by blast
qed

lemma header_size_align:
  assumes "header_size argv env \<le> unat USER_STACK_SIZE"
  shows "align (adr (args_size argv env)) 16 = adr (header_size argv env)" "args_size argv env \<le> header_size argv env" "header_size argv env mod 16 = 0"
proof -
  have r: "args_size argv env \<le> header_size argv env"
    unfolding header_size_def using round_up_least(2) [of 16 "args_size argv env"] by simp
  then have b: "args_size argv env + 16 \<le> 2 ^ 32"
    using assms by (simp add: USER_STACK_SIZE_def)
  then have "adr (unat (align (adr (args_size argv env)) (2 ^ 4))) = adr (header_size argv env)"
    using align_spec [of 4 "adr (args_size argv env)"] by (simp add: header_size_def)
  then show "align (adr (args_size argv env)) 16 = adr (header_size argv env)"
    by simp
  show "args_size argv env \<le> header_size argv env" "header_size argv env mod 16 = 0"
    using r by (simp_all add: header_size_def)
qed

text \<open>
  From tables of argument and environment strings anywhere outside the part of the stack that is written, \<^verbatim>\<open>setup_args\<close> builds the
  stack of the program at a stack pointer that is a multiple of 16, and changes no other memory.
\<close>

lemma setup_args_builds:
  assumes "string_table m (ld_argv ld) argv" and "string_table m (ld_env ld) env" and "header_size argv env \<le> unat USER_STACK_SIZE"
    and "clear_of {0xC0000000 - header_size argv env..<0xC0000000} (table_bytes m (ld_argv ld) argv \<union> table_bytes m (ld_env ld) env)"
    and "allocate_pages_for_header (adr (header_size argv env)) vm = Inr vm'"
  shows "\<exists>m'. setup_args hdr (ld, vm, m) = Inr (ld\<lparr>ld_new_esp := adr (0xC0000000 - header_size argv env)\<rparr>, vm', m')
    \<and> program_stack m' (0xC0000000 - header_size argv env) argv env (auxv_words hdr ld)
    \<and> (0xC0000000 - header_size argv env) mod 16 = 0 \<and> only_in {0xC0000000 - header_size argv env..<0xC0000000} m m'"
proof -
  let ?lo = "0xC0000000 - header_size argv env"
  let ?AT = "?lo + 4" let ?ET = "?AT + 4 * (length argv + 1)" let ?XT = "?ET + 4 * (length env + 1)" let ?AD = "?XT + 64" let ?ED = "?AD + strings_size argv"
  note hs = header_size_align [OF assms(3)]
  have small: "header_size argv env \<le> 0x800000"
    using assms(3) by (simp add: USER_STACK_SIZE_def)
  have "?ED + strings_size env = ?lo + args_size argv env"
    by (simp add: args_size_def)
  then have fit: "?ED + strings_size env \<le> 0xC0000000"
    using hs(2) small by linarith
  have ti: "table_info_new m (ld_argv ld) = Some \<lparr>ti_table = ld_argv ld, ti_table_size = adr (4 * (length argv + 1)), ti_bytes = adr (strings_size argv),
        ti_entries = adr (length argv)\<rparr>" "table_info_new m (ld_env ld) = Some \<lparr>ti_table = ld_env ld, ti_table_size = adr (4 * (length env + 1)),
        ti_bytes = adr (strings_size env), ti_entries = adr (length env)\<rparr>"
    by (rule table_info_counts, fact)+
  let ?ta = "\<lparr>ti_table = ld_argv ld, ti_table_size = adr (4 * (length argv + 1)), ti_bytes = adr (strings_size argv), ti_entries = adr (length argv)\<rparr>"
  let ?te = "\<lparr>ti_table = ld_env ld, ti_table_size = adr (4 * (length env + 1)), ti_bytes = adr (strings_size env), ti_entries = adr (length env)\<rparr>"
  have total: "ti_total_size ?te + ti_total_size ?ta + 4 * (auxv_records * 2) + 4 = adr (args_size argv env)"
    by (simp add: ti_total_size_def auxv_records_def args_size_def adr_def)
  have esp: "stack_top - adr (header_size argv env) = adr ?lo"
    using small by (simp add: stack_top_def KERNEL_VIRTUAL_BASE_def adr_def of_nat_diff)
  have addrs: "adr ?lo + 4 = adr ?AT" "adr ?AT + adr (4 * (length argv + 1)) = adr ?ET" "adr ?ET + adr (4 * (length env + 1)) = adr ?XT"
      "adr ?XT + 4 * (auxv_records * 2) = adr ?AD" "adr ?AD + adr (strings_size argv) = adr ?ED"
    unfolding auxv_records_def by (simp_all only: adr_def of_nat_add of_nat_numeral) simp_all
  obtain m1 m2 where m: "copy_string_table (adr ?ED) (adr ?ET) ?te m = Some m1" "copy_string_table (adr ?AD) (adr ?AT) ?ta m1 = Some m2"
      "program_stack (store_u32 (store_words (adr ?XT) (auxv_words hdr ld) m2) (adr ?lo) (adr (length argv))) ?lo argv env (auxv_words hdr ld)"
      "only_in {?lo..<0xC0000000} m (store_u32 (store_words (adr ?XT) (auxv_words hdr ld) m2) (adr ?lo) (adr (length argv)))"
    using stack_parts [OF fit _ _ assms(4,1,2), of "auxv_words hdr ld" ?ta ?te] by (auto simp: auxv_words_def)
  have aux: "auxv_words hdr (ld\<lparr>ld_new_esp := adr ?lo\<rparr>) = auxv_words hdr ld"
    by (simp add: auxv_words_def)
  have result: "setup_args hdr (ld, vm, m) = Inr (ld\<lparr>ld_new_esp := adr ?lo\<rparr>, vm', store_u32 (store_words (adr ?XT) (auxv_words hdr ld) m2) (adr ?lo) (adr (length argv)))"
    unfolding setup_args_def prod.case ti option.case total Let_def hs(1) assms(5) bind_result_Inr esp table_info.simps addrs m(1,2) write_auxv_table_def aux ..
  have mult: "?lo mod 16 = 0"
    by (intro dvd_imp_mod_0 dvd_diff_nat dvdI [of "0xC0000000" 16 "0xC000000"] mod_0_imp_dvd [OF hs(3)]) simp
  show ?thesis
    by (rule exI, intro conjI, rule result, rule m(3), rule mult, rule m(4))
qed

definition demo_args :: mem where
  "demo_args = (\<lambda>_. 0)(0x1001 := 0x20, 0x2000 := 97)"

lemma demo_args_tables: "string_table demo_args 0x1000 [[97]]" "string_table demo_args 0x1008 []"
  by (simp_all add: demo_args_def load_u32_def mem_str_def is_cstr_def adr_def)

lemma demo_args_apart: "clear_of {0xC0000000 - 96..<0xC0000000} (table_bytes demo_args 0x1000 [[97]] \<union> table_bytes demo_args 0x1008 [])"
proof -
  have "load_u32 demo_args 0x1000 = adr 0x2000"
    by (simp add: demo_args_def load_u32_def adr_def)
  moreover have low: "clear_of {0xC0000000 - 96..<0xC0000000} (block_set (adr a) n)" if "a + n \<le> 0x3000" for a n
    using that by (intro clear_of_block) auto
  ultimately show ?thesis
    using low [of "0x1000" 4] low [of "0x1004" 4] low [of "0x1008" 4] low [of "0x2000" "Suc (Suc 0)"] by (simp add: adr_def)
qed

lemma demo_args_size: "header_size [[97]] [] = 96"
  by (simp add: header_size_def args_size_def)

lemma demo_args_pages: "\<exists>vm'. allocate_pages_for_header (adr 96) demo_vm = Inr vm'"
proof -
  have "first_frame (vm_frames demo_vm) = Some 2"
    by (simp add: demo_vm_def first_frame_def first_frame_from.simps first_bit_from.simps INDEX_FROM_BIT_def)
  moreover have "page_align (adr 96) div cPageSize = 1"
    by (simp add: page_align_def cPageSize_def cPageMask_def adr_def)
  ultimately show ?thesis
    by (simp add: allocate_pages_for_header_def stack_top_def KERNEL_VIRTUAL_BASE_def cPageSize_def adr_def get_current_page_def get_page_def
        vm_kmalloc_ap_def set_table_def set_dir_entry_def set_page_def vm_alloc_frame_def alloc_frame_def page_zero_def)
      (simp add: demo_vm_def vm_kmalloc_ap_def set_table_def set_dir_entry_def set_page_def vm_alloc_frame_def alloc_frame_def page_zero_def Let_def)
qed


subsection \<open>Starting a program\<close>

definition program_headers :: "elf_header \<Rightarrow> (nat \<Rightarrow> u8) \<Rightarrow> program_header list" where
  "program_headers hdr b = map (\<lambda>i. program_header_of b (PROGRAM_HEADER_SIZE * i)) [0..<unat (e_phnum hdr)]"

definition segment_mapping :: "nat \<Rightarrow> program_header \<Rightarrow> nat memory_mapping" where
  "segment_mapping node ph = memory_mapping_new (p_vaddr ph) (p_memsz ph) (Some node) (p_offset ph) (p_filesz ph) (mmap_flags ph)"

text \<open>The highest end of a segment, and the address at which the file starts.\<close>

definition segments_end :: "program_header list \<Rightarrow> u32" where
  "segments_end phs = foldr (\<lambda>ph e. max (p_vaddr ph + p_memsz ph) e) (filter load_p phs) 0"

fun segments_base :: "program_header list \<Rightarrow> u32" where
  "segments_base [] = 0"
| "segments_base (ph # phs) = (if load_p ph \<and> p_vaddr ph \<noteq> p_offset ph then p_vaddr ph - p_offset ph else segments_base phs)"

lemma fold_ph_at:
  assumes "PROGRAM_HEADER_SIZE * unat (e_phnum hdr) \<le> unat (ph_size hdr)"
  shows "fold_result (\<lambda>i s. bind_result (ph_at hdr b i) (\<lambda>ph. f ph s)) [0..<unat (e_phnum hdr)] s = fold_result f (program_headers hdr b) s"
proof -
  have "fold_result (\<lambda>i s. bind_result (ph_at hdr b i) (\<lambda>ph. f ph s)) is s
      = fold_result f (map (\<lambda>i. program_header_of b (PROGRAM_HEADER_SIZE * i)) is) s" if "\<forall>i \<in> set is. i < unat (e_phnum hdr)" for "is" s
    using that
  proof (induction "is" arbitrary: s)
    case (Cons i js)
    have "PROGRAM_HEADER_SIZE * (i + 1) \<le> PROGRAM_HEADER_SIZE * unat (e_phnum hdr)"
      using Cons.prems by (intro mult_le_mono2) simp
    then have "ph_at hdr b i = Inr (program_header_of b (PROGRAM_HEADER_SIZE * i))"
      using assms by (simp add: ph_at_def)
    moreover have "(\<lambda>s. fold_result (\<lambda>i s. bind_result (ph_at hdr b i) (\<lambda>ph. f ph s)) js s)
        = (\<lambda>s. fold_result f (map (\<lambda>i. program_header_of b (PROGRAM_HEADER_SIZE * i)) js) s)"
      using Cons by (intro ext) simp
    ultimately show ?case
      by simp
  qed simp
  then show ?thesis
    by (simp add: program_headers_def)
qed

lemma fold_map_segment:
  "fold_result (\<lambda>ph s. Inr (map_segment ph s)) phs (ld, brk, p)
    = Inr (ld\<lparr>ld_base_address := if ld_base_address ld = 0 then segments_base phs else ld_base_address ld\<rparr>,
        max brk (segments_end phs), p\<lparr>p_mmaps := p_mmaps p @ map (segment_mapping (ld_node ld)) (filter load_p phs)\<rparr>)"
proof (induction phs arbitrary: ld brk p)
  case Nil
  then show ?case
    by (simp add: segments_end_def max_def)
next
  case (Cons ph phs)
  have "segments_end (ph # phs) = (if load_p ph then max (p_vaddr ph + p_memsz ph) (segments_end phs) else segments_end phs)"
    by (simp add: segments_end_def)
  then show ?case
    using Cons by (auto simp: map_segment_def Let_def add_mmap_def segment_mapping_def max_def)
qed

lemma setup_interp_none:
  assumes "load_ph nd (ld_node ld) hdr = Inr b" "PROGRAM_HEADER_SIZE * unat (e_phnum hdr) \<le> unat (ph_size hdr)"
    "\<forall>ph \<in> set (program_headers hdr b). \<not> interp_p ph"
  shows "setup_interp nd hdr ld = Inr (True, ld)"
proof -
  have "ph_at hdr b i = Inr (program_header_of b (PROGRAM_HEADER_SIZE * i)) \<and> \<not> interp_p (program_header_of b (PROGRAM_HEADER_SIZE * i))"
    if "i < unat (e_phnum hdr)" for i
  proof -
    have "PROGRAM_HEADER_SIZE * (i + 1) \<le> PROGRAM_HEADER_SIZE * unat (e_phnum hdr)"
      using that by (intro mult_le_mono2) simp
    then show ?thesis
      using assms(2,3) that by (simp add: ph_at_def program_headers_def)
  qed
  then show ?thesis
    unfolding setup_interp_def assms(1) bind_result_Inr by (intro fold_result_noop) simp
qed

lemma find_keeps: "find P xs = Some x \<Longrightarrow> find P (xs @ ys) = Some x"
  by (induction xs) (auto split: if_splits)

text \<open>
  C7: \<^verbatim>\<open>exec\<close> of a program that needs no interpreter enters it at its entry point in user mode, with a stack pointer that is
  a multiple of 16.  From the stack pointer upwards lie the argument count, the pointers to the arguments and a null pointer, the pointers to
  the environment strings and a null pointer, and the auxiliary vector of seven records and a null record; the pointers lead to complete copies of
  the strings.  One mapping of the file is added for each loadable segment, with its protection, then the break at
  the highest end of a segment and the stack.  The mappings of the program before it stay, and a page fault inside one of
  them is still served from it.  The hypotheses: the file and its headers can be read, no program header names an interpreter, the strings fit
  the stack and its pages can be allocated, and the caller's tables and strings lie outside the part at the top of the
  user stack that is overwritten (\<open>clear_of\<close>), which the code does not check.  The record \<^verbatim>\<open>AT_BASE\<close> is the uninitialised field of the loader, here \<open>raw\<close>.
\<close>

theorem exec_starts_program:
  assumes path: "load_file nd (mem_str m (rg_ebx regs)) = Inr (Some node)" and hdr: "load_header nd node = Inr (Some hdr)"
    and phs: "load_ph nd node hdr = Inr b" "PROGRAM_HEADER_SIZE * unat (e_phnum hdr) \<le> unat (ph_size hdr)"
      "\<forall>ph \<in> set (program_headers hdr b). \<not> interp_p ph"
    and args: "string_table m (rg_ecx regs) argv" "string_table m (rg_edx regs) env" "header_size argv env \<le> unat USER_STACK_SIZE"
      "clear_of {0xC0000000 - header_size argv env..<0xC0000000} (table_bytes m (rg_ecx regs) argv \<union> table_bytes m (rg_edx regs) env)"
    and pages: "allocate_pages_for_header (adr (header_size argv env)) vm = Inr vm'"
  shows "\<exists>p' m'. sys_exec nd raw raw' (regs, p, vm, m) = Inr (regs\<lparr>rg_eax := 0, rg_edx := 0, rg_eip := e_entry hdr, rg_ds := cUserDS, rg_ss := cUserDS,
        rg_cs := cUserCS, rg_useresp := adr (0xC0000000 - header_size argv env)\<rparr>, p', vm', m')
    \<and> program_stack m' (0xC0000000 - header_size argv env) argv env
        [3, segments_base (program_headers hdr b) + e_phoff hdr, 4, 32, 5, ucast (e_phnum hdr), 6, cPageSize, 7, raw, 8, 0, 9, e_entry hdr, 0, 0]
    \<and> (0xC0000000 - header_size argv env) mod 16 = 0 \<and> only_in {0xC0000000 - header_size argv env..<0xC0000000} m m'
    \<and> p_mmaps p' = p_mmaps p @ map (segment_mapping node) (filter load_p (program_headers hdr b))
        @ [memory_mapping_new (segments_end (program_headers hdr b)) 0 None 0 0 eAll, memory_mapping_new 0xBF800000 USER_STACK_SIZE None 0 0 eAll]
    \<and> (\<forall>addr mm. find_mapping addr (p_mmaps p) = Some mm \<longrightarrow> find_mapping addr (p_mmaps p') = Some mm)"
proof -
  let ?phs = "program_headers hdr b"
  let ?ld = "(loader_new node (rg_ecx regs) (rg_edx regs) raw)\<lparr>ld_target_ip := e_entry hdr\<rparr>"
  let ?ld1 = "?ld\<lparr>ld_base_address := segments_base ?phs\<rparr>"
  let ?p = "p\<lparr>p_mmaps := p_mmaps p @ map (segment_mapping node) (filter load_p ?phs)\<rparr>"
  have ld: "ld_node ?ld = node" "ld_base_address ?ld = 0" "ld_interp ?ld1 = None" "ld_argv ?ld1 = rg_ecx regs" "ld_env ?ld1 = rg_edx regs"
    by (simp_all add: loader_new_def)
  have si: "setup_interp nd hdr ?ld = Inr (True, ?ld)"
    by (rule setup_interp_none) (use phs ld(1) in auto)
  have mm: "map_memory nd hdr (?ld, p) = Inr (?ld1, position_brk (segments_end ?phs) ?p)"
    using phs(1) ld(1,2) fold_ph_at [OF phs(2), of b "\<lambda>ph s. Inr (map_segment ph s)" "(?ld, 0, p)"] fold_map_segment [of ?phs ?ld 0 p]
    by (simp add: map_memory_def)
  have li: "load_interp nd raw' (?ld1, q) = Inr (True, ?ld1, q)" for q
    using ld(3) by (simp add: load_interp_def)
  have a: "string_table m (ld_argv ?ld1) argv" "string_table m (ld_env ?ld1) env"
      "clear_of {0xC0000000 - header_size argv env..<0xC0000000} (table_bytes m (ld_argv ?ld1) argv \<union> table_bytes m (ld_env ?ld1) env)"
    unfolding ld by (fact args)+
  obtain m' where sa: "setup_args hdr (?ld1, vm, m) = Inr (?ld1\<lparr>ld_new_esp := adr (0xC0000000 - header_size argv env)\<rparr>, vm', m')"
      "program_stack m' (0xC0000000 - header_size argv env) argv env (auxv_words hdr ?ld1)"
      "(0xC0000000 - header_size argv env) mod 16 = 0" "only_in {0xC0000000 - header_size argv env..<0xC0000000} m m'"
    using setup_args_builds [OF a(1,2) args(3) a(3) pages, of hdr] by (elim exE conjE) (rule that)
  have "auxv_words hdr ?ld1
      = [3, segments_base ?phs + e_phoff hdr, 4, 32, 5, ucast (e_phnum hdr), 6, cPageSize, 7, raw, 8, 0, 9, e_entry hdr, 0, 0]"
    by (simp add: auxv_words_def loader_new_def PROGRAM_HEADER_SIZE_def adr_def)
  note stack = sa(2) [unfolded this]
  let ?p' = "add_mmap None 0 0 (stack_top - USER_STACK_SIZE) USER_STACK_SIZE eAll (position_brk (segments_end ?phs) ?p)"
  have "load_into nd raw' (loader_new node (rg_ecx regs) (rg_edx regs) raw, p, vm, m)
      = Inr (True, ?ld1\<lparr>ld_new_esp := adr (0xC0000000 - header_size argv env)\<rparr>, ?p', vm', m')"
    using hdr si mm li sa(1) by (simp add: load_into_def loader_new_def)
  then have ex: "sys_exec nd raw raw' (regs, p, vm, m) = Inr (regs\<lparr>rg_eax := 0, rg_edx := 0, rg_eip := e_entry hdr, rg_ds := cUserDS, rg_ss := cUserDS,
        rg_cs := cUserCS, rg_useresp := adr (0xC0000000 - header_size argv env)\<rparr>, ?p', vm', m')"
    using path by (simp add: sys_exec_def)
  have mmaps: "p_mmaps ?p' = p_mmaps p @ map (segment_mapping node) (filter load_p ?phs)
        @ [memory_mapping_new (segments_end ?phs) 0 None 0 0 eAll, memory_mapping_new 0xBF800000 USER_STACK_SIZE None 0 0 eAll]"
    by (simp add: add_mmap_def position_brk_def append_break_def stack_top_def KERNEL_VIRTUAL_BASE_def USER_STACK_SIZE_def)
  have keep: "find_mapping addr (p_mmaps p) = Some mm \<Longrightarrow> find_mapping addr (p_mmaps ?p') = Some mm" for addr mm
    unfolding mmaps find_mapping_def by (rule find_keeps)
  show ?thesis
    by (rule exI [of _ ?p'], rule exI [of _ m'], intro conjI allI impI,
        rule ex, rule stack, rule sa(3), rule sa(4), rule mmaps, rule keep)
qed

text \<open>A program of one segment, and a call of \<^verbatim>\<open>exec\<close> for it with one argument.\<close>

definition elf_demo :: "u8 list" where
  "elf_demo = [0x7f, 0x45, 0x4c, 0x46, 1, 1, 1, 0, 0, 0, 0, 0, 0, 0, 0, 0, 2, 0, 3, 0, 1, 0, 0, 0, 0, 0x10, 0, 8, 52, 0, 0, 0, 0, 0, 0, 0, 0, 0, 0, 0,
     52, 0, 32, 0, 1, 0, 0, 0, 0, 0, 0, 0, 1, 0, 0, 0, 0, 0, 0, 0, 0, 0, 0, 8, 0, 0, 0, 0, 100, 0, 0, 0, 0, 0x20, 0, 0, 5, 0, 0, 0, 0, 0, 0, 0]"

definition elf_demo_at :: "nat \<Rightarrow> nat \<Rightarrow> u8" where
  "elf_demo_at off i = (if off + i < 84 then elf_demo ! (off + i) else 0)"

definition elf_demo_nodes :: elf_nodes where
  "elf_demo_nodes = \<lparr>nop_length = (\<lambda>_. 84), nop_read = (\<lambda>_ off _. Inr (elf_demo_at (unat off))),
     nop_finddir = (\<lambda>_ _. Some 1)\<rparr>"

definition elf_demo_regs :: exec_registers where
  "elf_demo_regs = \<lparr>rg_eip = 0, rg_useresp = 0, rg_ebp = 0, rg_edi = 0, rg_esi = 0, rg_ebx = 0x2000, rg_eax = 17, rg_ecx = 0x1000, rg_edx = 0x1008,
     rg_ds = 0, rg_ss = 0, rg_cs = 0\<rparr>"

definition elf_demo_header :: elf_header where
  "elf_demo_header = elf_header_of (elf_demo_at 0)"

lemma elf_demo_header_fields: "e_entry elf_demo_header = 0x8001000" "e_phoff elf_demo_header = 52" "e_phentsize elf_demo_header = 32" "e_phnum elf_demo_header = 1"
    "elf_validate elf_demo_header"
  by (simp_all add: elf_demo_header_def elf_header_of_def elf_demo_at_def elf_demo_def buf_u32_def buf_u16_def elf_validate_def ET_EXEC_def MT_X86_def)

lemma elf_demo_loads: "load_header elf_demo_nodes 1 = Inr (Some elf_demo_header)"
  "load_ph elf_demo_nodes 1 elf_demo_header = Inr (elf_demo_at 52)"
  "load_file elf_demo_nodes (mem_str demo_args (rg_ebx elf_demo_regs)) = Inr (Some 1)"
  "PROGRAM_HEADER_SIZE * unat (e_phnum elf_demo_header) \<le> unat (ph_size elf_demo_header)"
proof -
  show "load_header elf_demo_nodes 1 = Inr (Some elf_demo_header)"
    using elf_demo_header_fields(5) by (simp add: load_header_def elf_demo_nodes_def HEADER_SIZE_def elf_demo_header_def)
  show "load_ph elf_demo_nodes 1 elf_demo_header = Inr (elf_demo_at 52)"
    using elf_demo_header_fields(2) by (simp add: load_ph_def elf_demo_nodes_def)
  have "is_cstr (mem_str demo_args 0x2000) [97]"
    by (simp add: is_cstr_def mem_str_def demo_args_def adr_def)
  then show "load_file elf_demo_nodes (mem_str demo_args (rg_ebx elf_demo_regs)) = Inr (Some 1)"
    using strlen_correct by (simp add: load_file_def elf_demo_nodes_def elf_demo_regs_def)
  show "PROGRAM_HEADER_SIZE * unat (e_phnum elf_demo_header) \<le> unat (ph_size elf_demo_header)"
    using elf_demo_header_fields by (simp add: PROGRAM_HEADER_SIZE_def ph_size_def)
qed

lemma elf_demo_segment:
  "program_headers elf_demo_header (elf_demo_at 52)
    = [\<lparr>p_type = 1, p_offset = 0, p_vaddr = 0x8000000, p_filesz = 100, p_memsz = 0x2000, p_flags = 5\<rparr>]"
  using elf_demo_header_fields(4) by (simp add: program_headers_def program_header_of_def PROGRAM_HEADER_SIZE_def buf_u32_def elf_demo_at_def elf_demo_def)

theorem exec_starts_program_witness:
  "\<exists>regs p' vm' m'. sys_exec elf_demo_nodes 0 0 (elf_demo_regs, demo_process, demo_vm, demo_args) = Inr (regs, p', vm', m')
     \<and> rg_eip regs = 0x8001000 \<and> string_table m' (adr 0xBFFFFFA4) [[97]] \<and> length (p_mmaps p') = length (p_mmaps demo_process) + 3"
proof -
  obtain vm' where vm': "allocate_pages_for_header (adr (header_size [[97]] [])) demo_vm = Inr vm'"
    using demo_args_pages demo_args_size by auto
  have regs: "rg_ecx elf_demo_regs = 0x1000" "rg_edx elf_demo_regs = 0x1008"
    by (simp_all add: elf_demo_regs_def)
  have none: "\<forall>ph \<in> set (program_headers elf_demo_header (elf_demo_at 52)). \<not> interp_p ph"
    unfolding elf_demo_segment by (simp add: interp_p_def PT_INTERP_def)
  have small: "header_size [[97]] [] \<le> unat USER_STACK_SIZE"
    by (simp add: demo_args_size USER_STACK_SIZE_def)
  have t: "string_table demo_args (rg_ecx elf_demo_regs) [[97]]" "string_table demo_args (rg_edx elf_demo_regs) []"
      "clear_of {0xC0000000 - header_size [[97]] []..<0xC0000000} (table_bytes demo_args (rg_ecx elf_demo_regs) [[97]] \<union> table_bytes demo_args (rg_edx elf_demo_regs) [])"
    unfolding regs demo_args_size by (fact demo_args_tables demo_args_apart)+
  show ?thesis
    using exec_starts_program [OF elf_demo_loads(3,1,2,4) none t(1,2) small t(3) vm', of 0 0 demo_process]
    unfolding elf_demo_header_fields demo_args_size elf_demo_segment
    by (elim exE conjE) (intro exI conjI, assumption, simp_all add: program_stack_def Let_def load_p_def PT_LOAD_def adr_def)
qed

end
