(* ===== verification/Spec2Isabelle.thy ===== *)
theory Spec2Isabelle
  imports Heap_Free Console_Driver Ext2 Tar Elf
begin

text \<open>
  A model of the Ulysses kernel, a small x86 kernel in C++, and of the tool \<^verbatim>\<open>make_initrd.c\<close> that writes its
  initial ramdisk.  All files are under \<^verbatim>\<open>src/\<close>; kernel sources are in \<^verbatim>\<open>src/src/\<close>.

  \<^bold>\<open>The program.\<close>  The kernel boots with paging (\<^verbatim>\<open>paging.cpp\<close>) and a heap of its own (\<^verbatim>\<open>kheap.cpp\<close>, indexed by
  \<^verbatim>\<open>ordered_array.hpp\<close>), starts the scheduler (\<^verbatim>\<open>scheduler.cpp\<close>, \<^verbatim>\<open>thread.cpp\<close>, \<^verbatim>\<open>process.cpp\<close>) with an idle
  thread, the keyboard and the timer, registers the file systems (\<^verbatim>\<open>fs.cpp\<close>, \<^verbatim>\<open>fs/\<close>), unpacks the archive it was booted with into
  its root directory (\<^verbatim>\<open>tar.cpp\<close>) and runs a first process, whose program the loader (\<^verbatim>\<open>elf.cpp\<close>) maps and gives its arguments.  Interrupts enter through \<^verbatim>\<open>isr.cpp\<close>: the timer wakes sleeping threads and switches, the keyboard
  fills a buffer that the console driver (\<^verbatim>\<open>character/console.cpp\<close>) turns into lines, a page fault makes
  \<^verbatim>\<open>MemoryMapping::fulfill\<close> load a page from a file, and the disk (\<^verbatim>\<open>block.cpp\<close>) completes a buffer and wakes
  the thread that waits for it.

  \<^bold>\<open>Common conventions\<close> (\<open>Kernel_Prelude\<close>, \<open>Common_Lib\<close>).  Machine integers are words of their width.  Memory is a
  function from 32-bit addresses to bytes; a null-terminated string is a function from offsets to bytes.  A failed assertion, a
  panic, a null pointer, an access outside an object, and a loop that provably never ends are values of
  \<open>fault\<close>, on the left of the sum type \<open>result\<close>.  A loop that may not end is a \<open>partial_function\<close> in
  the option type, where \<open>None\<close> is not returning.  Fuel is used in two places: \<open>heap_alloc\<close>, which calls itself after growing the heap,
  takes the number of calls left, and its properties hold from one call on, since a hole that fits needs no second; \<open>ht_visit\<close>,
  which iterates over a table, takes more steps than the table has entries, and then visits all of them.  Objects that the code allocates are named by numbers or by
  the address given as an argument.

  \<^bold>\<open>Theories, in the order of the code they model.\<close>
  \<^item> \<open>Common_Lib\<close>: the string and memory functions of \<^verbatim>\<open>common.cpp\<close>; \<open>Kstring\<close>: \<^verbatim>\<open>string.hpp\<close>.
  \<^item> \<open>Ordered_Array\<close>, \<open>Kernel_Heap\<close>, \<open>Heap_Layout\<close>, \<open>Heap_Alloc\<close>, \<open>Heap_Free\<close>: \<^verbatim>\<open>ordered_array.hpp\<close> and \<^verbatim>\<open>kheap.cpp\<close> over
    byte memory.  The heap invariant says that headers and footers tile the heap and that the index holds exactly the
    holes, in any order.  Allocation without alignment keeps it and returns memory disjoint from every other block; while the index is ordered by
    size, which a merge to the left can end, it takes the smallest hole that fits.  Freeing a block that is not at the end of the heap keeps it and joins neighbouring holes,
    if the footer of a hole before the block points to that hole, which a merge to the right can end.
  \<^item> \<open>Linked_List\<close>, \<open>External_List\<close>: the two lists of \<^verbatim>\<open>list.hpp\<close>.  A locale states what a queue promises and is
    interpreted on the operations of the code.
  \<^item> \<open>Frames\<close>, \<open>Paging\<close>, \<open>Address_Space\<close>, \<open>Memory_Mapping\<close>: \<^verbatim>\<open>paging.hpp\<close> and \<^verbatim>\<open>paging.cpp\<close>.  Frame allocation takes the first
    free frame; a cloned directory shares no user frame with the original and has the same contents; a demand-paged page
    holds the bytes of the file and zeros.
  \<^item> \<open>Hash_Table\<close>: \<^verbatim>\<open>hash_table.hpp\<close>, with a locale for the two operations of a key type, interpreted on the four key
    types of the kernel.
  \<^item> \<open>Vfs\<close>, \<open>Initrd\<close>, \<open>Tmpfs\<close>, \<open>Mounts\<close>: \<^verbatim>\<open>fs.cpp\<close>, \<^verbatim>\<open>fs/initrd.cpp\<close> with \<^verbatim>\<open>make_initrd.c\<close>, \<^verbatim>\<open>fs/tmpfs.cpp\<close>, \<^verbatim>\<open>fs/devfs.cpp\<close>.
    Path lookup refines the walk over the components of the path, and \<open>vfs_ok\<close> says that every node reached is allocated, which mounting keeps; what \<^verbatim>\<open>make_initrd\<close> packs, the kernel reads back.
  \<^item> \<open>Spin_Lock\<close>, \<open>Process\<close>, \<open>Scheduler\<close>, \<open>Run_Queues\<close>, \<open>Kernel_Steps\<close>: locks, processes and the scheduler.  \<open>kstep\<close> is the step
    relation of the kernel; rule induction shows that every interleaving keeps the run queues consistent.  Every ready
    thread runs again by \<^verbatim>\<open>yield\<close> unless the running thread is at the head of the queue, and a sleeper wakes at its tick.  A system call is one step of \<open>kstep\<close>:
    interrupts inside \<^verbatim>\<open>io_wait\<close>, between its locked part and the switch, are not among the interleavings.
  \<^item> \<open>Rtc\<close>: the clock, compared with the Gregorian calendar.  \<open>Console\<close>: the text screen, number printing and \<^verbatim>\<open>vprintf\<close>.
    \<open>Console_Driver\<close>: buffers, keyboard, console device and interrupt dispatch.
  \<^item> \<open>Block_Device\<close>: \<^verbatim>\<open>block.cpp\<close> and \<^verbatim>\<open>block_buffer.cpp\<close>, the buffer cache, reading and partitions.  A read gives the bytes of the disk, except
    for the short reads the code gets wrong and for regions whose cached buffer was freed, which \<^verbatim>\<open>detect_partitions\<close> does to region 0 of a disk.
    \<open>await\<close> is the outcome of waiting for a buffer with one waiter; \<open>wait_then_full\<close> relates it to \<^verbatim>\<open>wait\<close> and \<^verbatim>\<open>set_full\<close>.
  \<^item> \<open>Ext2\<close>: \<^verbatim>\<open>fs/ext2.cpp\<close> on top of the block devices.  \<open>ext2_ok\<close> is the invariant of a loaded file system and its two caches; loading
    establishes it, and reading an allocated range of a file returns the bytes that the block tables on the disk lead to.  For inodes
    outside the first group the theory shows where the code reads instead.
  \<^item> \<open>Tar\<close>: \<^verbatim>\<open>tar.cpp\<close> with \<^verbatim>\<open>tmpfs\<close> below it.  The files of an archive are found by their names afterwards, with their contents.
    The bound of twelve files is where the hash table of the directory grows for the first time, which can lose entries.
  \<^item> \<open>Elf\<close>: \<^verbatim>\<open>elf.hpp\<close>, \<^verbatim>\<open>elf.cpp\<close> and the system call \<^verbatim>\<open>exec\<close> of \<^verbatim>\<open>syscall.cpp\<close>.  Argument strings are read from the memory they are copied
    to; if they lie outside the part that is written, the new stack holds the argument count, the pointer tables and the auxiliary vector above copies of
    all strings, and the segments of the program are mapped.

  \<^bold>\<open>Parameters.\<close>  Hardware is an argument: the CMOS registers of the clock, the scan code read from the keyboard, and the bytes a
  disk delivers, with the hypothesis \<open>delivers\<close> that they are the bytes of the medium.  The \<^verbatim>\<open>inflate\<close> of zlib is an argument of the
  archive loader, with the hypothesis \<open>inflates\<close> that it answers a request for some bytes within the stream with the next bytes in order.  The virtual methods of a file node are an argument where any file system may be
  behind it: demand paging and the program loader.  The uninitialised memory of new objects is an
  argument as well.

  \<^bold>\<open>Simplifications.\<close>  The index of the heap is an array of its own without a bound, where the code keeps 0x20000 entries in the memory below the first
  block.  The memory for page tables comes from a list of fresh addresses, so that the growth of the heap inside paging is not followed.  In the node store of \<open>Mounts\<close>, the
  directories of the ramdisk and of ext2 are \<open>OtherNode\<close>, whose lookup finds nothing; their own lookup is in \<open>Initrd\<close> and \<open>Ext2\<close>.  \<open>tmp_get_entries\<close> gives the records that the code
  writes into a buffer.  \<open>setup_args\<close> writes to a flat memory that the frames allocated for the stack do not change.  \<open>format\<close> takes the value that \<^verbatim>\<open>%q\<close> points to, and the
  argument list that \<^verbatim>\<open>kprintf\<close> hands on is not modelled.

  \<^bold>\<open>Not modelled.\<close>  The drivers of the disk controller, the PCI bus and the network card (\<^verbatim>\<open>ata.cpp\<close>, \<^verbatim>\<open>pci.cpp\<close>, \<^verbatim>\<open>rtl8139.cpp\<close>, with \<^verbatim>\<open>eth.cpp\<close> and
  \<^verbatim>\<open>arp.cpp\<close>) talk to hardware through ports and shared memory.  \<^verbatim>\<open>lwip/\<close> and \<^verbatim>\<open>lib/zlib/\<close> are third-party libraries, \<^verbatim>\<open>pci_db.hpp\<close> is a
  table of device names.  The files in assembly, the descriptor tables and the port instructions have no meaning above the
  processor.  The handlers of \<^verbatim>\<open>syscall.cpp\<close> other than \<^verbatim>\<open>exec\<close> pass their arguments on to operations that are modelled.
  \<^verbatim>\<open>kmain\<close> calls the initialisation of the parts in order.  The inspector, the debugger and the statistics print or do nothing, and the
  channels of \<^verbatim>\<open>ipc.cpp\<close> are not compiled.
\<close>

end
